(* ===== verification/Prelude.thy ===== *)
theory Prelude
  imports Main
    "HOL-Library.Word"
    "HOL-Library.Finite_Map"
    "HOL-Library.List_Lexorder"
    "HOL-Library.Char_ord"
    "HOL-Library.Product_Lexorder"
    "HOL-Library.Monad_Syntax"
    "HOL-Library.Multiset"
begin

text \<open>
  Shared vocabulary of the development: the Go types the program is written with (byte
  strings, instants and durations, clocks, finite maps), the pieces of the Go standard library
  it calls (\<open>strings.TrimSpace\<close>, the \<open>%d\<close> verb, saturating \<open>time.Time.Sub\<close>), and the generic
  lemmas on strings, finite maps and lists that several components use.

  Conventions. A Go string is its list of bytes. A Go map is a finite map. A run-time panic is
  \<open>None\<close> of an \<open>'a go\<close> result; an \<open>error\<close> return is \<open>Inl\<close> of a sum.
\<close>

named_theorems frame
  \<comment> \<open>an operation leaves a part of the state alone\<close>
named_theorems wf_pres
  \<comment> \<open>an operation keeps a well-formedness invariant\<close>

type_synonym 'a go = "'a option"

section \<open>Instants, durations and clocks\<close>

text \<open>
  \<open>time.Time\<close> is the number of nanoseconds since Go's zero time, so the zero value is 0 and
  \<open>Before\<close>, \<open>After\<close>, \<open>Equal\<close> and \<open>Add\<close> are the integer operations. \<open>time.Duration\<close> is a signed
  64-bit count of nanoseconds, and \<open>Sub\<close> saturates at its two ends. A \<open>func() time.Time\<close>
  held in a field is the stream of the readings it will return.
\<close>

type_synonym time = int
type_synonym duration = int
type_synonym clock = "nat \<Rightarrow> time"

definition tick :: "clock \<Rightarrow> time \<times> clock" where
  "tick c = (c 0, \<lambda>n. c (Suc n))"

definition duration_min :: duration where
  "duration_min = - (2 ^ 63)"

definition duration_max :: duration where
  "duration_max = 2 ^ 63 - 1"

definition time_sub :: "time \<Rightarrow> time \<Rightarrow> duration" where
  "time_sub t u = max duration_min (min duration_max (t - u))"

definition nanos_per_minute :: duration where
  "nanos_per_minute = 60 * 10 ^ 9"

definition nanos_per_hour :: duration where
  "nanos_per_hour = 60 * nanos_per_minute"

lemma fst_tick [simp]: "fst (tick c) = c 0"
  by (simp add: tick_def)

lemma snd_tick [simp]: "snd (tick c) n = c (Suc n)"
  by (simp add: tick_def)

lemma time_sub_gt:
  "d < duration_max \<Longrightarrow> duration_min \<le> d \<Longrightarrow> time_sub t u > d \<longleftrightarrow> t - u > d"
  unfolding time_sub_def by linarith

section \<open>Strings\<close>

definition has_prefix :: "string \<Rightarrow> string \<Rightarrow> bool" where
  "has_prefix p s \<longleftrightarrow> length p \<le> length s \<and> take (length p) s = p"

definition has_suffix :: "string \<Rightarrow> string \<Rightarrow> bool" where
  "has_suffix p s \<longleftrightarrow> length p \<le> length s \<and> drop (length s - length p) s = p"

lemma has_prefix_iff: "has_prefix p s \<longleftrightarrow> (\<exists>t. s = p @ t)"
  unfolding has_prefix_def by (metis append_eq_conv_conj append_take_drop_id le_add1 length_append)

lemma has_suffix_iff: "has_suffix p s \<longleftrightarrow> (\<exists>t. s = t @ p)"
proof
  assume "has_suffix p s"
  then have "s = take (length s - length p) s @ p"
    unfolding has_suffix_def by (metis append_take_drop_id)
  then show "\<exists>t. s = t @ p" by blast
qed (auto simp: has_suffix_def)

text \<open>
  \<open>strings.TrimSpace\<close> drops leading and trailing Unicode white space. On UTF-8 bytes that is one
  of the encodings below (the six ASCII spaces, U+0085, U+00A0, U+1680, U+2000 to U+200A,
  U+2028, U+2029, U+202F, U+205F and U+3000); a byte that starts none of them stops the trim.
\<close>

definition space_encodings :: "string list" where
  "space_encodings =
     map (\<lambda>b. [char_of b]) [9, 10, 11, 12, 13, 32 :: nat] @
     map (\<lambda>b. [char_of (194 :: nat), char_of b]) [133, 160 :: nat] @
     [[char_of (225 :: nat), char_of (154 :: nat), char_of (128 :: nat)]] @
     map (\<lambda>b. [char_of (226 :: nat), char_of (128 :: nat), char_of b])
       ([128 ..< 139] @ [168, 169, 175 :: nat]) @
     [[char_of (226 :: nat), char_of (129 :: nat), char_of (159 :: nat)],
      [char_of (227 :: nat), char_of (128 :: nat), char_of (128 :: nat)]]"

fun strip_one :: "string list \<Rightarrow> string \<Rightarrow> string option" where
  "strip_one [] s = None"
| "strip_one (p # ps) s =
     (if p \<noteq> [] \<and> has_prefix p s then Some (drop (length p) s) else strip_one ps s)"

lemma strip_one_shorter [termination_simp]:
  "strip_one ps s = Some t \<Longrightarrow> length t < length s"
  by (induction ps)
    (auto simp: has_prefix_def length_greater_0_conv [symmetric]
      simp del: length_greater_0_conv split: if_splits)

fun trim_left_of :: "string list \<Rightarrow> string \<Rightarrow> string" where
  "trim_left_of ps s = (case strip_one ps s of None \<Rightarrow> s | Some t \<Rightarrow> trim_left_of ps t)"

declare trim_left_of.simps [simp del]

definition TrimSpace :: "string \<Rightarrow> string" where
  "TrimSpace s =
     rev (trim_left_of (map rev space_encodings) (rev (trim_left_of space_encodings s)))"

lemma strip_one_suffix: "strip_one ps s = Some t \<Longrightarrow> \<exists>p \<in> set ps. s = p @ t"
  by (induction ps) (auto simp: has_prefix_def split: if_splits, metis append_take_drop_id)

lemma strip_one_None: "strip_one ps s = None \<longleftrightarrow> (\<forall>p \<in> set ps. p = [] \<or> \<not> has_prefix p s)"
  by (induction ps) auto

lemma trim_left_of_strip_None: "strip_one ps (trim_left_of ps s) = None"
  by (induction ps s rule: trim_left_of.induct)
    (subst trim_left_of.simps, simp split: option.splits)

lemma trim_left_of_id: "strip_one ps s = None \<Longrightarrow> trim_left_of ps s = s"
  by (subst trim_left_of.simps) simp

lemma trim_left_of_suffix: "\<exists>p. s = p @ trim_left_of ps s"
proof (induction ps s rule: trim_left_of.induct)
  case (1 ps s)
  show ?case
  proof (cases "strip_one ps s")
    case None
    then show ?thesis by (simp add: trim_left_of_id)
  next
    case (Some t)
    then obtain p where "t = p @ trim_left_of ps t" using "1.IH" by blast
    moreover obtain q where "s = q @ t" using Some strip_one_suffix by blast
    ultimately have "s = (q @ p) @ trim_left_of ps t" by simp
    then show ?thesis using Some by (subst trim_left_of.simps) auto
  qed
qed

lemma length_trim_left_of: "length (trim_left_of ps s) \<le> length s"
  using trim_left_of_suffix [of s ps] by (metis le_add2 length_append)

lemma length_TrimSpace: "length (TrimSpace s) \<le> length s"
  unfolding TrimSpace_def
  by (metis length_rev length_trim_left_of le_trans)

text \<open>A trim on the right never exposes a space on the left, so trimming twice is trimming once.\<close>

lemma strip_one_append_None:
  "strip_one ps (s @ t) = None \<Longrightarrow> strip_one ps s = None"
  by (auto simp: strip_one_None has_prefix_iff)

lemma TrimSpace_idem [simp]: "TrimSpace (TrimSpace s) = TrimSpace s"
proof -
  let ?l = "trim_left_of space_encodings s"
  let ?r = "trim_left_of (map rev space_encodings) (rev ?l)"
  obtain p where "rev ?l = p @ ?r" using trim_left_of_suffix by blast
  then have "?l = rev ?r @ rev p" by (metis rev_append rev_rev_ident)
  then have "strip_one space_encodings (rev ?r @ rev p) = None"
    using trim_left_of_strip_None [of space_encodings s] by simp
  then have left: "strip_one space_encodings (rev ?r) = None"
    by (rule strip_one_append_None)
  have right: "strip_one (map rev space_encodings) ?r = None"
    by (rule trim_left_of_strip_None)
  show ?thesis
    by (simp add: TrimSpace_def trim_left_of_id left right)
qed

text \<open>A string that starts and ends with a visible ASCII character is left alone.\<close>

definition plain_char :: "char \<Rightarrow> bool" where
  "plain_char c \<longleftrightarrow> 32 < (of_char c :: nat) \<and> (of_char c :: nat) < 127"

lemma space_encodings_hd:
  "p \<in> set space_encodings \<Longrightarrow> p \<noteq> [] \<and> \<not> plain_char (hd p) \<and> \<not> plain_char (last p)"
  unfolding space_encodings_def plain_char_def by (auto simp: of_char_of)

lemma strip_one_plain:
  assumes "plain_char c" and "\<And>p. p \<in> set ps \<Longrightarrow> p \<noteq> [] \<and> \<not> plain_char (hd p)"
  shows "strip_one ps (c # s) = None"
  unfolding strip_one_None has_prefix_iff
  using assms by (fastforce simp: Cons_eq_append_conv)

lemma TrimSpace_plain:
  assumes "plain_char (hd s)" and "plain_char (last s)" and "s \<noteq> []"
  shows "TrimSpace s = s"
proof -
  have l: "trim_left_of space_encodings s = s"
    using strip_one_plain [OF assms(1), of space_encodings "tl s"] space_encodings_hd assms(3)
    by (simp add: trim_left_of_id)
  have "strip_one (map rev space_encodings) (hd (rev s) # tl (rev s)) = None"
    by (rule strip_one_plain) (use assms space_encodings_hd in \<open>auto simp: hd_rev\<close>)
  with assms(3) have r: "trim_left_of (map rev space_encodings) (rev s) = rev s"
    by (simp add: trim_left_of_id)
  show ?thesis by (simp add: TrimSpace_def l r)
qed

lemma TrimSpace_Nil [simp]: "TrimSpace [] = []"
  using length_TrimSpace [of "[]"] by simp

lemma takeWhile_until: "c \<notin> set u \<Longrightarrow> takeWhile (\<lambda>d. d \<noteq> c) (u @ c # x) = u"
  by (induction u) auto

section \<open>Decimal numerals\<close>

definition digit_char :: "nat \<Rightarrow> char" where
  "digit_char d = char_of (48 + d)"

definition is_digit :: "char \<Rightarrow> bool" where
  "is_digit c \<longleftrightarrow> 48 \<le> (of_char c :: nat) \<and> (of_char c :: nat) \<le> 57"

definition digit_value :: "char \<Rightarrow> nat" where
  "digit_value c = of_char c - 48"

text \<open>The \<open>%d\<close> verb on a non-negative and on a signed integer.\<close>

fun itoa :: "nat \<Rightarrow> string" where
  "itoa n = (if n < 10 then [digit_char n] else itoa (n div 10) @ [digit_char (n mod 10)])"

declare itoa.simps [simp del]

definition itoa_int :: "int \<Rightarrow> string" where
  "itoa_int i = (if i < 0 then ''-'' @ itoa (nat (- i)) else itoa (nat i))"

definition decimal_value :: "string \<Rightarrow> nat" where
  "decimal_value s = foldl (\<lambda>v c. v * 10 + digit_value c) 0 s"

lemma digit_value_char [simp]: "d < 10 \<Longrightarrow> digit_value (digit_char d) = d"
  by (simp add: digit_value_def digit_char_def)

lemma is_digit_char [simp]: "d < 10 \<Longrightarrow> is_digit (digit_char d)"
  by (simp add: is_digit_def digit_char_def)

lemma itoa_digits: "\<forall>c \<in> set (itoa n). is_digit c"
proof (induction n rule: itoa.induct)
  case (1 n)
  then show ?case by (subst itoa.simps) auto
qed

lemma itoa_nonempty [simp]: "itoa n \<noteq> []"
  by (subst itoa.simps) simp

lemma decimal_value_itoa [simp]: "decimal_value (itoa n) = n"
proof (induction n rule: itoa.induct)
  case (1 n)
  show ?case
  proof (cases "n < 10")
    case True
    then show ?thesis by (subst itoa.simps) (simp add: decimal_value_def)
  next
    case False
    then have "decimal_value (itoa (n div 10)) = n div 10" using "1.IH" by simp
    with False show ?thesis by (subst itoa.simps) (simp add: decimal_value_def)
  qed
qed

lemma itoa_inject [simp]: "itoa m = itoa n \<longleftrightarrow> m = n"
  by (metis decimal_value_itoa)

definition trailing_digits :: "string \<Rightarrow> string" where
  "trailing_digits s = rev (takeWhile is_digit (rev s))"

lemma not_is_digit_v [simp]: "\<not> is_digit (CHR ''v'')"
  by (simp add: is_digit_def)

lemma trailing_digits_append:
  assumes "\<forall>c \<in> set ds. is_digit c" and "\<not> is_digit c"
  shows "trailing_digits (s @ c # ds) = ds"
proof -
  have "takeWhile is_digit (rev ds @ (c # rev s)) = rev ds @ takeWhile is_digit (c # rev s)"
    by (rule takeWhile_append2) (use assms(1) in simp)
  with assms(2) show ?thesis by (simp add: trailing_digits_def)
qed

section \<open>Finite maps\<close>

definition sorted_keys :: "('k :: linorder, 'v) fmap \<Rightarrow> 'k list" where
  "sorted_keys m = sorted_list_of_fset (fmdom m)"

lemma set_sorted_keys [simp]: "set (sorted_keys m) = fmdom' m"
  by (simp add: sorted_keys_def fmdom'_alt_def sorted_list_of_fset.rep_eq)

lemma distinct_sorted_keys [simp]: "distinct (sorted_keys m)"
  by (simp add: sorted_keys_def sorted_list_of_fset.rep_eq)

lemma sorted_sorted_keys [simp]: "sorted (sorted_keys m)"
  by (simp add: sorted_keys_def sorted_list_of_fset.rep_eq)

lemma fmdom'_iff: "k \<in> fmdom' m \<longleftrightarrow> (\<exists>v. fmlookup m k = Some v)"
  by (auto simp: fmlookup_dom'_iff)

lemma fmdom'_None: "k \<notin> fmdom' m \<longleftrightarrow> fmlookup m k = None"
  by (auto simp: fmlookup_dom'_iff)

definition map_size :: "('k, 'v) fmap \<Rightarrow> nat" where
  "map_size m = fcard (fmdom m)"

lemma map_size_empty [simp]: "map_size fmempty = 0"
  by (simp add: map_size_def)

lemma map_size_fmupd: "map_size (fmupd k v m) = (if fmlookup m k = None then Suc (map_size m) else map_size m)"
proof (cases "fmlookup m k")
  case None
  then show ?thesis by (simp add: map_size_def fcard_finsert_disjoint fmdom_notI)
next
  case (Some a)
  then have "finsert k (fmdom m) = fmdom m" by (meson finsert_absorb fmdomI)
  with Some show ?thesis by (simp add: map_size_def)
qed

lemma map_size_eq_length_sorted_keys: "length (sorted_keys m) = map_size m"
  by (simp add: sorted_keys_def map_size_def sorted_list_of_fset.rep_eq fcard.rep_eq)

section \<open>Sorting\<close>

lemma insort_key_snoc: "f x < f y \<Longrightarrow> insort_key f x (ys @ [y]) = insort_key f x ys @ [y]"
  by (induction ys) auto

lemma sort_key_snoc_max:
  "\<forall>x \<in> set xs. f x < f y \<Longrightarrow> sort_key f (xs @ [y]) = sort_key f xs @ [y]"
  by (induction xs) (auto simp: insort_key_snoc)

end
