(* ===== verification/GoFloat.thy ===== *)
theory GoFloat
  imports Prelude
begin

text \<open>
  The part of \<open>float64\<close> the program uses: a value is its IEEE 754 binary64 bit pattern; it is
  tested for being a whole number (\<open>decodeFields\<close>), compared for being a whole number that fits
  \<open>int64\<close>, and printed with \<open>%g\<close>, which writes the shortest decimal that reads back as the same
  value and takes the exponent form for a decimal exponent below -4 or from 6 upwards.
\<close>

unbundle bit_operations_syntax

type_synonym f64 = "64 word"
type_synonym int64 = "64 word"

section \<open>Decoding\<close>

definition f64_neg :: "f64 \<Rightarrow> bool" where
  "f64_neg w = bit w 63"

definition f64_exp :: "f64 \<Rightarrow> nat" where
  "f64_exp w = unat (drop_bit 52 w AND 2047)"

definition f64_frac :: "f64 \<Rightarrow> nat" where
  "f64_frac w = unat (w AND 4503599627370495)"

text \<open>A finite value is \<open>mant * 2 powr expo\<close>, up to its sign.\<close>

definition f64_mant :: "f64 \<Rightarrow> nat" where
  "f64_mant w = (if f64_exp w = 0 then f64_frac w else 2 ^ 52 + f64_frac w)"

definition f64_expo :: "f64 \<Rightarrow> int" where
  "f64_expo w = (if f64_exp w = 0 then - 1074 else int (f64_exp w) - 1075)"

definition f64_finite :: "f64 \<Rightarrow> bool" where
  "f64_finite w \<longleftrightarrow> f64_exp w \<noteq> 2047"

text \<open>The value as an integer, when it is one.\<close>

definition f64_integer :: "f64 \<Rightarrow> int option" where
  "f64_integer w =
     (let m = int (f64_mant w); e = f64_expo w; s = (if f64_neg w then - 1 else 1) in
      if \<not> f64_finite w then None
      else if 0 \<le> e then Some (s * m * 2 ^ nat e)
      else if m mod 2 ^ nat (- e) = 0 then Some (s * (m div 2 ^ nat (- e)))
      else None)"

definition in_int64 :: "int \<Rightarrow> bool" where
  "in_int64 z \<longleftrightarrow> - (2 ^ 63) \<le> z \<and> z < 2 ^ 63"

section \<open>The shortest decimal\<close>

text \<open>
  The magnitude is \<open>num / den\<close>; \<open>lo\<close> and \<open>hi\<close> (over the same denominator) bound the reals that
  round to it, both included exactly when the mantissa is even. The interval below a power of
  two is half as wide.
\<close>

record interval =
  iv_num :: nat
  iv_lo :: nat
  iv_hi :: nat
  iv_den :: nat
  iv_incl :: bool

definition f64_interval :: "f64 \<Rightarrow> interval" where
  "f64_interval w =
     (let m = f64_mant w; e = f64_expo w;
          lo = (if f64_frac w = 0 \<and> 1 < f64_exp w then 4 * m - 1 else 4 * m - 2);
          up = 2 ^ nat e; dn = 2 ^ nat (- e)
      in \<lparr>iv_num = 4 * m * up, iv_lo = lo * up, iv_hi = (4 * m + 2) * up,
          iv_den = 4 * dn, iv_incl = even m\<rparr>)"

text \<open>
  The position of the decimal point: the least \<open>k\<close>, from \<open>-330\<close> upwards, with
  \<open>num / den < 10 ^ k\<close>. A binary64 value lies below \<open>10 ^ 309\<close>, so 640 steps always find it.
\<close>

definition below_pow10 :: "nat \<Rightarrow> nat \<Rightarrow> int \<Rightarrow> bool" where
  "below_pow10 num den k =
     (if 0 \<le> k then num < 10 ^ nat k * den else num * 10 ^ nat (- k) < den)"

fun find_point :: "nat \<Rightarrow> nat \<Rightarrow> nat \<Rightarrow> int \<Rightarrow> int" where
  "find_point 0 num den k = k"
| "find_point (Suc fuel) num den k =
     (if below_pow10 num den k then k else find_point fuel num den (k + 1))"

text \<open>Scaling by the power of ten that makes the integer part \<open>n\<close> digits long.\<close>

definition scale10 :: "int \<Rightarrow> nat \<Rightarrow> nat" where
  "scale10 p x = (if p < 0 then x * 10 ^ nat (- p) else x)"

definition in_interval :: "interval \<Rightarrow> int \<Rightarrow> nat \<Rightarrow> bool" where
  "in_interval iv p d =
     (let x = (if p < 0 then d * iv_den iv else d * 10 ^ nat p * iv_den iv);
          l = scale10 p (iv_lo iv); h = scale10 p (iv_hi iv)
      in (l < x \<and> x < h) \<or> (iv_incl iv \<and> (x = l \<or> x = h)))"

text \<open>
  With \<open>n\<close> digits the candidates are the decimal just below the value and the one just above;
  where both lie in the interval the nearer one is taken, and the even one of a tie.
\<close>

definition digits_n :: "interval \<Rightarrow> int \<Rightarrow> nat \<Rightarrow> nat option" where
  "digits_n iv k n =
     (let p = k - int n;
          x = scale10 p (iv_num iv);
          den = (if p < 0 then iv_den iv else 10 ^ nat p * iv_den iv);
          d = x div den; r = x mod den
      in if r = 0 then Some d
         else if in_interval iv p d \<and> in_interval iv p (d + 1) then
           Some (if 2 * r < den \<or> (2 * r = den \<and> even d) then d else d + 1)
         else if in_interval iv p d then Some d
         else if in_interval iv p (d + 1) then Some (d + 1)
         else None)"

text \<open>Seventeen digits always identify a binary64 value.\<close>

fun shortest_from :: "nat \<Rightarrow> interval \<Rightarrow> int \<Rightarrow> nat \<Rightarrow> nat \<times> int" where
  "shortest_from 0 iv k n = (0, k)"
| "shortest_from (Suc fuel) iv k n =
     (case digits_n iv k n of
        Some d \<Rightarrow> (if d = 10 ^ n then (1, k + 1) else (d, k))
      | None \<Rightarrow> shortest_from fuel iv k (Suc n))"

definition shortest :: "f64 \<Rightarrow> nat \<times> int" where
  "shortest w =
     (let iv = f64_interval w; k = find_point 640 (iv_num iv) (iv_den iv) (- 330)
      in shortest_from 17 iv k 1)"

section \<open>The \<open>%g\<close> verb\<close>

definition zeros :: "nat \<Rightarrow> string" where
  "zeros n = replicate n (CHR ''0'')"

definition fmt_exponent :: "int \<Rightarrow> string" where
  "fmt_exponent e =
     (if e < 0 then ''e-'' else ''e+'') @
     (let ds = itoa (nat \<bar>e\<bar>) in if length ds < 2 then CHR ''0'' # ds else ds)"

text \<open>\<open>ds\<close> are the digits and the value is \<open>0.ds * 10 ^ k\<close>.\<close>

definition fmt_digits :: "string \<Rightarrow> int \<Rightarrow> string" where
  "fmt_digits ds k =
     (let n = length ds; e = k - 1 in
      if e < - 4 \<or> e \<ge> 6 then
        take 1 ds @ (if 1 < n then ''.'' @ drop 1 ds else []) @ fmt_exponent e
      else if k \<le> 0 then ''0.'' @ zeros (nat (- k)) @ ds
      else if n \<le> nat k then ds @ zeros (nat k - n)
      else take (nat k) ds @ ''.'' @ drop (nat k) ds)"

definition fmt_g :: "f64 \<Rightarrow> string" where
  "fmt_g w =
     (let sign = (if f64_neg w then ''-'' else []) in
      if f64_exp w = 2047 then
        (if f64_frac w \<noteq> 0 then ''NaN'' else if f64_neg w then ''-Inf'' else ''+Inf'')
      else if f64_mant w = 0 then sign @ ''0''
      else (case shortest w of (d, k) \<Rightarrow> sign @ fmt_digits (itoa d) k))"

end
