(* ===== verification/DataModel.thy ===== *)
theory DataModel
  imports GoFloat
begin

text \<open>
  \<open>internal/model\<close>: entity keys, field types and values, snapshots, version records and tasks,
  with the operations the package gives them. A Go struct is a record, its fields prefixed by the
  struct's name; a string-typed enumeration is a datatype with one constructor per declared
  constant and one for every other string, the empty zero value among them.
\<close>

section \<open>Entity keys\<close>

datatype EntityKey = EntityKey (key_string: string)

text \<open>Keys are ordered as Go orders their strings, byte by byte.\<close>

instantiation EntityKey :: linorder
begin

definition less_eq_EntityKey :: "EntityKey \<Rightarrow> EntityKey \<Rightarrow> bool" where
  "a \<le> b \<longleftrightarrow> key_string a \<le> key_string b"

definition less_EntityKey :: "EntityKey \<Rightarrow> EntityKey \<Rightarrow> bool" where
  "a < b \<longleftrightarrow> key_string a < key_string b"

instance
  by standard
    (auto simp: less_eq_EntityKey_def less_EntityKey_def intro: EntityKey.expand)

end

section \<open>Fields and values\<close>

datatype FieldType = FieldString | FieldInt | FieldFloat | FieldBool | FieldOther string

record Field =
  field_Name :: string
  field_Type :: FieldType

record FeatureValue =
  fv_Type :: FieldType
  fv_Str :: string
  fv_Int :: int64
  fv_Float :: f64
  fv_Bool :: bool
  fv_Set :: bool

type_synonym Fields = "(string, FeatureValue) fmap"

definition zero_FeatureValue :: FeatureValue where
  "zero_FeatureValue =
     \<lparr>fv_Type = FieldOther '''', fv_Str = '''', fv_Int = 0, fv_Float = 0,
      fv_Bool = False, fv_Set = False\<rparr>"

definition StringValue :: "string \<Rightarrow> FeatureValue" where
  "StringValue v = zero_FeatureValue\<lparr>fv_Type := FieldString, fv_Str := v, fv_Set := True\<rparr>"

definition IntValue :: "int64 \<Rightarrow> FeatureValue" where
  "IntValue v = zero_FeatureValue\<lparr>fv_Type := FieldInt, fv_Int := v, fv_Set := True\<rparr>"

definition FloatValue :: "f64 \<Rightarrow> FeatureValue" where
  "FloatValue v = zero_FeatureValue\<lparr>fv_Type := FieldFloat, fv_Float := v, fv_Set := True\<rparr>"

definition BoolValue :: "bool \<Rightarrow> FeatureValue" where
  "BoolValue v = zero_FeatureValue\<lparr>fv_Type := FieldBool, fv_Bool := v, fv_Set := True\<rparr>"

lemmas value_ctor_defs =
  StringValue_def IntValue_def FloatValue_def BoolValue_def zero_FeatureValue_def

text \<open>\<open>FeatureValue.String\<close>: the canonical text of a value, by its declared type.\<close>

definition FeatureValue_String :: "FeatureValue \<Rightarrow> string" where
  "FeatureValue_String v =
     (case fv_Type v of
        FieldInt \<Rightarrow> itoa_int (sint (fv_Int v))
      | FieldFloat \<Rightarrow> fmt_g (fv_Float v)
      | FieldBool \<Rightarrow> (if fv_Bool v then ''true'' else ''false'')
      | _ \<Rightarrow> fv_Str v)"

text \<open>\<open>strings.Clone\<close> copies the bytes, so a cloned value is equal to its original.\<close>

definition CloneValue :: "FeatureValue \<Rightarrow> FeatureValue" where
  "CloneValue v = v\<lparr>fv_Str := fv_Str v\<rparr>"

definition cloneFields :: "Fields \<Rightarrow> Fields" where
  "cloneFields fs = fmmap CloneValue fs"

lemma CloneValue_id [simp]: "CloneValue v = v"
  by (simp add: CloneValue_def)

lemma cloneFields_id [simp]: "cloneFields fs = fs"
  by (rule fmap_ext) (simp add: cloneFields_def option.map_ident_strong)

section \<open>Snapshots\<close>

record Snapshot =
  snap_Entity :: EntityKey
  snap_VersionID :: string
  snap_Fields :: Fields
  snap_WrittenAt :: time

definition Snapshot_Clone :: "Snapshot \<Rightarrow> Snapshot" where
  "Snapshot_Clone s =
     \<lparr>snap_Entity = snap_Entity s, snap_VersionID = snap_VersionID s,
      snap_Fields = cloneFields (snap_Fields s), snap_WrittenAt = snap_WrittenAt s\<rparr>"

definition Snapshot_FieldNames :: "Snapshot \<Rightarrow> string list" where
  "Snapshot_FieldNames s = sorted_keys (snap_Fields s)"

definition EmptySnapshot :: "EntityKey \<Rightarrow> string \<Rightarrow> Snapshot" where
  "EmptySnapshot key versionID =
     \<lparr>snap_Entity = key, snap_VersionID = versionID, snap_Fields = fmempty, snap_WrittenAt = 0\<rparr>"

lemma Snapshot_Clone_id [simp]: "Snapshot_Clone s = s"
  by (simp add: Snapshot_Clone_def)

section \<open>Version records\<close>

datatype VersionState =
  VersionDraft | VersionPublished | VersionSuperseded | VersionRolledBack | VersionOther string

record Version =
  v_ID :: string
  v_TableID :: string
  v_State :: VersionState
  v_ParentID :: string
  v_Fields :: "string list"
  v_CreatedAt :: time
  v_PublishedAt :: time

definition IsActive :: "Version option \<Rightarrow> bool" where
  "IsActive v = (case v of None \<Rightarrow> False | Some v \<Rightarrow> v_State v = VersionPublished)"

section \<open>Tasks\<close>

datatype TaskState = TaskPending | TaskRunning | TaskPartial | TaskDone

record Task =
  task_ID :: string
  task_TableID :: string
  task_State :: TaskState
  task_Total :: nat
  task_Processed :: nat
  task_UpdatedAt :: time

definition Task_Completed :: "Task option \<Rightarrow> bool" where
  "Task_Completed t =
     (case t of None \<Rightarrow> False | Some t \<Rightarrow> task_Processed t \<ge> task_Total t)"

section \<open>Canonical texts\<close>

lemma FeatureValue_String_ctors:
  "FeatureValue_String (StringValue s) = s"
  "FeatureValue_String (IntValue i) = itoa_int (sint i)"
  "FeatureValue_String (FloatValue f) = fmt_g f"
  "FeatureValue_String (BoolValue b) = (if b then ''true'' else ''false'')"
  by (simp_all add: FeatureValue_String_def value_ctor_defs)

lemma itoa_int_inject: "itoa_int i = itoa_int j \<longleftrightarrow> i = j"
proof -
  have no_minus: "itoa n \<noteq> CHR ''-'' # s" for n s
    using itoa_digits [of n] by (auto simp: is_digit_def)
  show ?thesis
    by (auto simp: itoa_int_def no_minus no_minus [symmetric] nat_eq_iff split: if_splits)
qed

end
