(* ===== verification/XXHash.thy ===== *)
theory XXHash
  imports Prelude
begin

text \<open>
  The 64-bit xxHash the router hashes entity keys with: \<open>Sum64\<close> as written in
  \<open>vendor/.../xxhash_other.go\<close> and the helpers of \<open>xxhash.go\<close>, on \<open>64 word\<close> with wrap-around
  arithmetic. On amd64 and arm64 the same digest is computed by assembly, which is not
  modelled; the Go body is its specification. A slice is its list of bytes.
\<close>

unbundle bit_operations_syntax

type_synonym u64 = "64 word"
type_synonym byte = "8 word"

definition prime1 :: u64 where "prime1 = 11400714785074694791"
definition prime2 :: u64 where "prime2 = 14029467366897019727"
definition prime3 :: u64 where "prime3 = 1609587929392839161"
definition prime4 :: u64 where "prime4 = 9650029242287828579"
definition prime5 :: u64 where "prime5 = 2870177450012600261"

section \<open>Helpers\<close>

text \<open>
  \<open>binary.LittleEndian.Uint64\<close> and \<open>Uint32\<close> read the first eight (four) bytes; every caller
  has checked the length of the slice first.
\<close>

fun le_word :: "byte list \<Rightarrow> u64" where
  "le_word [] = 0"
| "le_word (x # b) = ucast x OR push_bit 8 (le_word b)"

definition le_u64 :: "byte list \<Rightarrow> u64" where
  "le_u64 b = le_word (take 8 b)"

definition le_u32 :: "byte list \<Rightarrow> u64" where
  "le_u32 b = le_word (take 4 b)"

text \<open>\<open>bits.RotateLeft64\<close>, and the fixed rotations \<open>rol1\<close> to \<open>rol31\<close>.\<close>

definition rol :: "nat \<Rightarrow> u64 \<Rightarrow> u64" where
  "rol k x = push_bit k x OR drop_bit (64 - k) x"

definition xx_round :: "u64 \<Rightarrow> u64 \<Rightarrow> u64" where
  "xx_round acc input = rol 31 (acc + input * prime2) * prime1"

definition mergeRound :: "u64 \<Rightarrow> u64 \<Rightarrow> u64" where
  "mergeRound acc val = (acc XOR xx_round 0 val) * prime1 + prime4"

section \<open>Sum64\<close>

record lanes =
  lane1 :: u64
  lane2 :: u64
  lane3 :: u64
  lane4 :: u64

definition round_block :: "lanes \<Rightarrow> byte list \<Rightarrow> lanes" where
  "round_block l b =
     \<lparr>lane1 = xx_round (lane1 l) (le_u64 b),
      lane2 = xx_round (lane2 l) (le_u64 (drop 8 b)),
      lane3 = xx_round (lane3 l) (le_u64 (drop 16 b)),
      lane4 = xx_round (lane4 l) (le_u64 (drop 24 b))\<rparr>"

text \<open>The loop \<open>for len(b) >= 32\<close>: the lanes at its end and what is left of the slice.\<close>

function blocks_loop :: "lanes \<Rightarrow> byte list \<Rightarrow> lanes \<times> byte list" where
  "blocks_loop l b =
     (if 32 \<le> length b then blocks_loop (round_block l b) (drop 32 b) else (l, b))"
  by pat_completeness auto
termination
  by (relation "measure (\<lambda>(l, b). length b)") auto

declare blocks_loop.simps [simp del]

definition merge_lanes :: "lanes \<Rightarrow> u64" where
  "merge_lanes l =
     (let h = rol 1 (lane1 l) + rol 7 (lane2 l) + rol 12 (lane3 l) + rol 18 (lane4 l);
          h = mergeRound h (lane1 l);
          h = mergeRound h (lane2 l);
          h = mergeRound h (lane3 l)
      in mergeRound h (lane4 l))"

definition initial_lanes :: lanes where
  "initial_lanes =
     \<lparr>lane1 = prime1 + prime2, lane2 = prime2, lane3 = 0, lane4 = - prime1\<rparr>"

text \<open>The tail: whole eight-byte words, then at most one four-byte word, then single bytes.\<close>

function words_loop :: "u64 \<Rightarrow> byte list \<Rightarrow> u64 \<times> byte list" where
  "words_loop h b =
     (if 8 \<le> length b
      then words_loop (rol 27 (h XOR xx_round 0 (le_u64 b)) * prime1 + prime4) (drop 8 b)
      else (h, b))"
  by pat_completeness auto
termination
  by (relation "measure (\<lambda>(h, b). length b)") auto

declare words_loop.simps [simp del]

fun bytes_loop :: "u64 \<Rightarrow> byte list \<Rightarrow> u64" where
  "bytes_loop h [] = h"
| "bytes_loop h (x # b) = bytes_loop (rol 11 (h XOR ucast x * prime5) * prime1) b"

definition tail_hash :: "u64 \<Rightarrow> byte list \<Rightarrow> u64" where
  "tail_hash h b =
     (case words_loop h b of (h, b) \<Rightarrow>
        if 4 \<le> length b
        then bytes_loop (rol 23 (h XOR le_u32 b * prime1) * prime2 + prime3) (drop 4 b)
        else bytes_loop h b)"

definition avalanche :: "u64 \<Rightarrow> u64" where
  "avalanche h =
     (let h = h XOR drop_bit 33 h;
          h = h * prime2;
          h = h XOR drop_bit 29 h;
          h = h * prime3
      in h XOR drop_bit 32 h)"

definition Sum64 :: "byte list \<Rightarrow> u64" where
  "Sum64 b =
     (let n = length b;
          (h, b) = (if 32 \<le> n
                    then (let (l, b) = blocks_loop initial_lanes b in (merge_lanes l, b))
                    else (prime5, b))
      in avalanche (tail_hash (h + of_nat n) b))"

text \<open>\<open>Sum64String\<close> hashes the bytes of the string.\<close>

definition bytes_of_string :: "string \<Rightarrow> byte list" where
  "bytes_of_string s = map of_char s"

definition Sum64String :: "string \<Rightarrow> u64" where
  "Sum64String s = Sum64 (bytes_of_string s)"

end
