(* ===== verification/EntityRouter.thy ===== *)
theory EntityRouter
  imports DataModel XXHash
begin

text \<open>
  \<open>internal/entity\<close>: key parsing, key hashing and the routing table. A Go \<open>int\<close> that counts
  shards is an integer; \<open>uint64(size)\<close> of a positive \<open>int\<close> is the same number, so the remainder
  of the 64-bit hash is taken over integers. \<open>Route\<close> reads \<open>routeTable\<close> by index and panics
  outside it; the invariant \<open>router_wf\<close>, which the constructor establishes and every resize
  keeps, shows that it never does. The locale \<open>shard_routing\<close> is what the store asks of a router.
\<close>

datatype EntityError =
    NonPositiveShardCount
  | CannotShrink int int
  | ExpansionDidNotChange
  | EmptyKey
  | KeyTooLong

section \<open>Hashing (hash.go) and parsing (entity.go)\<close>

definition HashKey :: "EntityKey \<Rightarrow> u64" where
  "HashKey key = Sum64String (key_string key)"

definition Slot :: "EntityKey \<Rightarrow> int \<Rightarrow> int" where
  "Slot key sz = (if sz \<le> 0 then 0 else uint (HashKey key) mod sz)"

definition ParseEntity :: "string \<Rightarrow> EntityError + EntityKey" where
  "ParseEntity key =
     (let key = TrimSpace key in
      if key = '''' then Inl EmptyKey
      else if length key > 256 then Inl KeyTooLong
      else Inr (EntityKey key))"

lemma Slot_range: "0 < sz \<Longrightarrow> 0 \<le> Slot key sz \<and> Slot key sz < sz"
  by (simp add: Slot_def)

text \<open>What \<open>ParseEntity\<close> accepts is trimmed, non-empty and short, and parses to itself.\<close>

lemma ParseEntity_Inr_iff:
  "ParseEntity s = Inr k \<longleftrightarrow>
     TrimSpace s \<noteq> '''' \<and> length (TrimSpace s) \<le> 256 \<and> k = EntityKey (TrimSpace s)"
  by (auto simp: ParseEntity_def Let_def)

lemma ParseEntity_stable:
  "ParseEntity s = Inr k \<Longrightarrow> ParseEntity (key_string k) = Inr k"
  by (auto simp: ParseEntity_Inr_iff)

section \<open>The router (router.go)\<close>

record Router =
  shardCount :: int
  routeTable :: "int list"
  shardStates :: "int list"

text \<open>
  \<open>make\<close> panics on a length the run time cannot give. How long a slice may be is up to the machine,
  so the limit is an argument, \<open>lim\<close>, of everything that makes one of a length a client chooses.
\<close>

definition make_slice :: "int \<Rightarrow> int \<Rightarrow> 'a \<Rightarrow> 'a list go" where
  "make_slice lim n x = (if 0 \<le> n \<and> n \<le> lim then Some (replicate (nat n) x) else None)"

definition rebuildTable :: "int \<Rightarrow> int \<Rightarrow> Router \<Rightarrow> Router go" where
  "rebuildTable lim n r = do {
     table \<leftarrow> make_slice lim n (0 :: int);
     states \<leftarrow> make_slice lim n 0;
     Some (r\<lparr>routeTable := map int [0 ..< length table], shardStates := states\<rparr>)
   }"

definition NewRouter :: "int \<Rightarrow> int \<Rightarrow> (EntityError + Router) go" where
  "NewRouter lim n =
     (if n \<le> 0 then Some (Inl NonPositiveShardCount)
      else map_option Inr (rebuildTable lim n \<lparr>shardCount = n, routeTable = [], shardStates = []\<rparr>))"

definition Router_ShardCount :: "Router \<Rightarrow> int" where
  "Router_ShardCount r = shardCount r"

definition Route :: "Router \<Rightarrow> EntityKey \<Rightarrow> int go" where
  "Route r key =
     (let slot = nat (Slot key (int (length (routeTable r)))) in
      if slot < length (routeTable r) then Some (routeTable r ! slot) else None)"

definition Lookup :: "Router \<Rightarrow> EntityKey \<Rightarrow> int go" where
  "Lookup r key = Route r key"

definition Router_ExpandShards :: "int \<Rightarrow> int \<Rightarrow> Router \<Rightarrow> (EntityError + Router) go" where
  "Router_ExpandShards lim newCount r =
     (if newCount \<le> 0 then Some (Inl NonPositiveShardCount)
      else if newCount = shardCount r then Some (Inr r)
      else if newCount < shardCount r then Some (Inl (CannotShrink (shardCount r) newCount))
      else map_option (\<lambda>r. Inr (r\<lparr>shardCount := newCount\<rparr>)) (rebuildTable lim newCount r))"

definition ShardState :: "Router \<Rightarrow> int \<Rightarrow> int" where
  "ShardState r shard =
     (if shard < 0 \<or> shard \<ge> int (length (shardStates r)) then - 1
      else shardStates r ! nat shard)"

text \<open>\<open>RouteEntity\<close> validates the key first; the zero shard goes with an error.\<close>

definition RouteEntity :: "Router \<Rightarrow> EntityKey \<Rightarrow> (EntityError + int) go" where
  "RouteEntity r key =
     (case ParseEntity (key_string key) of
        Inl err \<Rightarrow> Some (Inl err)
      | Inr _ \<Rightarrow> map_option Inr (Route r key))"

section \<open>Expansion (expand.go)\<close>

record Expansion =
  exp_Previous :: int
  exp_Current :: int
  exp_Added :: int

text \<open>The resized router is kept also when the delta is reported as an error.\<close>

definition Expand :: "int \<Rightarrow> int \<Rightarrow> Router \<Rightarrow> ((EntityError + Expansion) \<times> Router) go" where
  "Expand lim target r = do {
     let before = Router_ShardCount r;
     res \<leftarrow> Router_ExpandShards lim target r;
     Some (case res of
             Inl err \<Rightarrow> (Inl err, r)
           | Inr r' \<Rightarrow>
               let after = Router_ShardCount r' in
               if after \<le> before then (Inl ExpansionDidNotChange, r')
               else (Inr \<lparr>exp_Previous = before, exp_Current = after, exp_Added = after - before\<rparr>, r'))
   }"

section \<open>The invariant and the routing contract\<close>

definition router_wf :: "Router \<Rightarrow> bool" where
  "router_wf r \<longleftrightarrow>
     0 < shardCount r \<and> routeTable r = map int [0 ..< nat (shardCount r)] \<and>
     shardStates r = replicate (nat (shardCount r)) 0"

definition shard_of :: "Router \<Rightarrow> EntityKey \<Rightarrow> nat" where
  "shard_of r key = nat (Slot key (shardCount r))"

definition shard_total :: "Router \<Rightarrow> nat" where
  "shard_total r = nat (shardCount r)"

text \<open>The router whose table has been built for \<open>n\<close> shards.\<close>

definition full_router :: "int \<Rightarrow> Router" where
  "full_router n =
     \<lparr>shardCount = n, routeTable = map int [0 ..< nat n], shardStates = replicate (nat n) 0\<rparr>"

lemma rebuildTable_eq:
  "rebuildTable lim n r =
     (if 0 \<le> n \<and> n \<le> lim
      then Some (r\<lparr>routeTable := map int [0 ..< nat n], shardStates := replicate (nat n) 0\<rparr>) else None)"
  by (simp add: rebuildTable_def make_slice_def)

lemma NewRouter_eq:
  "NewRouter lim n =
     (if n \<le> 0 then Some (Inl NonPositiveShardCount)
      else if n \<le> lim then Some (Inr (full_router n)) else None)"
  by (simp add: NewRouter_def rebuildTable_eq full_router_def)

lemma ExpandShards_eq:
  "Router_ExpandShards lim n r =
     (if n \<le> 0 then Some (Inl NonPositiveShardCount)
      else if n = shardCount r then Some (Inr r)
      else if n < shardCount r then Some (Inl (CannotShrink (shardCount r) n))
      else if n \<le> lim then Some (Inr (full_router n)) else None)"
  by (simp add: Router_ExpandShards_def rebuildTable_eq full_router_def)

lemma Expand_eq:
  "Expand lim n r =
     (if n \<le> 0 then Some (Inl NonPositiveShardCount, r)
      else if n = shardCount r then Some (Inl ExpansionDidNotChange, r)
      else if n < shardCount r then Some (Inl (CannotShrink (shardCount r) n), r)
      else if n \<le> lim
      then Some (Inr \<lparr>exp_Previous = shardCount r, exp_Current = n, exp_Added = n - shardCount r\<rparr>,
                 full_router n)
      else None)"
  by (simp add: Expand_def ExpandShards_eq Router_ShardCount_def Let_def) (simp add: full_router_def)

lemma router_wf_full: "0 < n \<Longrightarrow> router_wf (full_router n)"
  by (simp add: full_router_def router_wf_def)

lemma shardCount_full [simp]: "shardCount (full_router n) = n"
  by (simp add: full_router_def)

lemma full_router_wf: "router_wf r \<Longrightarrow> full_router (shardCount r) = r"
  by (simp add: full_router_def router_wf_def)

lemma router_wf_New [wf_pres]: "NewRouter lim n = Some (Inr r) \<Longrightarrow> router_wf r"
  by (auto simp: NewRouter_eq router_wf_full split: if_splits)

lemma router_wf_ExpandShards [wf_pres]:
  "router_wf r \<Longrightarrow> Router_ExpandShards lim n r = Some (Inr r') \<Longrightarrow> router_wf r'"
  by (auto simp: ExpandShards_eq router_wf_full split: if_splits)

lemma router_wf_Expand [wf_pres]: "router_wf r \<Longrightarrow> Expand lim n r = Some (res, r') \<Longrightarrow> router_wf r'"
  by (auto simp: Expand_eq router_wf_full split: if_splits)

lemma shard_of_less: "router_wf r \<Longrightarrow> shard_of r key < shard_total r"
  using Slot_range [of "shardCount r" key] by (auto simp: router_wf_def shard_of_def shard_total_def)

lemma Route_wf: "router_wf r \<Longrightarrow> Route r key = Some (int (shard_of r key))"
  using shard_of_less [of r key]
  by (simp add: Route_def router_wf_def shard_of_def shard_total_def Let_def)

lemma Lookup_wf: "router_wf r \<Longrightarrow> Lookup r key = Some (int (shard_of r key))"
  by (simp add: Lookup_def Route_wf)

lemma NewRouter_count: "NewRouter lim n = Some (Inr r) \<Longrightarrow> shardCount r = n \<and> 0 < n"
  by (auto simp: NewRouter_eq split: if_splits)

lemma ExpandShards_count:
  "Router_ExpandShards lim n r = Some (Inr r') \<Longrightarrow> shardCount r' = n \<and> shardCount r \<le> n"
  by (auto simp: ExpandShards_eq split: if_splits)

lemma Expand_Inr:
  "Expand lim n r = Some (Inr e, r') \<Longrightarrow>
     r' = full_router n \<and> 0 < n \<and> shardCount r < n \<and> n \<le> lim \<and> shardCount r' = n \<and>
     e = \<lparr>exp_Previous = shardCount r, exp_Current = n, exp_Added = n - shardCount r\<rparr>"
  by (auto simp: Expand_eq split: if_splits)

lemma Expand_Inl: "Expand lim n r = Some (Inl e, r') \<Longrightarrow> r' = r"
  by (auto simp: Expand_eq split: if_splits)

lemma Expand_panics: "Expand lim n r = None \<longleftrightarrow> 0 < n \<and> shardCount r < n \<and> lim < n"
  by (auto simp: Expand_eq)

text \<open>
  When the old count divides the new one, an expansion moves a key only to a shard congruent to
  its old one.
\<close>

lemma shard_of_dvd:
  assumes "router_wf r" and "router_wf r'" and "shardCount r dvd shardCount r'"
  shows "shard_of r' key mod shard_total r = shard_of r key"
proof -
  let ?n = "shardCount r" and ?m = "shardCount r'" and ?h = "uint (HashKey key)"
  have pos: "0 < ?n" "0 < ?m" using assms by (auto simp: router_wf_def)
  have "(?h mod ?m) mod ?n = ?h mod ?n" using assms(3) by (rule mod_mod_cancel)
  then have "nat ((?h mod ?m) mod ?n) = nat (?h mod ?n)" by simp
  with pos show ?thesis
    by (simp add: shard_of_def shard_total_def Slot_def nat_mod_distrib)
qed

text \<open>What a sharded container asks of its router: every key has one shard, inside the range.\<close>

locale shard_routing =
  fixes ok :: "'r \<Rightarrow> bool"
    and total :: "'r \<Rightarrow> nat"
    and route :: "'r \<Rightarrow> 'k \<Rightarrow> nat"
  assumes route_less: "ok r \<Longrightarrow> route r k < total r"
begin

lemma total_pos: "ok r \<Longrightarrow> 0 < total r"
  using route_less by (metis gr_implies_not0 neq0_conv)

text \<open>An update of the shard of \<open>k\<close> is seen by the keys of that shard only.\<close>

lemma nth_update_route:
  assumes "ok r" and "length shards = total r"
  shows "(shards[route r k := x]) ! route r j = (if route r j = route r k then x else shards ! route r j)"
  using assms route_less by (simp add: nth_list_update)

end

interpretation router: shard_routing router_wf shard_total shard_of
  by unfold_locales (rule shard_of_less)

section \<open>Properties\<close>

text \<open>C34: Routing is total and depends on the hash alone: on a new router every key has the shard of its hash modulo
  the number of shards, by \<open>Route\<close> and by \<open>Lookup\<close>, and after an accepted expansion the shard of its
  hash modulo the new number, so when the new number is a multiple of the old one a key moves only
  to a shard congruent to its own. An expansion panics only beyond the longest slice.\<close>

theorem routing_by_hash:
  assumes "NewRouter lim n = Some (Inr r)"
  shows "Route r key = Some (uint (HashKey key) mod n) \<and> Lookup r key = Route r key \<and>
         0 \<le> uint (HashKey key) mod n \<and> uint (HashKey key) mod n < n \<and>
         (case Expand lim m r of
            None \<Rightarrow> n < m \<and> lim < m
          | Some (Inl err, r') \<Rightarrow> m \<le> n \<and> r' = r
          | Some (Inr x, r') \<Rightarrow> n < m \<and> Route r' key = Some (uint (HashKey key) mod m) \<and>
              (n dvd m \<longrightarrow> (uint (HashKey key) mod m) mod n = uint (HashKey key) mod n))"
proof -
  have r: "router_wf r" "shardCount r = n" "0 < n" using router_wf_New NewRouter_count assms by blast+
  have route: "Route q key = Some (uint (HashKey key) mod shardCount q)" if "router_wf q" for q
    using that Route_wf [OF that] Slot_range [of "shardCount q" key]
    by (simp add: shard_of_def Slot_def router_wf_def)
  show ?thesis
    using r route [OF r(1)] route [OF router_wf_full, of m]
    by (auto simp: Expand_eq Lookup_def mod_mod_cancel)
qed

definition small_router :: Router where
  "small_router = \<lparr>shardCount = 2, routeTable = [0, 1], shardStates = [0, 0]\<rparr>"

lemma routing_by_hash_witness:
  "Route small_router (EntityKey ''abc'') = Some 1 \<and>
   (case Expand 1024 4 small_router of
      None \<Rightarrow> False | Some (x, r') \<Rightarrow> Route r' (EntityKey ''abc'') = Some 1)"
proof -
  have new: "NewRouter 1024 2 = Some (Inr small_router)"
    by (simp add: NewRouter_def rebuildTable_eq small_router_def numeral_2_eq_2)
  have "HashKey (EntityKey ''abc'') = 4952883123889572249" by code_simp
  with routing_by_hash [OF new, of "EntityKey ''abc''" 4] show ?thesis
    by (simp add: Expand_eq small_router_def)
qed

end
