(* ===== verification/Tables.thy ===== *)
theory Tables
  imports DataModel
begin

text \<open>
  \<open>internal/table\<close>: table definitions with their validation, the registry and the built-in
  tables. The lemmas give \<open>Validate\<close> its meaning (identity present, names trimmed and distinct,
  types known), the field lookups theirs, and show that a registry only ever holds valid tables
  under their own identifier.
\<close>

section \<open>Table definitions (table.go)\<close>

record Table =
  t_ID :: string
  t_Name :: string
  t_Fields :: "Field list"

datatype TableError =
    EmptyTableID
  | UnnamedField string
  | DuplicateField string string
  | UnknownFieldType string string FieldType

fun FieldIndex_from :: "nat \<Rightarrow> Field list \<Rightarrow> string \<Rightarrow> int" where
  "FieldIndex_from i [] name = - 1"
| "FieldIndex_from i (f # fs) name =
     (if field_Name f = name then int i else FieldIndex_from (Suc i) fs name)"

definition FieldIndex :: "Table \<Rightarrow> string \<Rightarrow> int" where
  "FieldIndex t name = FieldIndex_from 0 (t_Fields t) name"

definition HasField :: "Table \<Rightarrow> string \<Rightarrow> bool" where
  "HasField t name \<longleftrightarrow> FieldIndex t name \<ge> 0"

definition Table_FieldNames :: "Table \<Rightarrow> string list" where
  "Table_FieldNames t = map field_Name (t_Fields t)"

definition known_FieldType :: "FieldType \<Rightarrow> bool" where
  "known_FieldType ft = (case ft of FieldOther _ \<Rightarrow> False | _ \<Rightarrow> True)"

text \<open>The loop of \<open>Validate\<close>, over the names seen so far.\<close>

fun Validate_fields :: "string \<Rightarrow> string set \<Rightarrow> Field list \<Rightarrow> TableError option" where
  "Validate_fields tid seen [] = None"
| "Validate_fields tid seen (f # fs) =
     (let name = TrimSpace (field_Name f) in
      if name = '''' then Some (UnnamedField tid)
      else if name \<in> seen then Some (DuplicateField tid name)
      else if known_FieldType (field_Type f) then Validate_fields tid (insert name seen) fs
      else Some (UnknownFieldType tid name (field_Type f)))"

text \<open>\<open>None\<close> is the nil table pointer; the result is the error, if any.\<close>

definition Validate :: "Table option \<Rightarrow> TableError option" where
  "Validate t =
     (case t of
        None \<Rightarrow> Some EmptyTableID
      | Some t \<Rightarrow>
          if TrimSpace (t_ID t) = '''' then Some EmptyTableID
          else Validate_fields (t_ID t) {} (t_Fields t))"

definition valid_table :: "Table \<Rightarrow> bool" where
  "valid_table t \<longleftrightarrow>
     TrimSpace (t_ID t) \<noteq> '''' \<and>
     (\<forall>f \<in> set (t_Fields t). TrimSpace (field_Name f) \<noteq> '''' \<and> known_FieldType (field_Type f)) \<and>
     distinct (map (\<lambda>f. TrimSpace (field_Name f)) (t_Fields t))"

lemma Validate_fields_None_iff:
  "Validate_fields tid seen fs = None \<longleftrightarrow>
     (\<forall>f \<in> set fs. TrimSpace (field_Name f) \<noteq> '''' \<and> TrimSpace (field_Name f) \<notin> seen \<and>
        known_FieldType (field_Type f)) \<and>
     distinct (map (\<lambda>f. TrimSpace (field_Name f)) fs)"
  by (induction tid seen fs rule: Validate_fields.induct) (auto simp: Let_def image_iff)

lemma Validate_valid: "Validate (Some t) = None \<longleftrightarrow> valid_table t"
  by (auto simp: Validate_def valid_table_def Validate_fields_None_iff)

text \<open>Each error names the first field that breaks the schema.\<close>

lemma Validate_fields_error:
  "Validate_fields tid seen fs = Some e \<Longrightarrow>
     \<exists>pre f post. fs = pre @ f # post \<and> Validate_fields tid seen pre = None \<and>
       (let name = TrimSpace (field_Name f);
            before = seen \<union> (\<lambda>f. TrimSpace (field_Name f)) ` set pre
        in e = UnnamedField tid \<and> name = '''' \<or>
           e = DuplicateField tid name \<and> name \<noteq> '''' \<and> name \<in> before \<or>
           e = UnknownFieldType tid name (field_Type f) \<and> name \<noteq> '''' \<and> name \<notin> before \<and>
             \<not> known_FieldType (field_Type f))"
proof (induction tid seen fs rule: Validate_fields.induct)
  case (1 tid seen)
  then show ?case by simp
next
  case (2 tid seen f fs)
  let ?n = "TrimSpace (field_Name f)"
  show ?case
  proof (cases "?n = '''' \<or> ?n \<in> seen \<or> \<not> known_FieldType (field_Type f)")
    case True
    with "2.prems" show ?thesis
      by (intro exI [of _ "[]"] exI [of _ f] exI [of _ fs]) (auto simp: Let_def split: if_splits)
  next
    case False
    with "2.prems" have "Validate_fields tid (insert ?n seen) fs = Some e" by (auto simp: Let_def)
    with "2.IH" False obtain pre g post where
      split: "fs = pre @ g # post" "Validate_fields tid (insert ?n seen) pre = None" and
      err: "let name = TrimSpace (field_Name g);
            before = insert ?n seen \<union> (\<lambda>f. TrimSpace (field_Name f)) ` set pre
        in e = UnnamedField tid \<and> name = '''' \<or>
           e = DuplicateField tid name \<and> name \<noteq> '''' \<and> name \<in> before \<or>
           e = UnknownFieldType tid name (field_Type g) \<and> name \<noteq> '''' \<and> name \<notin> before \<and>
             \<not> known_FieldType (field_Type g)"
      by fastforce
    from split(2) False have "Validate_fields tid seen (f # pre) = None" by (simp add: Let_def)
    with split(1) err show ?thesis
      by (intro exI [of _ "f # pre"] exI [of _ g] exI [of _ post]) (auto simp: Let_def)
  qed
qed

lemma FieldIndex_from_spec:
  "FieldIndex_from i fs name = - 1 \<and> name \<notin> set (map field_Name fs) \<or>
   (\<exists>j < length fs. FieldIndex_from i fs name = int (i + j) \<and>
      field_Name (fs ! j) = name \<and> (\<forall>k < j. field_Name (fs ! k) \<noteq> name))"
proof (induction i fs name rule: FieldIndex_from.induct)
  case (1 i name)
  then show ?case by simp
next
  case (2 i f fs name)
  show ?case
  proof (cases "field_Name f = name")
    case True
    then show ?thesis by (intro disjI2 exI [of _ 0]) simp
  next
    case False
    from "2.IH" [OF False] show ?thesis
    proof
      assume "FieldIndex_from (Suc i) fs name = - 1 \<and> name \<notin> set (map field_Name fs)"
      with False show ?thesis by auto
    next
      assume "\<exists>j < length fs. FieldIndex_from (Suc i) fs name = int (Suc i + j) \<and>
        field_Name (fs ! j) = name \<and> (\<forall>k < j. field_Name (fs ! k) \<noteq> name)"
      then obtain j where "j < length fs" "FieldIndex_from (Suc i) fs name = int (Suc i + j)"
        "field_Name (fs ! j) = name" "\<forall>k < j. field_Name (fs ! k) \<noteq> name" by blast
      with False show ?thesis
        by (intro disjI2 exI [of _ "Suc j"]) (auto simp: nth_Cons split: nat.splits)
    qed
  qed
qed

lemma HasField_iff: "HasField t name \<longleftrightarrow> name \<in> set (Table_FieldNames t)"
  using FieldIndex_from_spec [of 0 "t_Fields t" name]
  by (auto simp: HasField_def FieldIndex_def Table_FieldNames_def)

section \<open>The registry (registry.go)\<close>

record Registry =
  reg_tables :: "(string, Table) fmap"
  reg_order :: "string list"

definition NewRegistry :: Registry where
  "NewRegistry = \<lparr>reg_tables = fmempty, reg_order = []\<rparr>"

definition Register :: "Table option \<Rightarrow> Registry \<Rightarrow> TableError + Registry" where
  "Register t r =
     (case Validate t of
        Some err \<Rightarrow> Inl err
      | None \<Rightarrow>
          let t = the t;
              ord = (if fmlookup (reg_tables r) (t_ID t) = None
                     then reg_order r @ [t_ID t] else reg_order r)
          in Inr \<lparr>reg_tables = fmupd (t_ID t) t (reg_tables r), reg_order = ord\<rparr>)"

definition Registry_Get :: "Registry \<Rightarrow> string \<Rightarrow> Table option" where
  "Registry_Get r tid = fmlookup (reg_tables r) tid"

text \<open>\<open>MustGet\<close> panics on an unknown table.\<close>

definition MustGet :: "Registry \<Rightarrow> string \<Rightarrow> Table go" where
  "MustGet r tid = (case Registry_Get r tid of Some t \<Rightarrow> Some t | None \<Rightarrow> None)"

text \<open>
  \<open>List\<close> follows \<open>order\<close> and then sorts by identifier; the comparison dereferences every
  pointer, so a dangling identifier panics.
\<close>

definition Registry_List :: "Registry \<Rightarrow> Table list go" where
  "Registry_List r =
     map_option (sort_key t_ID) (those (map (fmlookup (reg_tables r)) (reg_order r)))"

definition Registry_Count :: "Registry \<Rightarrow> nat" where
  "Registry_Count r = map_size (reg_tables r)"

definition registry_wf :: "Registry \<Rightarrow> bool" where
  "registry_wf r \<longleftrightarrow>
     distinct (reg_order r) \<and> set (reg_order r) = fmdom' (reg_tables r) \<and>
     (\<forall>tid t. fmlookup (reg_tables r) tid = Some t \<longrightarrow> t_ID t = tid \<and> valid_table t)"

lemma registry_wf_New [wf_pres]: "registry_wf NewRegistry"
  by (simp add: registry_wf_def NewRegistry_def)

lemma Register_wf [wf_pres]: "registry_wf r \<Longrightarrow> Register t r = Inr r' \<Longrightarrow> registry_wf r'"
  unfolding registry_wf_def Register_def
  by (cases t)
    (auto simp: Let_def Validate_valid Validate_def [of None] fmdom'_iff split: option.splits if_splits)

lemma Register_Inl: "Register t r = Inl e \<longleftrightarrow> Validate t = Some e"
  by (auto simp: Register_def Let_def split: option.splits)

lemma Register_Get:
  "Register (Some t) r = Inr r' \<Longrightarrow>
     Registry_Get r' tid = (if tid = t_ID t then Some t else Registry_Get r tid)"
  by (auto simp: Register_def Registry_Get_def Let_def split: option.splits)

lemma those_map_Some: "(\<And>x. x \<in> set xs \<Longrightarrow> f x \<noteq> None) \<Longrightarrow> those (map f xs) = Some (map (the \<circ> f) xs)"
  by (induction xs) (auto split: option.splits)

lemma Registry_List_ids:
  assumes "registry_wf r"
  shows "\<exists>ts. Registry_List r = Some ts \<and> map t_ID ts = sort (reg_order r)"
proof -
  let ?f = "fmlookup (reg_tables r)"
  have dom: "?f tid \<noteq> None" if "tid \<in> set (reg_order r)" for tid
    using assms that by (auto simp: registry_wf_def fmdom'_iff)
  have ids: "map t_ID (map (the \<circ> ?f) (reg_order r)) = reg_order r"
    using assms dom by (auto simp: registry_wf_def intro!: map_idI)
  have sorted: "map t_ID (sort_key t_ID (map (the \<circ> ?f) (reg_order r))) = sort (reg_order r)"
  proof (rule properties_for_sort [symmetric])
    show "mset (map t_ID (sort_key t_ID (map (the \<circ> ?f) (reg_order r)))) = mset (reg_order r)"
      by (metis ids mset_map mset_sort)
  qed simp
  have "Registry_List r = Some (sort_key t_ID (map (the \<circ> ?f) (reg_order r)))"
    unfolding Registry_List_def using those_map_Some [of "reg_order r" ?f] dom by simp
  with sorted show ?thesis by blast
qed

section \<open>Built-in tables (defaults.go)\<close>

definition UserProfileTable :: Table where
  "UserProfileTable =
     \<lparr>t_ID = ''user_profile'',
      t_Name = map char_of [231, 148, 168, 230, 136, 183, 231, 148, 187, 229, 131, 143,
                            231, 137, 185, 229, 190, 129, 232, 161, 168 :: nat],
      t_Fields =
        [\<lparr>field_Name = ''age'', field_Type = FieldInt\<rparr>,
         \<lparr>field_Name = ''city'', field_Type = FieldString\<rparr>,
         \<lparr>field_Name = ''level'', field_Type = FieldInt\<rparr>,
         \<lparr>field_Name = ''active_days'', field_Type = FieldInt\<rparr>,
         \<lparr>field_Name = ''score'', field_Type = FieldFloat\<rparr>,
         \<lparr>field_Name = ''is_vip'', field_Type = FieldBool\<rparr>]\<rparr>"

definition ItemProfileTable :: Table where
  "ItemProfileTable =
     \<lparr>t_ID = ''item_profile'',
      t_Name = map char_of [231, 137, 169, 229, 147, 129, 231, 137, 185, 229, 190, 129,
                            232, 161, 168 :: nat],
      t_Fields =
        [\<lparr>field_Name = ''category'', field_Type = FieldString\<rparr>,
         \<lparr>field_Name = ''price'', field_Type = FieldFloat\<rparr>,
         \<lparr>field_Name = ''stock'', field_Type = FieldInt\<rparr>,
         \<lparr>field_Name = ''rating'', field_Type = FieldFloat\<rparr>,
         \<lparr>field_Name = ''on_sale'', field_Type = FieldBool\<rparr>]\<rparr>"

definition SeedRegistry :: "Registry \<Rightarrow> TableError + Registry" where
  "SeedRegistry r =
     (case Register (Some UserProfileTable) r of
        Inl err \<Rightarrow> Inl err
      | Inr r \<Rightarrow> Register (Some ItemProfileTable) r)"

lemma Validate_UserProfileTable: "Validate (Some UserProfileTable) = None"
  by (simp add: Validate_def UserProfileTable_def TrimSpace_plain plain_char_def known_FieldType_def)

lemma Validate_ItemProfileTable: "Validate (Some ItemProfileTable) = None"
  by (simp add: Validate_def ItemProfileTable_def TrimSpace_plain plain_char_def known_FieldType_def)

definition seeded :: Registry where
  "seeded =
     \<lparr>reg_tables = fmupd ''item_profile'' ItemProfileTable
        (fmupd ''user_profile'' UserProfileTable fmempty),
      reg_order = [''user_profile'', ''item_profile'']\<rparr>"

lemma SeedRegistry_New: "SeedRegistry NewRegistry = Inr seeded"
  by (simp add: SeedRegistry_def Register_def Validate_UserProfileTable
      Validate_ItemProfileTable NewRegistry_def seeded_def)
    (simp add: UserProfileTable_def ItemProfileTable_def)

lemma registry_wf_seeded [wf_pres]: "registry_wf seeded"
proof -
  obtain r where "Register (Some UserProfileTable) NewRegistry = Inr r"
    "Register (Some ItemProfileTable) r = Inr seeded"
    using SeedRegistry_New by (auto simp: SeedRegistry_def split: sum.splits)
  then show ?thesis using registry_wf_New Register_wf by blast
qed

lemma Get_seeded:
  "Registry_Get seeded tid =
     (if tid = ''item_profile'' then Some ItemProfileTable
      else if tid = ''user_profile'' then Some UserProfileTable else None)"
  by (simp add: Registry_Get_def seeded_def)

section \<open>Properties\<close>

text \<open>\<open>Validate\<close> accepts exactly the tables with an identifier, named fields, no field twice and known types,
  all names compared without surrounding space; otherwise it reports what is wrong with the first
  field that breaks the schema.\<close>

theorem Validate_spec:
  "case Validate (Some t) of
     None \<Rightarrow> valid_table t
   | Some err \<Rightarrow>
       \<not> valid_table t \<and>
       (if TrimSpace (t_ID t) = '''' then err = EmptyTableID
        else \<exists>pre f post. t_Fields t = pre @ f # post \<and> valid_table (t\<lparr>t_Fields := pre\<rparr>) \<and>
          (let name = TrimSpace (field_Name f) in
           if name = '''' then err = UnnamedField (t_ID t)
           else if name \<in> (\<lambda>g. TrimSpace (field_Name g)) ` set pre then err = DuplicateField (t_ID t) name
           else \<not> known_FieldType (field_Type f) \<and> err = UnknownFieldType (t_ID t) name (field_Type f)))"
proof (cases "Validate (Some t)")
  case None
  then show ?thesis using Validate_valid [of t] by simp
next
  case (Some err)
  then have bad: "\<not> valid_table t" by (simp flip: Validate_valid)
  show ?thesis
  proof (cases "TrimSpace (t_ID t) = ''''")
    case True
    with Some bad show ?thesis by (simp add: Validate_def)
  next
    case False
    with Some have "Validate_fields (t_ID t) {} (t_Fields t) = Some err" by (simp add: Validate_def)
    from Validate_fields_error [OF this] obtain pre f post where
      *: "t_Fields t = pre @ f # post" "Validate_fields (t_ID t) {} pre = None" and
      err: "let name = TrimSpace (field_Name f) in
        err = UnnamedField (t_ID t) \<and> name = '''' \<or>
        err = DuplicateField (t_ID t) name \<and> name \<noteq> '''' \<and> name \<in> (\<lambda>f. TrimSpace (field_Name f)) ` set pre \<or>
        err = UnknownFieldType (t_ID t) name (field_Type f) \<and> name \<noteq> '''' \<and>
          name \<notin> (\<lambda>f. TrimSpace (field_Name f)) ` set pre \<and> \<not> known_FieldType (field_Type f)"
      unfolding Let_def by auto
    have "valid_table (t\<lparr>t_Fields := pre\<rparr>)" using *(2) False by (simp flip: Validate_valid) (simp add: Validate_def)
    with *(1) err False Some bad show ?thesis
      by (simp add: Let_def) (intro exI [of _ pre] exI [of _ f], auto)
  qed
qed

end
