(* ===== verification/Versions.thy ===== *)
theory Versions
  imports Tables
begin

text \<open>
  \<open>internal/version\<close>: the version state machine (state.go), the manager with its active pointer
  (version.go) and the switch events of the consistency check (events.go).

  The manager's map of version records is also the heap its pointers point into: a
  \<open>*model.Version\<close> is the key of its record, which is faithful because a record is entered once,
  under an identifier of its own (\<open>manager_wf\<close>), and never removed. The calls a transition makes
  on the cache hook are returned as a list, in order; the store runs them.
\<close>

section \<open>The state machine (state.go)\<close>

datatype VersionError =
    NilRecord
  | InvalidTransition VersionState VersionState
  | UnknownTable string
  | VersionNotFound string
  | CannotRollBack string VersionState
  | NoRollbackTarget string

definition transitions :: "VersionState \<Rightarrow> VersionState list option" where
  "transitions s =
     (case s of
        VersionDraft \<Rightarrow> Some [VersionPublished]
      | VersionPublished \<Rightarrow> Some [VersionSuperseded, VersionRolledBack]
      | VersionSuperseded \<Rightarrow> Some [VersionRolledBack]
      | VersionRolledBack \<Rightarrow> Some []
      | VersionOther _ \<Rightarrow> None)"

definition CanTransition :: "VersionState \<Rightarrow> VersionState \<Rightarrow> bool" where
  "CanTransition from to =
     (case transitions from of None \<Rightarrow> False | Some edges \<Rightarrow> to \<in> set edges)"

definition Transition :: "Version option \<Rightarrow> VersionState \<Rightarrow> VersionError + Version" where
  "Transition v to =
     (case v of
        None \<Rightarrow> Inl NilRecord
      | Some v \<Rightarrow>
          if \<not> CanTransition (v_State v) to then Inl (InvalidTransition (v_State v) to)
          else Inr (v\<lparr>v_State := to\<rparr>))"

section \<open>The manager (version.go)\<close>

record CacheHook =
  hook_has_InvalidateAll :: bool

datatype HookCall = CallInvalidateVersion string | CallInvalidateAll

record Manager =
  m_versions :: "(string, Version) fmap"
  m_order :: "string list"
  m_lastByTable :: "(string, string) fmap"
  m_activeID :: string
  m_active :: "string option"
  m_hook :: "CacheHook option"
  m_now :: clock

definition NewManager :: "clock \<Rightarrow> Manager" where
  "NewManager now =
     \<lparr>m_versions = fmempty, m_order = [], m_lastByTable = fmempty, m_activeID = '''',
      m_active = None, m_hook = None, m_now = now\<rparr>"

definition SetCacheHook :: "CacheHook \<Rightarrow> Manager \<Rightarrow> Manager" where
  "SetCacheHook hook m = m\<lparr>m_hook := Some hook\<rparr>"

definition version_id :: "string \<Rightarrow> nat \<Rightarrow> string" where
  "version_id tableID n = tableID @ ''-v'' @ itoa n"

definition Create :: "Registry \<Rightarrow> string \<Rightarrow> Manager \<Rightarrow> (VersionError + Version) \<times> Manager" where
  "Create reg tableID m =
     (case Registry_Get reg tableID of
        None \<Rightarrow> (Inl (UnknownTable tableID), m)
      | Some def \<Rightarrow>
          let parent = (case fmlookup (m_lastByTable m) tableID of Some p \<Rightarrow> p | None \<Rightarrow> '''');
              vid = version_id tableID (map_size (m_versions m) + 1);
              (at, clk) = tick (m_now m);
              v = \<lparr>v_ID = vid, v_TableID = tableID, v_State = VersionDraft, v_ParentID = parent,
                   v_Fields = Table_FieldNames def, v_CreatedAt = at, v_PublishedAt = 0\<rparr>
          in (Inr v,
              m\<lparr>m_versions := fmupd vid v (m_versions m), m_order := m_order m @ [vid],
                m_lastByTable := fmupd tableID vid (m_lastByTable m), m_now := clk\<rparr>))"

text \<open>\<open>_ = Transition(p, to)\<close>: the record behind the pointer changes, an error is dropped.\<close>

definition try_transition ::
  "string \<Rightarrow> VersionState \<Rightarrow> (string, Version) fmap \<Rightarrow> (string, Version) fmap" where
  "try_transition p to versions =
     (case Transition (fmlookup versions p) to of
        Inl _ \<Rightarrow> versions
      | Inr v \<Rightarrow> fmupd p v versions)"

definition hook_calls :: "CacheHook option \<Rightarrow> string list \<Rightarrow> HookCall list" where
  "hook_calls hook ids =
     (case hook of
        None \<Rightarrow> []
      | Some h \<Rightarrow> map CallInvalidateVersion ids @
                  (if hook_has_InvalidateAll h then [CallInvalidateAll] else []))"

definition Publish ::
  "string \<Rightarrow> Manager \<Rightarrow> (VersionError + Version) \<times> Manager \<times> HookCall list" where
  "Publish vid m =
     (case fmlookup (m_versions m) vid of
        None \<Rightarrow> (Inl (VersionNotFound vid), m, [])
      | Some v \<Rightarrow>
          (case Transition (Some v) VersionPublished of
             Inl err \<Rightarrow> (Inl err, m, [])
           | Inr v \<Rightarrow>
               let (at, clk) = tick (m_now m);
                   v = v\<lparr>v_PublishedAt := at\<rparr>;
                   versions = fmupd vid v (m_versions m);
                   prior = (case Option.bind (m_active m) (fmlookup versions) of
                              None \<Rightarrow> None
                            | Some a \<Rightarrow> if v_ID a \<noteq> vid then Some (v_ID a) else None);
                   versions = (case prior of
                                 None \<Rightarrow> versions
                               | Some _ \<Rightarrow> try_transition (the (m_active m)) VersionSuperseded versions);
                   priorID = (case prior of None \<Rightarrow> '''' | Some p \<Rightarrow> p)
               in (Inr v,
                   m\<lparr>m_versions := versions, m_active := Some vid, m_activeID := vid, m_now := clk\<rparr>,
                   hook_calls (m_hook m) ((if priorID \<noteq> '''' then [priorID] else []) @ [vid]))))"

definition Rollback ::
  "string \<Rightarrow> Manager \<Rightarrow> (VersionError + Version) \<times> Manager \<times> HookCall list" where
  "Rollback vid m =
     (case fmlookup (m_versions m) vid of
        None \<Rightarrow> (Inl (VersionNotFound vid), m, [])
      | Some target \<Rightarrow>
          if v_State target \<noteq> VersionPublished \<and> v_State target \<noteq> VersionSuperseded
          then (Inl (CannotRollBack vid (v_State target)), m, [])
          else
            (case fmlookup (m_versions m) (v_ParentID target) of
               None \<Rightarrow> (Inl (NoRollbackTarget vid), m, [])
             | Some parent \<Rightarrow>
                 if v_State parent = VersionRolledBack then (Inl (NoRollbackTarget vid), m, [])
                 else
                   let p = v_ParentID target;
                       versions = try_transition p VersionPublished
                                    (try_transition vid VersionRolledBack (m_versions m));
                       parent = the (fmlookup versions p)
                   in (Inr parent,
                       m\<lparr>m_versions := versions, m_active := Some p, m_activeID := v_ID parent\<rparr>,
                       hook_calls (m_hook m) [vid, v_ID parent])))"

definition active_record :: "Manager \<Rightarrow> Version option" where
  "active_record m = Option.bind (m_active m) (fmlookup (m_versions m))"

definition ResolveActive :: "Manager \<Rightarrow> Version option" where
  "ResolveActive m =
     (if active_record m \<noteq> None \<and> \<not> IsActive (active_record m) then None else active_record m)"

definition Manager_Get :: "Manager \<Rightarrow> string \<Rightarrow> Version option" where
  "Manager_Get m vid = fmlookup (m_versions m) vid"

text \<open>
  \<open>List\<close> dereferences every identifier of \<open>order\<close> while sorting by creation time. Go's sort is
  not stable: the order of records created at the same instant is unspecified, and the lemmas
  on \<open>List\<close> speak of the records and of the sortedness only.
\<close>

definition Manager_List :: "Manager \<Rightarrow> Version list go" where
  "Manager_List m =
     map_option (sort_key v_CreatedAt) (those (map (fmlookup (m_versions m)) (m_order m)))"

section \<open>Switch events (events.go)\<close>

record SwitchEvent =
  ev_VersionID :: string
  ev_At :: time

definition switch_candidate :: "time \<Rightarrow> time \<Rightarrow> Version \<Rightarrow> bool" where
  "switch_candidate since until v \<longleftrightarrow>
     v_State v = VersionPublished \<and> v_PublishedAt v \<noteq> 0 \<and>
     \<not> v_PublishedAt v < since \<and> v_PublishedAt v < until"

text \<open>
  The map is ranged over in some order; the comparison of the sort is total on the events, so
  that order does not matter and the sorted key order stands for it.
\<close>

definition SwitchEvents :: "time \<Rightarrow> time \<Rightarrow> Manager \<Rightarrow> SwitchEvent list" where
  "SwitchEvents since until m =
     sort_key (\<lambda>e. (ev_At e, ev_VersionID e))
       (map (\<lambda>v. \<lparr>ev_VersionID = v_ID v, ev_At = v_PublishedAt v\<rparr>)
          (filter (switch_candidate since until)
             (map (\<lambda>k. the (fmlookup (m_versions m) k)) (sorted_keys (m_versions m))))
        @ [\<lparr>ev_VersionID = '''', ev_At = until\<rparr>])"

section \<open>The state machine, proved\<close>

lemma CanTransition_edges:
  "CanTransition s t \<longleftrightarrow>
     s = VersionDraft \<and> t = VersionPublished \<or>
     s = VersionPublished \<and> (t = VersionSuperseded \<or> t = VersionRolledBack) \<or>
     s = VersionSuperseded \<and> t = VersionRolledBack"
  by (auto simp: CanTransition_def transitions_def split: VersionState.splits)

lemma Transition_Inr_iff:
  "Transition v to = Inr v' \<longleftrightarrow>
     (\<exists>w. v = Some w \<and> CanTransition (v_State w) to \<and> v' = w\<lparr>v_State := to\<rparr>)"
  by (auto simp: Transition_def split: option.splits)

text \<open>Every edge goes strictly up in this rank, so a version changes state at most three times.\<close>

definition lifecycle_rank :: "VersionState \<Rightarrow> nat" where
  "lifecycle_rank s =
     (case s of VersionDraft \<Rightarrow> 0 | VersionPublished \<Rightarrow> 1 | VersionSuperseded \<Rightarrow> 2
      | VersionRolledBack \<Rightarrow> 3 | VersionOther _ \<Rightarrow> 4)"

lemma CanTransition_rank: "CanTransition s t \<Longrightarrow> lifecycle_rank s < lifecycle_rank t"
  by (auto simp: CanTransition_edges lifecycle_rank_def)

text \<open>\<open>edge_star\<close>: the states a version can have moved to.\<close>

inductive edge_star :: "VersionState \<Rightarrow> VersionState \<Rightarrow> bool" where
  edge_refl: "edge_star s s"
| edge_step: "edge_star s t \<Longrightarrow> CanTransition t u \<Longrightarrow> edge_star s u"

inductive_cases edge_starE: "edge_star s t"

lemma edge_star_trans: "edge_star t u \<Longrightarrow> edge_star s t \<Longrightarrow> edge_star s u"
  by (induction rule: edge_star.induct) (auto intro: edge_star.intros)

lemma edge_star_one: "CanTransition s t \<Longrightarrow> edge_star s t"
  by (blast intro: edge_star.intros)

lemma edge_star_rank: "edge_star s t \<Longrightarrow> lifecycle_rank s \<le> lifecycle_rank t"
  by (induction rule: edge_star.induct) (auto dest: CanTransition_rank)

lemma edge_star_from_RolledBack: "edge_star VersionRolledBack t \<Longrightarrow> t = VersionRolledBack"
  by (induction VersionRolledBack t rule: edge_star.induct) (auto simp: CanTransition_edges)

lemma edge_star_to_Draft: "edge_star s VersionDraft \<Longrightarrow> s = VersionDraft"
  by (erule edge_starE) (auto simp: CanTransition_edges)

section \<open>Identifiers\<close>

lemma trailing_digits_version_id: "trailing_digits (version_id tableID n) = itoa n"
  using trailing_digits_append [of "itoa n" "CHR ''v''" "tableID @ ''-''"] itoa_digits [of n]
  by (simp add: version_id_def)

lemma version_id_inject [simp]: "version_id t m = version_id u n \<longleftrightarrow> t = u \<and> m = n"
proof
  assume eq: "version_id t m = version_id u n"
  then have "m = n" by (metis itoa_inject trailing_digits_version_id)
  with eq show "t = u \<and> m = n" by (simp add: version_id_def)
qed simp

lemma version_id_nonempty [simp]: "version_id t n \<noteq> ''''"
  by (simp add: version_id_def)

definition serial :: "string \<Rightarrow> nat" where
  "serial vid = decimal_value (trailing_digits vid)"

lemma serial_version_id [simp]: "serial (version_id t n) = n"
  by (simp add: serial_def trailing_digits_version_id)

section \<open>The manager's invariant\<close>

definition version_wf :: "Manager \<Rightarrow> string \<Rightarrow> Version \<Rightarrow> bool" where
  "version_wf m k v \<longleftrightarrow>
     v_ID v = k \<and> k = version_id (v_TableID v) (serial k) \<and>
     1 \<le> serial k \<and> serial k \<le> map_size (m_versions m) \<and>
     (v_ParentID v = '''' \<or>
      (\<exists>p. fmlookup (m_versions m) (v_ParentID v) = Some p \<and> v_TableID p = v_TableID v \<and>
           serial (v_ParentID v) < serial k)) \<and>
     (\<forall>s. v_State v \<noteq> VersionOther s)"

definition manager_wf :: "Manager \<Rightarrow> bool" where
  "manager_wf m \<longleftrightarrow>
     distinct (m_order m) \<and> set (m_order m) = fmdom' (m_versions m) \<and>
     (\<forall>k v. fmlookup (m_versions m) k = Some v \<longrightarrow> version_wf m k v) \<and>
     (\<forall>t k. fmlookup (m_lastByTable m) t = Some k \<longrightarrow>
        (\<exists>v. fmlookup (m_versions m) k = Some v \<and> v_TableID v = t)) \<and>
     (case m_active m of None \<Rightarrow> m_activeID m = ''''
      | Some a \<Rightarrow> m_activeID m = a \<and> a \<in> fmdom' (m_versions m))"

lemma manager_wfD:
  assumes "manager_wf m" and "fmlookup (m_versions m) k = Some v"
  shows "version_wf m k v" "v_ID v = k" "k \<noteq> ''''"
  using assms by (auto simp: manager_wf_def version_wf_def) (metis version_id_nonempty)

lemma parent_neq:
  assumes "manager_wf m" "fmlookup (m_versions m) vid = Some t"
    "fmlookup (m_versions m) (v_ParentID t) = Some p"
  shows "v_ParentID t \<noteq> vid"
proof -
  have "v_ParentID t \<noteq> ''''" using manager_wfD(3) [OF assms(1,3)] .
  then have "serial (v_ParentID t) < serial vid"
    using manager_wfD(1) [OF assms(1,2)] unfolding version_wf_def by blast
  then show ?thesis by auto
qed

lemma manager_wf_New [wf_pres]: "manager_wf (NewManager now)"
  by (simp add: manager_wf_def NewManager_def)

lemma manager_wf_SetCacheHook [wf_pres]: "manager_wf m \<Longrightarrow> manager_wf (SetCacheHook h m)"
  by (simp add: manager_wf_def version_wf_def SetCacheHook_def split: option.splits)

text \<open>A new identifier is always fresh.\<close>

lemma fresh_version_id:
  assumes "manager_wf m"
  shows "fmlookup (m_versions m) (version_id t (Suc (map_size (m_versions m)))) = None"
proof (rule ccontr)
  assume "fmlookup (m_versions m) (version_id t (Suc (map_size (m_versions m)))) \<noteq> None"
  then obtain v where "fmlookup (m_versions m) (version_id t (Suc (map_size (m_versions m)))) = Some v"
    by blast
  then have "version_wf m (version_id t (Suc (map_size (m_versions m)))) v"
    using assms manager_wfD by blast
  then show False by (simp add: version_wf_def)
qed

section \<open>How the records evolve\<close>

text \<open>Between two states of the map, a record keeps everything but its state and publish time.\<close>

definition same_record :: "Version \<Rightarrow> Version \<Rightarrow> bool" where
  "same_record v v' \<longleftrightarrow>
     v_ID v' = v_ID v \<and> v_TableID v' = v_TableID v \<and> v_ParentID v' = v_ParentID v \<and>
     v_Fields v' = v_Fields v \<and> v_CreatedAt v' = v_CreatedAt v"

definition evolves :: "(string, Version) fmap \<Rightarrow> (string, Version) fmap \<Rightarrow> bool" where
  "evolves vs vs' \<longleftrightarrow>
     (\<forall>k v. fmlookup vs k = Some v \<longrightarrow>
        (\<exists>v'. fmlookup vs' k = Some v' \<and> same_record v v' \<and> edge_star (v_State v) (v_State v')))"

definition restates :: "(string, Version) fmap \<Rightarrow> (string, Version) fmap \<Rightarrow> bool" where
  "restates vs vs' \<longleftrightarrow> evolves vs vs' \<and> fmdom' vs' = fmdom' vs"

lemma same_record_refl [simp]: "same_record v v"
  by (simp add: same_record_def)

lemma same_record_trans: "same_record u v \<Longrightarrow> same_record v w \<Longrightarrow> same_record u w"
  by (simp add: same_record_def)

lemma evolves_refl [simp]: "evolves vs vs"
  by (auto simp: evolves_def intro: edge_refl)

lemma evolves_trans: "evolves us vs \<Longrightarrow> evolves vs ws \<Longrightarrow> evolves us ws"
  unfolding evolves_def by (meson edge_star_trans same_record_trans)

lemma restates_trans: "restates us vs \<Longrightarrow> restates vs ws \<Longrightarrow> restates us ws"
  by (auto simp: restates_def intro: evolves_trans)

lemma restates_refl [simp]: "restates vs vs"
  by (simp add: restates_def)

lemma restates_fmupd:
  assumes "fmlookup vs k = Some v" "same_record v v'" "edge_star (v_State v) (v_State v')"
  shows "restates vs (fmupd k v' vs)"
  using assms unfolding restates_def evolves_def
  by (auto simp: fmdom'_iff intro: edge_refl)

lemma restates_try_transition: "restates vs (try_transition p to vs)"
proof (cases "Transition (fmlookup vs p) to")
  case (Inl e)
  then show ?thesis by (simp add: try_transition_def)
next
  case (Inr v')
  then obtain v where "fmlookup vs p = Some v" "CanTransition (v_State v) to" "v' = v\<lparr>v_State := to\<rparr>"
    by (auto simp: Transition_Inr_iff)
  then show ?thesis
    using Inr restates_fmupd [of vs p v v'] edge_star_one [of "v_State v" to]
    by (simp add: try_transition_def same_record_def)
qed

lemma try_transition_lookup:
  "fmlookup (try_transition p to vs) k =
     (if k = p then
        (case fmlookup vs p of None \<Rightarrow> None
         | Some v \<Rightarrow> Some (if CanTransition (v_State v) to then v\<lparr>v_State := to\<rparr> else v))
      else fmlookup vs k)"
  by (auto simp: try_transition_def Transition_def split: option.splits)

lemma map_size_dom: "fmdom' vs' = fmdom' vs \<Longrightarrow> map_size vs' = map_size vs"
  by (simp add: map_size_def fcard.rep_eq fmdom'_alt_def)

lemma edge_star_not_Other: "edge_star s t \<Longrightarrow> \<forall>x. s \<noteq> VersionOther x \<Longrightarrow> \<forall>x. t \<noteq> VersionOther x"
  by (induction rule: edge_star.induct) (auto simp: CanTransition_edges)

lemma restates_lookup_back:
  assumes "restates vs vs'" and "fmlookup vs' k = Some v'"
  obtains v where "fmlookup vs k = Some v" "same_record v v'" "edge_star (v_State v) (v_State v')"
proof -
  from assms have "k \<in> fmdom' vs" by (auto simp: restates_def fmdom'_iff)
  then obtain v where "fmlookup vs k = Some v" by (auto simp: fmdom'_iff)
  with assms that show ?thesis unfolding restates_def evolves_def by force
qed

lemma version_wf_restates:
  assumes vs: "restates (m_versions m) (m_versions m')"
    and old: "fmlookup (m_versions m) k = Some v" "version_wf m k v"
    and new: "same_record v v'" "edge_star (v_State v) (v_State v')"
  shows "version_wf m' k v'"
proof -
  have n: "map_size (m_versions m') = map_size (m_versions m)"
    using vs by (intro map_size_dom) (simp add: restates_def)
  have state: "\<forall>s. v_State v' \<noteq> VersionOther s"
    using edge_star_not_Other [OF new(2)] old(2) by (simp add: version_wf_def)
  have parent: "\<exists>q'. fmlookup (m_versions m') (v_ParentID v) = Some q' \<and> v_TableID q' = v_TableID v"
    if "fmlookup (m_versions m) (v_ParentID v) = Some q" "v_TableID q = v_TableID v" for q
    using vs that unfolding restates_def evolves_def same_record_def by metis
  show ?thesis
    using old(2) new(1) n state parent by (auto simp: version_wf_def same_record_def)
qed

text \<open>Restating records and moving the active pointer to a record keeps the invariant.\<close>

lemma manager_wf_restates:
  assumes wf: "manager_wf m" and vs: "restates (m_versions m) vs" and a: "a \<in> fmdom' vs"
  shows "manager_wf (m\<lparr>m_versions := vs, m_active := Some a, m_activeID := a, m_now := c\<rparr>)"
    (is "manager_wf ?m'")
proof -
  have dom: "fmdom' vs = fmdom' (m_versions m)" using vs by (simp add: restates_def)
  have each: "version_wf ?m' k v'" if k: "fmlookup vs k = Some v'" for k v'
  proof -
    obtain v where "fmlookup (m_versions m) k = Some v" "same_record v v'"
      "edge_star (v_State v) (v_State v')"
      using restates_lookup_back [OF vs k] by blast
    then show ?thesis using wf vs version_wf_restates [of m ?m'] manager_wfD by simp
  qed
  have last: "\<exists>v'. fmlookup vs k = Some v' \<and> v_TableID v' = t"
    if "fmlookup (m_lastByTable m) t = Some k" for t k
    using wf vs that unfolding manager_wf_def restates_def evolves_def same_record_def by metis
  from wf dom each last a show ?thesis by (simp add: manager_wf_def)
qed

section \<open>The operations keep the invariant\<close>

lemma Create_Inr_iff:
  "Create reg t m = (Inr v, m') \<longleftrightarrow>
     (\<exists>def. Registry_Get reg t = Some def \<and>
        v = \<lparr>v_ID = version_id t (Suc (map_size (m_versions m))), v_TableID = t,
             v_State = VersionDraft,
             v_ParentID = (case fmlookup (m_lastByTable m) t of Some p \<Rightarrow> p | None \<Rightarrow> ''''),
             v_Fields = Table_FieldNames def, v_CreatedAt = m_now m 0, v_PublishedAt = 0\<rparr> \<and>
        m' = m\<lparr>m_versions := fmupd (v_ID v) v (m_versions m), m_order := m_order m @ [v_ID v],
               m_lastByTable := fmupd t (v_ID v) (m_lastByTable m),
               m_now := \<lambda>n. m_now m (Suc n)\<rparr>)"
  by (auto simp: Create_def Let_def tick_def split: option.splits)

lemma Create_Inl_iff:
  "Create reg t m = (Inl e, m') \<longleftrightarrow> Registry_Get reg t = None \<and> e = UnknownTable t \<and> m' = m"
  by (auto simp: Create_def Let_def tick_def split: option.splits)

lemma Create_wf:
  assumes wf: "manager_wf m" and c: "Create reg t m = (Inr v, m')"
  shows "manager_wf m' \<and> fmlookup (m_versions m) (v_ID v) = None \<and>
         fmlookup (m_versions m') (v_ID v) = Some v"
proof -
  let ?n = "map_size (m_versions m)"
  note c = c [unfolded Create_Inr_iff]
  have fresh: "fmlookup (m_versions m) (v_ID v) = None"
    using c fresh_version_id [OF wf, of t] by auto
  have size: "map_size (m_versions m') = Suc ?n"
    using c fresh by (auto simp: map_size_fmupd)
  have lookup: "fmlookup (m_versions m') k = (if k = v_ID v then Some v else fmlookup (m_versions m) k)" for k
    using c by auto
  have old: "version_wf m' k w" if "fmlookup (m_versions m) k = Some w" for k w
    using manager_wfD(1) [OF wf that] size lookup fresh
    by (force simp: version_wf_def)
  have parent: "v_ParentID v = '''' \<or> (\<exists>p. fmlookup (m_versions m) (v_ParentID v) = Some p \<and>
      v_TableID p = t \<and> serial (v_ParentID v) \<le> ?n)"
  proof (cases "fmlookup (m_lastByTable m) t")
    case None
    then show ?thesis using c by auto
  next
    case (Some q)
    with wf obtain w where w: "fmlookup (m_versions m) q = Some w" "v_TableID w = t"
      unfolding manager_wf_def by blast
    then show ?thesis
      using Some c manager_wfD(1) [OF wf w(1)] by (auto simp: version_wf_def)
  qed
  have new: "version_wf m' (v_ID v) v"
  proof -
    have "v_ParentID v = [] \<or> (\<exists>p. fmlookup (m_versions m') (v_ParentID v) = Some p \<and>
        v_TableID p = t \<and> serial (v_ParentID v) < Suc ?n)"
      using parent lookup fresh by (metis le_imp_less_Suc option.distinct(1))
    moreover have "v_ID v = version_id t (Suc ?n)" "v_TableID v = t" "v_State v = VersionDraft"
      using c by auto
    ultimately show ?thesis using size by (simp add: version_wf_def)
  qed
  have each: "\<forall>k w. fmlookup (m_versions m') k = Some w \<longrightarrow> version_wf m' k w"
    using old new lookup by auto
  have last: "\<exists>w. fmlookup (m_versions m') k = Some w \<and> v_TableID w = u"
    if "fmlookup (m_lastByTable m') u = Some k" for u k
  proof (cases "u = t")
    case True
    with that c have "k = v_ID v" "v_TableID v = u" by auto
    then show ?thesis using lookup by simp
  next
    case False
    with that c have "fmlookup (m_lastByTable m) u = Some k" by auto
    then obtain w where "fmlookup (m_versions m) k = Some w" "v_TableID w = u"
      using wf unfolding manager_wf_def by blast
    then show ?thesis using lookup fresh by auto
  qed
  have active: "case m_active m' of None \<Rightarrow> m_activeID m' = ''''
      | Some a \<Rightarrow> m_activeID m' = a \<and> a \<in> fmdom' (m_versions m')"
    using c wf by (auto simp: manager_wf_def split: option.splits)
  have order: "distinct (m_order m')" "set (m_order m') = fmdom' (m_versions m')"
    using c wf fresh by (auto simp: manager_wf_def fmdom'_None)
  show ?thesis
    using order each last active fresh lookup by (simp add: manager_wf_def)
qed

lemma Create_evolves: "manager_wf m \<Longrightarrow> Create reg t m = (res, m') \<Longrightarrow> evolves (m_versions m) (m_versions m')"
proof (cases res)
  case (Inl e)
  assume "manager_wf m" "Create reg t m = (res, m')"
  with Inl show ?thesis by (simp add: Create_Inl_iff)
next
  case (Inr v)
  assume "manager_wf m" "Create reg t m = (res, m')"
  with Inr have "fmlookup (m_versions m) (v_ID v) = None"
    "m_versions m' = fmupd (v_ID v) v (m_versions m)"
    using Create_wf by (auto simp: Create_Inr_iff)
  then show ?thesis by (auto simp: evolves_def intro: edge_refl)
qed

text \<open>
  A published version becomes the active one, and what it displaces, if it was published, is
  superseded.
\<close>

definition published_record :: "Manager \<Rightarrow> Version \<Rightarrow> Version" where
  "published_record m v = v\<lparr>v_State := VersionPublished, v_PublishedAt := m_now m 0\<rparr>"

definition after_publish :: "string \<Rightarrow> Version \<Rightarrow> Manager \<Rightarrow> (string, Version) fmap" where
  "after_publish vid v m =
     (let vs = fmupd vid (published_record m v) (m_versions m) in
      case m_active m of
        None \<Rightarrow> vs
      | Some a \<Rightarrow> if a = vid then vs else try_transition a VersionSuperseded vs)"

lemma Publish_wf_eq:
  assumes wf: "manager_wf m" and v: "fmlookup (m_versions m) vid = Some v" and d: "v_State v = VersionDraft"
  shows "Publish vid m =
     (Inr (published_record m v),
      m\<lparr>m_versions := after_publish vid v m, m_active := Some vid, m_activeID := vid,
        m_now := \<lambda>n. m_now m (Suc n)\<rparr>,
      hook_calls (m_hook m)
        ((case m_active m of Some a \<Rightarrow> if a = vid then [] else [a] | None \<Rightarrow> []) @ [vid]))"
proof (cases "m_active m")
  case None
  then show ?thesis
    using v d by (simp add: Publish_def Transition_def CanTransition_edges tick_def Let_def
        after_publish_def published_record_def)
next
  case (Some a)
  with wf obtain w where w: "fmlookup (m_versions m) a = Some w" "v_ID w = a" "a \<noteq> ''''"
    using manager_wfD by (fastforce simp: manager_wf_def fmdom'_iff)
  have "v_ID v = vid" using manager_wfD(2) [OF wf v] .
  with Some v d w show ?thesis
    by (auto simp: Publish_def Transition_def CanTransition_edges tick_def Let_def
        after_publish_def published_record_def)
qed

lemma Publish_cases:
  assumes "manager_wf m"
  obtains (missing) "fmlookup (m_versions m) vid = None" "Publish vid m = (Inl (VersionNotFound vid), m, [])"
  | (refused) v where "fmlookup (m_versions m) vid = Some v" "v_State v \<noteq> VersionDraft"
      "Publish vid m = (Inl (InvalidTransition (v_State v) VersionPublished), m, [])"
  | (published) v where "fmlookup (m_versions m) vid = Some v" "v_State v = VersionDraft"
proof (cases "fmlookup (m_versions m) vid")
  case None
  then show ?thesis using missing by (simp add: Publish_def)
next
  case (Some v)
  show ?thesis
  proof (cases "v_State v = VersionDraft")
    case True
    with Some show ?thesis using published by blast
  next
    case False
    with Some show ?thesis using refused by (simp add: Publish_def Transition_def CanTransition_edges)
  qed
qed

lemma restates_after_publish:
  assumes "fmlookup (m_versions m) vid = Some v" "v_State v = VersionDraft"
  shows "restates (m_versions m) (after_publish vid v m)"
proof -
  have "restates (m_versions m) (fmupd vid (published_record m v) (m_versions m))"
    using assms by (intro restates_fmupd)
      (auto simp: same_record_def published_record_def CanTransition_edges intro: edge_star_one)
  then show ?thesis
    unfolding after_publish_def Let_def
    by (auto split: option.splits intro: restates_trans restates_try_transition)
qed

lemma Publish_wf [wf_pres]:
  assumes "manager_wf m" and "Publish vid m = (res, m', calls)"
  shows "manager_wf m'"
  using assms(1)
proof (cases rule: Publish_cases [where vid = vid])
  case (published v)
  have "vid \<in> fmdom' (after_publish vid v m)"
    using published restates_after_publish [OF published] by (auto simp: restates_def fmdom'_iff)
  then have "manager_wf (m\<lparr>m_versions := after_publish vid v m, m_active := Some vid,
      m_activeID := vid, m_now := \<lambda>n. m_now m (Suc n)\<rparr>)"
    using assms(1) restates_after_publish [OF published] by (intro manager_wf_restates)
  then show ?thesis using assms published by (simp add: Publish_wf_eq)
qed (use assms in auto)

lemma Publish_evolves:
  assumes "manager_wf m" and "Publish vid m = (res, m', calls)"
  shows "evolves (m_versions m) (m_versions m')"
  using assms(1)
proof (cases rule: Publish_cases [where vid = vid])
  case (published v)
  then show ?thesis
    using assms restates_after_publish [OF published] by (auto simp: Publish_wf_eq restates_def)
qed (use assms in auto)

text \<open>
  The records after a rollback: the target is rolled back, its parent published if it was a
  draft; a superseded parent stays superseded, because the machine has no edge back.
\<close>

definition after_rollback :: "string \<Rightarrow> string \<Rightarrow> Manager \<Rightarrow> (string, Version) fmap" where
  "after_rollback vid p m =
     try_transition p VersionPublished (try_transition vid VersionRolledBack (m_versions m))"

lemma Rollback_wf_eq:
  assumes wf: "manager_wf m"
    and t: "fmlookup (m_versions m) vid = Some t"
      "v_State t = VersionPublished \<or> v_State t = VersionSuperseded"
    and p: "fmlookup (m_versions m) (v_ParentID t) = Some p" "v_State p \<noteq> VersionRolledBack"
  shows "Rollback vid m =
     (Inr (if v_State p = VersionDraft then p\<lparr>v_State := VersionPublished\<rparr> else p),
      m\<lparr>m_versions := after_rollback vid (v_ParentID t) m, m_active := Some (v_ParentID t),
        m_activeID := v_ParentID t\<rparr>,
      hook_calls (m_hook m) [vid, v_ParentID t])"
proof -
  have neq: "v_ParentID t \<noteq> vid" using parent_neq [OF wf t(1) p(1)] .
  have "v_ID p = v_ParentID t" using manager_wfD(2) [OF wf p(1)] .
  with neq t p show ?thesis
    by (auto simp: Rollback_def after_rollback_def Let_def try_transition_lookup CanTransition_edges)
qed

lemma Rollback_cases:
  obtains (missing) "fmlookup (m_versions m) vid = None" "Rollback vid m = (Inl (VersionNotFound vid), m, [])"
  | (state) t where "fmlookup (m_versions m) vid = Some t"
      "v_State t \<noteq> VersionPublished" "v_State t \<noteq> VersionSuperseded"
      "Rollback vid m = (Inl (CannotRollBack vid (v_State t)), m, [])"
  | (no_target) t where "fmlookup (m_versions m) vid = Some t"
      "v_State t = VersionPublished \<or> v_State t = VersionSuperseded"
      "\<forall>p. fmlookup (m_versions m) (v_ParentID t) = Some p \<longrightarrow> v_State p = VersionRolledBack"
      "Rollback vid m = (Inl (NoRollbackTarget vid), m, [])"
  | (rolled) t p where "fmlookup (m_versions m) vid = Some t"
      "v_State t = VersionPublished \<or> v_State t = VersionSuperseded"
      "fmlookup (m_versions m) (v_ParentID t) = Some p" "v_State p \<noteq> VersionRolledBack"
proof (cases "fmlookup (m_versions m) vid")
  case None
  then show ?thesis using missing by (simp add: Rollback_def)
next
  case (Some t)
  note t = this
  show ?thesis
  proof (cases "v_State t = VersionPublished \<or> v_State t = VersionSuperseded")
    case False
    with t show ?thesis using state by (simp add: Rollback_def)
  next
    case True
    show ?thesis
    proof (cases "\<forall>p. fmlookup (m_versions m) (v_ParentID t) = Some p \<longrightarrow> v_State p = VersionRolledBack")
      case no: True
      with t True have "Rollback vid m = (Inl (NoRollbackTarget vid), m, [])"
        by (auto simp: Rollback_def split: option.splits)
      with t True no show ?thesis using no_target by blast
    next
      case False
      with t True show ?thesis using rolled by blast
    qed
  qed
qed

lemma restates_after_rollback: "restates (m_versions m) (after_rollback vid p m)"
  unfolding after_rollback_def by (meson restates_trans restates_try_transition)

lemma Rollback_wf [wf_pres]:
  assumes "manager_wf m" and "Rollback vid m = (res, m', calls)"
  shows "manager_wf m'"
proof (cases rule: Rollback_cases [where m = m and vid = vid])
  case (rolled t p)
  have "v_ParentID t \<in> fmdom' (after_rollback vid (v_ParentID t) m)"
    using rolled(3) restates_after_rollback [of m vid "v_ParentID t"]
    by (auto simp: restates_def fmdom'_iff)
  then have "manager_wf (m\<lparr>m_versions := after_rollback vid (v_ParentID t) m,
      m_active := Some (v_ParentID t), m_activeID := v_ParentID t, m_now := m_now m\<rparr>)"
    using assms(1) restates_after_rollback by (intro manager_wf_restates)
  then show ?thesis using assms Rollback_wf_eq [OF assms(1) rolled] by simp
qed (use assms in auto)

lemma Rollback_evolves:
  assumes "manager_wf m" and "Rollback vid m = (res, m', calls)"
  shows "evolves (m_versions m) (m_versions m')"
proof (cases rule: Rollback_cases [where m = m and vid = vid])
  case (rolled t p)
  then show ?thesis
    using assms Rollback_wf_eq [OF assms(1) rolled] restates_after_rollback
    by (auto simp: restates_def)
qed (use assms in auto)

section \<open>Runs of the manager\<close>

text \<open>
  \<open>manager_step b\<close>: one successful call. Rollbacks are part of it when \<open>b\<close> is true; the runs
  without them are the ones on which the active pointer is always the published version.
\<close>

inductive manager_step :: "Registry \<Rightarrow> bool \<Rightarrow> Manager \<Rightarrow> Manager \<Rightarrow> bool" for reg b where
  step_create: "Create reg t m = (Inr v, m') \<Longrightarrow> manager_step reg b m m'"
| step_publish: "Publish vid m = (Inr v, m', calls) \<Longrightarrow> manager_step reg b m m'"
| step_rollback: "b \<Longrightarrow> Rollback vid m = (Inr v, m', calls) \<Longrightarrow> manager_step reg b m m'"

inductive manager_run :: "Registry \<Rightarrow> bool \<Rightarrow> Manager \<Rightarrow> Manager \<Rightarrow> bool" for reg b where
  run_refl: "manager_run reg b m m"
| run_step: "manager_run reg b m m' \<Longrightarrow> manager_step reg b m' m'' \<Longrightarrow> manager_run reg b m m''"

inductive_cases manager_stepE: "manager_step reg b m m'"

lemma manager_step_wf: "manager_step reg b m m' \<Longrightarrow> manager_wf m \<Longrightarrow> manager_wf m'"
  by (erule manager_stepE) (blast dest: Create_wf Publish_wf Rollback_wf)+

lemma manager_step_evolves:
  "manager_step reg b m m' \<Longrightarrow> manager_wf m \<Longrightarrow> evolves (m_versions m) (m_versions m')"
  by (erule manager_stepE) (blast dest: Create_evolves Publish_evolves Rollback_evolves)+

lemma manager_run_wf_evolves:
  "manager_run reg b m m' \<Longrightarrow> manager_wf m \<Longrightarrow> manager_wf m' \<and> evolves (m_versions m) (m_versions m')"
  by (induction rule: manager_run.induct)
    (auto dest: manager_step_wf manager_step_evolves intro: evolves_trans)

text \<open>Without rollbacks there is at most one published version, and it is the active one.\<close>

definition single_published :: "Manager \<Rightarrow> bool" where
  "single_published m \<longleftrightarrow>
     (\<forall>k v. fmlookup (m_versions m) k = Some v \<and> v_State v = VersionPublished \<longrightarrow>
        m_active m = Some k) \<and>
     (\<forall>a. m_active m = Some a \<longrightarrow>
        (\<exists>v. fmlookup (m_versions m) a = Some v \<and> v_State v = VersionPublished))"

lemma single_publishedI:
  assumes "\<And>k v. fmlookup (m_versions m) k = Some v \<Longrightarrow> v_State v = VersionPublished \<Longrightarrow>
      m_active m = Some k"
    and "\<And>a. m_active m = Some a \<Longrightarrow>
      \<exists>v. fmlookup (m_versions m) a = Some v \<and> v_State v = VersionPublished"
  shows "single_published m"
  using assms unfolding single_published_def by blast

lemma single_publishedD:
  assumes "single_published m"
  shows "fmlookup (m_versions m) k = Some v \<Longrightarrow> v_State v = VersionPublished \<Longrightarrow> m_active m = Some k"
    and "m_active m = Some a \<Longrightarrow>
      \<exists>v. fmlookup (m_versions m) a = Some v \<and> v_State v = VersionPublished"
  using assms unfolding single_published_def by blast+

lemma single_published_New: "single_published (NewManager now)"
  by (simp add: single_published_def NewManager_def)

lemma single_published_Create:
  assumes "manager_wf m" "single_published m" "Create reg t m = (Inr v, m')"
  shows "single_published m'"
proof -
  have fresh: "fmlookup (m_versions m) (v_ID v) = None" using assms Create_wf by blast
  have v: "v_State v = VersionDraft" "m_active m' = m_active m"
    and lookup: "\<And>k. fmlookup (m_versions m') k =
      (if k = v_ID v then Some v else fmlookup (m_versions m) k)"
    using assms(3) by (auto simp: Create_Inr_iff)
  show ?thesis
  proof (rule single_publishedI)
    fix k w
    assume "fmlookup (m_versions m') k = Some w" "v_State w = VersionPublished"
    then have "fmlookup (m_versions m) k = Some w" using lookup v by (auto split: if_splits)
    then show "m_active m' = Some k"
      using \<open>v_State w = VersionPublished\<close> v single_publishedD(1) [OF assms(2)] by simp
  next
    fix a
    assume "m_active m' = Some a"
    then obtain w where "fmlookup (m_versions m) a = Some w" "v_State w = VersionPublished"
      using v single_publishedD(2) [OF assms(2)] by auto
    then show "\<exists>w. fmlookup (m_versions m') a = Some w \<and> v_State w = VersionPublished"
      using lookup fresh by auto
  qed
qed

lemma after_publish_lookup:
  assumes "fmlookup (m_versions m) vid = Some v"
  shows "fmlookup (after_publish vid v m) k =
     (if k = vid then Some (published_record m v)
      else if m_active m = Some k then
        map_option (\<lambda>w. if CanTransition (v_State w) VersionSuperseded
                        then w\<lparr>v_State := VersionSuperseded\<rparr> else w) (fmlookup (m_versions m) k)
      else fmlookup (m_versions m) k)"
  using assms by (auto simp: after_publish_def Let_def try_transition_lookup split: option.splits)

lemma single_published_Publish:
  assumes "manager_wf m" "single_published m" "Publish vid m = (res, m', calls)"
  shows "single_published m'"
  using assms(1)
proof (cases rule: Publish_cases [where vid = vid])
  case (published v)
  then have m': "m_versions m' = after_publish vid v m" "m_active m' = Some vid"
    using assms by (auto simp: Publish_wf_eq)
  show ?thesis
  proof (rule single_publishedI)
    fix k w
    assume w: "fmlookup (m_versions m') k = Some w" "v_State w = VersionPublished"
    have "k = vid"
    proof (rule ccontr)
      assume "k \<noteq> vid"
      show False
      proof (cases "m_active m = Some k")
        case True
        then obtain u where "fmlookup (m_versions m) k = Some u" "v_State u = VersionPublished"
          using single_publishedD(2) [OF assms(2)] by blast
        then have "w = u\<lparr>v_State := VersionSuperseded\<rparr>"
          using w(1) m'(1) published(1) \<open>k \<noteq> vid\<close> True
          by (simp add: after_publish_lookup CanTransition_edges)
        with w(2) show False by simp
      next
        case False
        then have "fmlookup (m_versions m) k = Some w"
          using w(1) m'(1) published(1) \<open>k \<noteq> vid\<close> by (simp add: after_publish_lookup)
        with w(2) False show False using single_publishedD(1) [OF assms(2)] by blast
      qed
    qed
    with m' show "m_active m' = Some k" by simp
  next
    fix a
    assume "m_active m' = Some a"
    with m' show "\<exists>w. fmlookup (m_versions m') a = Some w \<and> v_State w = VersionPublished"
      by (simp add: after_publish_lookup [OF published(1)] published_record_def)
  qed
qed (use assms in auto)

lemma manager_run_single_published:
  "manager_run reg False m m' \<Longrightarrow> manager_wf m \<Longrightarrow> single_published m \<Longrightarrow>
     manager_wf m' \<and> single_published m'"
proof (induction rule: manager_run.induct)
  case (run_refl m)
  then show ?case by simp
next
  case (run_step m m' m'')
  then have "manager_wf m'" "single_published m'" by auto
  with run_step.hyps(2) show ?case
    by (auto elim!: manager_stepE dest: Create_wf Publish_wf
        intro: single_published_Create single_published_Publish)
qed

lemma ResolveActive_single:
  "single_published m \<Longrightarrow> ResolveActive m = Option.bind (m_active m) (fmlookup (m_versions m))"
proof (cases "m_active m")
  case None
  then show ?thesis by (simp add: ResolveActive_def active_record_def)
next
  case (Some a)
  assume "single_published m"
  with Some obtain v where "fmlookup (m_versions m) a = Some v" "v_State v = VersionPublished"
    using single_publishedD(2) by blast
  with Some show ?thesis by (simp add: ResolveActive_def active_record_def IsActive_def)
qed

section \<open>What a rollback leaves behind\<close>

lemma Rollback_Inr_obtains:
  assumes wf: "manager_wf m" and r: "Rollback vid m = (Inr q, m', calls)"
  obtains t p where "fmlookup (m_versions m) vid = Some t"
    "v_State t = VersionPublished \<or> v_State t = VersionSuperseded"
    "fmlookup (m_versions m) (v_ParentID t) = Some p" "v_State p \<noteq> VersionRolledBack"
    "q = (if v_State p = VersionDraft then p\<lparr>v_State := VersionPublished\<rparr> else p)"
    "m_versions m' = after_rollback vid (v_ParentID t) m"
    "m_active m' = Some (v_ParentID t)" "v_ParentID t \<noteq> vid"
    "calls = hook_calls (m_hook m) [vid, v_ParentID t]"
proof (cases rule: Rollback_cases [where m = m and vid = vid])
  case (rolled t p)
  have "v_ParentID t \<noteq> vid" using parent_neq [OF wf rolled(1,3)] .
  moreover have "Inr q = (Inr (if v_State p = VersionDraft then p\<lparr>v_State := VersionPublished\<rparr> else p) ::
      VersionError + Version)"
    "m' = m\<lparr>m_versions := after_rollback vid (v_ParentID t) m, m_active := Some (v_ParentID t),
        m_activeID := v_ParentID t\<rparr>"
    "calls = hook_calls (m_hook m) [vid, v_ParentID t]"
    using r unfolding Rollback_wf_eq [OF wf rolled] by simp_all
  ultimately show ?thesis by (intro that [OF rolled]) simp_all
qed (use r in auto)

lemma Rollback_active:
  assumes wf: "manager_wf m" and r: "Rollback vid m = (Inr q, m', calls)"
  shows "active_record m' = Some q"
proof -
  from wf r obtain t p where *: "fmlookup (m_versions m) vid = Some t"
    "fmlookup (m_versions m) (v_ParentID t) = Some p"
    "q = (if v_State p = VersionDraft then p\<lparr>v_State := VersionPublished\<rparr> else p)"
    "m_versions m' = after_rollback vid (v_ParentID t) m"
    "m_active m' = Some (v_ParentID t)" "v_ParentID t \<noteq> vid"
    by (rule Rollback_Inr_obtains)
  then show ?thesis
    by (auto simp: active_record_def after_rollback_def try_transition_lookup CanTransition_edges)
qed

section \<open>Switch events, proved\<close>

definition switch_cands :: "time \<Rightarrow> time \<Rightarrow> Manager \<Rightarrow> Version list" where
  "switch_cands since until m =
     filter (switch_candidate since until)
       (map (\<lambda>k. the (fmlookup (m_versions m) k)) (sorted_keys (m_versions m)))"

lemma SwitchEvents_split:
  "SwitchEvents since until m =
     sort_key (\<lambda>e. (ev_At e, ev_VersionID e))
       (map (\<lambda>v. \<lparr>ev_VersionID = v_ID v, ev_At = v_PublishedAt v\<rparr>) (switch_cands since until m))
     @ [\<lparr>ev_VersionID = '''', ev_At = until\<rparr>]"
  unfolding SwitchEvents_def switch_cands_def
  by (rule sort_key_snoc_max) (auto simp: switch_candidate_def)

lemma set_switch_cands:
  "set (switch_cands since until m) =
     {v. switch_candidate since until v \<and> (\<exists>k. fmlookup (m_versions m) k = Some v)}"
proof -
  have "(\<exists>k \<in> fmdom' (m_versions m). v = the (fmlookup (m_versions m) k)) \<longleftrightarrow>
      (\<exists>k. fmlookup (m_versions m) k = Some v)" for v
    by (metis fmdom'_iff option.sel)
  then show ?thesis by (auto simp: switch_cands_def image_iff)
qed

lemma SwitchEvents_nonempty [simp]: "SwitchEvents since until m \<noteq> []"
  by (simp add: SwitchEvents_split)

lemma last_SwitchEvents: "last (SwitchEvents since until m) = \<lparr>ev_VersionID = '''', ev_At = until\<rparr>"
  by (simp add: SwitchEvents_split)

lemma butlast_SwitchEvents_range:
  "e \<in> set (butlast (SwitchEvents since until m)) \<Longrightarrow> since \<le> ev_At e \<and> ev_At e < until"
  by (auto simp: SwitchEvents_split set_switch_cands switch_candidate_def)

lemma sorted_SwitchEvents: "sorted (map ev_At (SwitchEvents since until m))"
proof -
  let ?k = "\<lambda>e. (ev_At e, ev_VersionID e)"
  have "sorted (map ?k (SwitchEvents since until m))"
    by (simp add: SwitchEvents_def)
  then show ?thesis
    unfolding sorted_map by (rule sorted_wrt_mono_rel [rotated]) auto
qed

lemma set_SwitchEvents:
  "e \<in> set (SwitchEvents since until m) \<longleftrightarrow>
     e = \<lparr>ev_VersionID = '''', ev_At = until\<rparr> \<or>
     (\<exists>k v. fmlookup (m_versions m) k = Some v \<and> switch_candidate since until v \<and>
        e = \<lparr>ev_VersionID = v_ID v, ev_At = v_PublishedAt v\<rparr>)"
  by (auto simp: SwitchEvents_split set_switch_cands)

section \<open>The cache hook\<close>

text \<open>
  What the manager asks of the hook: \<open>InvalidateVersion\<close> drops the reads cached under that
  version and adds none, \<open>InvalidateAll\<close> drops every read. \<open>run_calls\<close> makes the calls of a
  transition in order.
\<close>

fun run_call :: "(string \<Rightarrow> 's \<Rightarrow> 's) \<Rightarrow> ('s \<Rightarrow> 's) \<Rightarrow> HookCall \<Rightarrow> 's \<Rightarrow> 's" where
  "run_call inv_version inv_all (CallInvalidateVersion v) s = inv_version v s"
| "run_call inv_version inv_all CallInvalidateAll s = inv_all s"

fun run_calls :: "(string \<Rightarrow> 's \<Rightarrow> 's) \<Rightarrow> ('s \<Rightarrow> 's) \<Rightarrow> HookCall list \<Rightarrow> 's \<Rightarrow> 's" where
  "run_calls inv_version inv_all [] s = s"
| "run_calls inv_version inv_all (c # cs) s =
     run_calls inv_version inv_all cs (run_call inv_version inv_all c s)"

locale cache_hook =
  fixes ok :: "'s \<Rightarrow> bool"
    and inv_version :: "string \<Rightarrow> 's \<Rightarrow> 's"
    and inv_all :: "'s \<Rightarrow> 's"
    and cached :: "'s \<Rightarrow> EntityKey \<Rightarrow> string \<Rightarrow> bool"
  assumes ok_inv_version: "ok s \<Longrightarrow> ok (inv_version v s)"
    and ok_inv_all: "ok s \<Longrightarrow> ok (inv_all s)"
    and inv_version_mono: "cached (inv_version v s) k w \<Longrightarrow> cached s k w"
    and inv_version_drops: "ok s \<Longrightarrow> \<not> cached (inv_version v s) k v"
    and inv_all_drops: "\<not> cached (inv_all s) k w"
begin

abbreviation calls :: "HookCall list \<Rightarrow> 's \<Rightarrow> 's" where
  "calls \<equiv> run_calls inv_version inv_all"

lemma run_call_ok: "ok s \<Longrightarrow> ok (run_call inv_version inv_all c s)"
  by (cases c) (simp_all add: ok_inv_version ok_inv_all)

lemma run_calls_ok: "ok s \<Longrightarrow> ok (calls cs s)"
  by (induction cs arbitrary: s) (simp_all add: run_call_ok)

lemma run_calls_mono: "cached (calls cs s) k w \<Longrightarrow> cached s k w"
proof (induction cs arbitrary: s)
  case Nil
  then show ?case by simp
next
  case (Cons c cs)
  then have "cached (run_call inv_version inv_all c s) k w" by simp
  then show ?case by (cases c) (auto dest: inv_version_mono simp: inv_all_drops)
qed

text \<open>After a transition nothing is cached under the versions it names, ...\<close>

lemma run_calls_drops:
  "CallInvalidateVersion v \<in> set cs \<Longrightarrow> ok s \<Longrightarrow> \<not> cached (calls cs s) k v"
proof (induction cs arbitrary: s)
  case (Cons c cs)
  then show ?case
    using inv_version_drops [OF Cons.prems(2)] run_call_ok [OF Cons.prems(2)]
    by (auto dest: run_calls_mono)
qed simp

text \<open>... and with a hook that can drop everything, nothing is cached at all.\<close>

lemma run_calls_flush: "CallInvalidateAll \<in> set cs \<Longrightarrow> \<not> cached (calls cs s) k w"
proof (induction cs arbitrary: s)
  case (Cons c cs)
  then show ?case by (auto dest: run_calls_mono simp: inv_all_drops)
qed simp

end


section \<open>Properties\<close>

text \<open>A manager to evaluate on: two versions of one table, the first published.\<close>

definition demo_created :: Manager where
  "demo_created =
     snd (Create seeded ''user_profile''
       (snd (Create seeded ''user_profile''
         (SetCacheHook \<lparr>hook_has_InvalidateAll = True\<rparr> (NewManager (\<lambda>n. 100 + int n))))))"

definition demo_published :: Manager where
  "demo_published = fst (snd (Publish ''user_profile-v1'' demo_created))"

definition demo_switched :: Manager where
  "demo_switched = fst (snd (Publish ''user_profile-v2'' demo_published))"

lemma itoa_1_2: "itoa (Suc 0) = ''1''" "itoa 2 = ''2''" "itoa (Suc (Suc 0)) = ''2''"
  by (simp_all add: itoa.simps digit_char_def char_of_def bit_0)

lemmas demo_simps = Create_def Get_seeded tick_def version_id_def itoa_1_2 Let_def NewManager_def
  SetCacheHook_def Publish_def Transition_def CanTransition_edges try_transition_def hook_calls_def
  map_size_fmupd

lemma demo_created_eq:
  "fmlookup (m_versions demo_created) k =
     (if k = ''user_profile-v2'' then
        Some \<lparr>v_ID = k, v_TableID = ''user_profile'', v_State = VersionDraft,
              v_ParentID = ''user_profile-v1'', v_Fields = Table_FieldNames UserProfileTable,
              v_CreatedAt = 101, v_PublishedAt = 0\<rparr>
      else if k = ''user_profile-v1'' then
        Some \<lparr>v_ID = k, v_TableID = ''user_profile'', v_State = VersionDraft,
              v_ParentID = '''', v_Fields = Table_FieldNames UserProfileTable,
              v_CreatedAt = 100, v_PublishedAt = 0\<rparr>
      else None)"
  "m_active demo_created = None"
  "m_now demo_created = (\<lambda>n. 102 + int n)"
  "m_hook demo_created = Some \<lparr>hook_has_InvalidateAll = True\<rparr>"
  by (simp_all add: demo_created_def demo_simps fun_eq_iff)

lemma demo_published_eq:
  "fmlookup (m_versions demo_published) k =
     (if k = ''user_profile-v1'' then
        Some \<lparr>v_ID = k, v_TableID = ''user_profile'', v_State = VersionPublished,
              v_ParentID = '''', v_Fields = Table_FieldNames UserProfileTable,
              v_CreatedAt = 100, v_PublishedAt = 102\<rparr>
      else fmlookup (m_versions demo_created) k)"
  "m_active demo_published = Some ''user_profile-v1''"
  "m_now demo_published = (\<lambda>n. 103 + int n)"
  "m_hook demo_published = Some \<lparr>hook_has_InvalidateAll = True\<rparr>"
  by (simp_all add: demo_published_def demo_created_eq demo_simps fun_eq_iff)

lemma demo_switched_eq:
  "fmlookup (m_versions demo_switched) k =
     (if k = ''user_profile-v2'' then
        Some \<lparr>v_ID = k, v_TableID = ''user_profile'', v_State = VersionPublished,
              v_ParentID = ''user_profile-v1'', v_Fields = Table_FieldNames UserProfileTable,
              v_CreatedAt = 101, v_PublishedAt = 103\<rparr>
      else if k = ''user_profile-v1'' then
        Some \<lparr>v_ID = k, v_TableID = ''user_profile'', v_State = VersionSuperseded,
              v_ParentID = '''', v_Fields = Table_FieldNames UserProfileTable,
              v_CreatedAt = 100, v_PublishedAt = 102\<rparr>
      else None)"
  "m_active demo_switched = Some ''user_profile-v2''"
  "m_hook demo_switched = Some \<lparr>hook_has_InvalidateAll = True\<rparr>"
  by (simp_all add: demo_switched_def demo_published_eq demo_created_eq demo_simps fun_eq_iff)

lemma Create_ok: "Registry_Get reg t \<noteq> None \<Longrightarrow> \<exists>v. Create reg t m = (Inr v, snd (Create reg t m))"
  by (auto simp: Create_def Let_def tick_def split: option.splits)

lemma wf_demo_created: "manager_wf demo_created"
proof -
  let ?m0 = "SetCacheHook \<lparr>hook_has_InvalidateAll = True\<rparr> (NewManager (\<lambda>n. 100 + int n))"
  have ok: "\<exists>v. Create seeded ''user_profile'' m = (Inr v, snd (Create seeded ''user_profile'' m))" for m
    by (rule Create_ok) (simp add: Get_seeded)
  have "manager_wf ?m0" by (intro manager_wf_SetCacheHook manager_wf_New)
  then have "manager_wf (snd (Create seeded ''user_profile'' ?m0))" using ok Create_wf by blast
  then show ?thesis unfolding demo_created_def using ok Create_wf by blast
qed

lemma wf_demo_published: "manager_wf demo_published"
  unfolding demo_published_def using wf_demo_created Publish_wf by (metis prod.collapse)

lemma wf_demo_switched: "manager_wf demo_switched"
  unfolding demo_switched_def using wf_demo_published Publish_wf by (metis prod.collapse)


text \<open>C7: In every run of creations, publications and rollbacks from a new manager, a version record
  keeps its identifier, table, parent, field layout and creation time, and its state only moves
  along the edges of the state machine, hence never back.\<close>

theorem versions_follow_lifecycle:
  assumes "manager_run reg b (NewManager clk) m" and "manager_run reg b m m'"
    and "fmlookup (m_versions m) k = Some v"
  shows "\<exists>v'. fmlookup (m_versions m') k = Some v' \<and> same_record v v' \<and>
           edge_star (v_State v) (v_State v') \<and>
           lifecycle_rank (v_State v) \<le> lifecycle_rank (v_State v')"
proof -
  have "manager_wf m" using manager_run_wf_evolves [OF assms(1) manager_wf_New] by blast
  then have "evolves (m_versions m) (m_versions m')" using manager_run_wf_evolves [OF assms(2)] by blast
  with assms(3) show ?thesis unfolding evolves_def using edge_star_rank by blast
qed

lemma run_one: "manager_step reg b m m' \<Longrightarrow> manager_run reg b m m'"
  by (blast intro: manager_run.intros)

lemma versions_follow_lifecycle_witness:
  "\<exists>m1 m2 k v v'. manager_run seeded True (NewManager int) m1 \<and> manager_run seeded True m1 m2 \<and>
     fmlookup (m_versions m1) k = Some v \<and> v_State v = VersionDraft \<and>
     fmlookup (m_versions m2) k = Some v' \<and> v_State v' = VersionPublished \<and>
     same_record v v' \<and> edge_star (v_State v) (v_State v')"
proof -
  let ?m0 = "NewManager int"
  let ?m1 = "snd (Create seeded ''user_profile'' ?m0)"
  obtain v where v: "Create seeded ''user_profile'' ?m0 = (Inr v, ?m1)"
    using Create_ok [of seeded "''user_profile''" ?m0] by (auto simp: Get_seeded)
  then have one: "fmlookup (m_versions ?m1) (v_ID v) = Some v" "v_State v = VersionDraft"
    using Create_wf [OF manager_wf_New v] by (auto simp: Create_Inr_iff)
  have step: "manager_run seeded True ?m0 ?m1" using v by (blast intro: run_one step_create)
  have "manager_wf ?m1" using Create_wf [OF manager_wf_New v] by blast
  from Publish_wf_eq [OF this one]
  obtain m2 calls where p: "Publish (v_ID v) ?m1 = (Inr (published_record ?m1 v), m2, calls)"
    and m2: "m_versions m2 = after_publish (v_ID v) v ?m1" by auto
  then have run: "manager_run seeded True ?m1 m2" by (blast intro: run_one step_publish)
  have look: "fmlookup (m_versions m2) (v_ID v) = Some (published_record ?m1 v)"
    using m2 one(1) by (simp add: after_publish_lookup)
  have "v_State (published_record ?m1 v) = VersionPublished" by (simp add: published_record_def)
  moreover have "same_record v (published_record ?m1 v) \<and> edge_star (v_State v) (v_State (published_record ?m1 v))"
    using versions_follow_lifecycle [OF step run one(1)] look by simp
  ultimately show ?thesis using step run one look by blast
qed

text \<open>C8: As long as no rollback is made, at most one version is published at any time, it is the
  one the active pointer names, and \<open>ResolveActive\<close> returns exactly the active record whenever a
  version was ever published.\<close>

theorem single_published_version:
  assumes "manager_run reg False (NewManager clk) m"
  shows "(\<forall>k v. fmlookup (m_versions m) k = Some v \<longrightarrow>
            (v_State v = VersionPublished \<longleftrightarrow> m_active m = Some k)) \<and>
         (\<forall>a. m_active m = Some a \<longrightarrow>
            (\<exists>v. ResolveActive m = Some v \<and> v_ID v = a \<and> v_State v = VersionPublished)) \<and>
         (ResolveActive m = None \<longleftrightarrow> m_active m = None)"
proof -
  have wf: "manager_wf m" and one: "single_published m"
    using manager_run_single_published [OF assms manager_wf_New single_published_New] by auto
  have active: "\<exists>v. fmlookup (m_versions m) a = Some v \<and> v_ID v = a \<and> v_State v = VersionPublished"
    if "m_active m = Some a" for a
    using single_publishedD(2) [OF one that] manager_wfD(2) [OF wf] by blast
  note resolve = ResolveActive_single [OF one]
  have "v_State v = VersionPublished \<longleftrightarrow> m_active m = Some k" if "fmlookup (m_versions m) k = Some v" for k v
    using that active [of k] single_publishedD(1) [OF one that] by auto
  moreover have "\<exists>v. ResolveActive m = Some v \<and> v_ID v = a \<and> v_State v = VersionPublished"
    if "m_active m = Some a" for a
    using active [OF that] that by (simp add: resolve)
  moreover have "ResolveActive m = None \<longleftrightarrow> m_active m = None"
    using active by (cases "m_active m") (auto simp: resolve)
  ultimately show ?thesis by blast
qed

lemma single_published_version_witness:
  "\<exists>m v. manager_run seeded False (NewManager (\<lambda>n. int n)) m \<and> ResolveActive m = Some v \<and>
     v_State v = VersionPublished"
proof -
  let ?m0 = "NewManager (\<lambda>n. int n)"
  let ?m1 = "snd (Create seeded ''user_profile'' ?m0)"
  obtain v where v: "Create seeded ''user_profile'' ?m0 = (Inr v, ?m1)"
    using Create_ok [of seeded "''user_profile''" ?m0] by (auto simp: Get_seeded)
  then have one: "fmlookup (m_versions ?m1) (v_ID v) = Some v" "v_State v = VersionDraft"
    using Create_wf [OF manager_wf_New v] by (auto simp: Create_Inr_iff)
  have "manager_wf ?m1" using Create_wf [OF manager_wf_New v] by blast
  from Publish_wf_eq [OF this one]
  obtain m2 calls where p: "Publish (v_ID v) ?m1 = (Inr (published_record ?m1 v), m2, calls)"
    "m_active m2 = Some (v_ID v)" by simp
  have "manager_run seeded False ?m0 m2"
    using v p(1) by (blast intro: manager_run.intros step_create step_publish)
  from this single_published_version [OF this] p(2) show ?thesis by blast
qed

text \<open>A successful \<open>Publish\<close> takes a draft, stamps and publishes it, supersedes the version it
  displaces, leaves every other record alone and makes the new version the one \<open>ResolveActive\<close>
  returns; the hook is told to drop both versions and, when it can, everything.\<close>

theorem Publish_effect:
  assumes wf: "manager_wf m" and ok: "Publish vid m = (Inr v', m', calls)"
  shows "(\<exists>v. fmlookup (m_versions m) vid = Some v \<and> v_State v = VersionDraft \<and>
            v' = v\<lparr>v_State := VersionPublished, v_PublishedAt := m_now m 0\<rparr>) \<and>
         ResolveActive m' = Some v' \<and> m_activeID m' = vid \<and>
         (\<forall>k. k \<noteq> vid \<longrightarrow> fmlookup (m_versions m') k =
            (case fmlookup (m_versions m) k of
               None \<Rightarrow> None
             | Some w \<Rightarrow>
                 Some (if m_active m = Some k \<and> v_State w = VersionPublished
                       then w\<lparr>v_State := VersionSuperseded\<rparr> else w))) \<and>
         (m_hook m = Some \<lparr>hook_has_InvalidateAll = True\<rparr> \<longrightarrow>
            CallInvalidateVersion vid \<in> set calls \<and> last calls = CallInvalidateAll \<and>
            (\<forall>a. m_active m = Some a \<longrightarrow> CallInvalidateVersion a \<in> set calls))"
  using wf
proof (cases rule: Publish_cases [where vid = vid])
  case (published v)
  note eq = Publish_wf_eq [OF wf published]
  have m': "v' = published_record m v" "m_versions m' = after_publish vid v m" "m_active m' = Some vid"
    "m_activeID m' = vid"
    "calls = hook_calls (m_hook m)
        ((case m_active m of Some a \<Rightarrow> if a = vid then [] else [a] | None \<Rightarrow> []) @ [vid])"
    using ok unfolding eq by auto
  have "ResolveActive m' = Some v'"
    using m' by (simp add: ResolveActive_def active_record_def after_publish_lookup [OF published(1)]
        IsActive_def published_record_def)
  moreover have "fmlookup (m_versions m') k =
      (case fmlookup (m_versions m) k of None \<Rightarrow> None
       | Some w \<Rightarrow> Some (if m_active m = Some k \<and> v_State w = VersionPublished
                       then w\<lparr>v_State := VersionSuperseded\<rparr> else w))" if "k \<noteq> vid" for k
    using that m'(2)
    by (simp add: after_publish_lookup [OF published(1)] CanTransition_edges split: option.splits)
  ultimately show ?thesis
    using m' published by (auto simp: published_record_def hook_calls_def)
qed (use ok in auto)

lemma Publish_effect_witness:
  "\<exists>m' calls v. Publish ''user_profile-v2'' demo_published = (Inr v, m', calls) \<and>
     ResolveActive m' = Some v \<and>
     map_option v_State (fmlookup (m_versions m') ''user_profile-v1'') = Some VersionSuperseded"
proof -
  have "fmlookup (m_versions demo_published) ''user_profile-v2'' \<noteq> None"
    "v_State (the (fmlookup (m_versions demo_published) ''user_profile-v2'')) = VersionDraft"
    by (simp_all add: demo_published_eq demo_created_eq)
  then obtain v where v: "fmlookup (m_versions demo_published) ''user_profile-v2'' = Some v"
    "v_State v = VersionDraft" by auto
  from Publish_wf_eq [OF wf_demo_published v] obtain m' calls where
    p: "Publish ''user_profile-v2'' demo_published = (Inr (published_record demo_published v), m', calls)"
    by simp
  from Publish_effect [OF wf_demo_published p] have
    "ResolveActive m' = Some (published_record demo_published v)"
    "fmlookup (m_versions m') ''user_profile-v1'' \<noteq> None"
    "v_State (the (fmlookup (m_versions m') ''user_profile-v1'')) = VersionSuperseded"
    by (simp_all add: demo_published_eq)
  with p show ?thesis by auto
qed

text \<open>A call of \<open>Publish\<close> that fails changes nothing and calls no hook; it fails exactly when
  the version is unknown or not a draft, with the error that says so.\<close>

theorem Publish_errors:
  assumes "manager_wf m"
  shows "(\<exists>err. Publish vid m = (Inl err, m, []) \<and>
            (fmlookup (m_versions m) vid = None \<and> err = VersionNotFound vid \<or>
             (\<exists>v. fmlookup (m_versions m) vid = Some v \<and> v_State v \<noteq> VersionDraft \<and>
                err = InvalidTransition (v_State v) VersionPublished))) \<longleftrightarrow>
         (\<forall>v. fmlookup (m_versions m) vid = Some v \<longrightarrow> v_State v \<noteq> VersionDraft)"
  using assms
proof (cases rule: Publish_cases [where vid = vid])
  case (published v)
  then show ?thesis using Publish_wf_eq [OF assms published] by auto
qed auto

lemma Publish_errors_witness:
  "Publish ''user_profile-v1'' demo_published =
     (Inl (InvalidTransition VersionPublished VersionPublished), demo_published, [])"
  using Publish_errors [OF wf_demo_published, of "''user_profile-v1''"]
  by (auto simp: demo_published_eq)


text \<open>C9: A successful \<open>Rollback\<close> takes a published or superseded version to the rolled-back state
  and points the active pointer at its parent, which was not rolled back; a draft parent becomes
  published, every other record keeps its state, and the hook drops both versions.\<close>

theorem Rollback_effect:
  assumes wf: "manager_wf m" and ok: "Rollback vid m = (Inr q, m', calls)"
  shows "\<exists>t p. fmlookup (m_versions m) vid = Some t \<and>
           (v_State t = VersionPublished \<or> v_State t = VersionSuperseded) \<and>
           fmlookup (m_versions m) (v_ParentID t) = Some p \<and> v_State p \<noteq> VersionRolledBack \<and>
           m_activeID m' = v_ParentID t \<and> active_record m' = Some q \<and>
           q = (if v_State p = VersionDraft then p\<lparr>v_State := VersionPublished\<rparr> else p) \<and>
           fmlookup (m_versions m') vid = Some (t\<lparr>v_State := VersionRolledBack\<rparr>) \<and>
           (\<forall>k. k \<noteq> vid \<and> k \<noteq> v_ParentID t \<longrightarrow>
              fmlookup (m_versions m') k = fmlookup (m_versions m) k) \<and>
           calls = hook_calls (m_hook m) [vid, v_ParentID t]"
proof -
  from wf ok obtain t p where t: "fmlookup (m_versions m) vid = Some t"
    "v_State t = VersionPublished \<or> v_State t = VersionSuperseded"
    "fmlookup (m_versions m) (v_ParentID t) = Some p" "v_State p \<noteq> VersionRolledBack"
    "q = (if v_State p = VersionDraft then p\<lparr>v_State := VersionPublished\<rparr> else p)"
    "m_versions m' = after_rollback vid (v_ParentID t) m"
    "m_active m' = Some (v_ParentID t)" "v_ParentID t \<noteq> vid"
    "calls = hook_calls (m_hook m) [vid, v_ParentID t]"
    by (rule Rollback_Inr_obtains)
  have vid': "fmlookup (m_versions m') vid = Some (t\<lparr>v_State := VersionRolledBack\<rparr>)"
    using t by (auto simp: after_rollback_def try_transition_lookup CanTransition_edges)
  have others: "fmlookup (m_versions m') k = fmlookup (m_versions m) k"
    if "k \<noteq> vid" "k \<noteq> v_ParentID t" for k
    using that t(6) by (simp add: after_rollback_def try_transition_lookup)
  have "m_activeID m' = v_ParentID t"
    using Rollback_wf [OF wf ok] t(7) by (simp add: manager_wf_def)
  then show ?thesis
    using t(1,2,3,4,5,9) vid' others Rollback_active [OF wf ok]
    by (intro exI [of _ t] exI [of _ p]) simp
qed

lemma Rollback_demo:
  "Rollback ''user_profile-v2'' demo_switched =
     (Inr (the (fmlookup (m_versions demo_switched) ''user_profile-v1'')),
      demo_switched\<lparr>m_versions := after_rollback ''user_profile-v2'' ''user_profile-v1'' demo_switched,
        m_active := Some ''user_profile-v1'', m_activeID := ''user_profile-v1''\<rparr>,
      [CallInvalidateVersion ''user_profile-v2'', CallInvalidateVersion ''user_profile-v1'',
       CallInvalidateAll])"
proof -
  let ?t = "the (fmlookup (m_versions demo_switched) ''user_profile-v2'')"
  let ?p = "the (fmlookup (m_versions demo_switched) ''user_profile-v1'')"
  have t: "fmlookup (m_versions demo_switched) ''user_profile-v2'' = Some ?t"
    "v_State ?t = VersionPublished \<or> v_State ?t = VersionSuperseded"
    "v_ParentID ?t = ''user_profile-v1''"
    and p: "fmlookup (m_versions demo_switched) (v_ParentID ?t) = Some ?p"
    "v_State ?p \<noteq> VersionRolledBack" "v_State ?p \<noteq> VersionDraft"
    by (simp_all add: demo_switched_eq)
  show ?thesis
    using Rollback_wf_eq [OF wf_demo_switched t(1,2) p(1,2)] t(3) p(3)
    by (simp add: hook_calls_def demo_switched_eq(3))
qed

lemma Rollback_effect_witness:
  "\<exists>q m' calls. Rollback ''user_profile-v2'' demo_switched = (Inr q, m', calls) \<and>
     map_option v_State (fmlookup (m_versions demo_switched) ''user_profile-v2'') = Some VersionPublished \<and>
     map_option v_State (fmlookup (m_versions m') ''user_profile-v2'') = Some VersionRolledBack \<and>
     m_activeID m' = ''user_profile-v1'' \<and> active_record m' = Some q \<and>
     calls = [CallInvalidateVersion ''user_profile-v2'', CallInvalidateVersion ''user_profile-v1'',
              CallInvalidateAll]"
proof -
  obtain q m' calls where run: "Rollback ''user_profile-v2'' demo_switched = (Inr q, m', calls)"
    using Rollback_demo by simp
  obtain t where t: "fmlookup (m_versions demo_switched) ''user_profile-v2'' = Some t"
    "v_State t = VersionPublished" "v_ParentID t = ''user_profile-v1''"
    by (simp add: demo_switched_eq)
  from Rollback_effect [OF wf_demo_switched run] t
  have "m_activeID m' = ''user_profile-v1''" "active_record m' = Some q"
    "fmlookup (m_versions m') ''user_profile-v2'' = Some (t\<lparr>v_State := VersionRolledBack\<rparr>)"
    "calls = hook_calls (m_hook demo_switched) [''user_profile-v2'', ''user_profile-v1'']"
    by auto
  with run t show ?thesis by (simp add: hook_calls_def demo_switched_eq(3))
qed

text \<open>Rolling back a version whose parent was superseded, which is the usual state of the parent
  of a published version, leaves the active pointer on a version that is not published, so that
  \<open>ResolveActive\<close> returns nothing: the machine has no edge back to published, and the error of
  that transition is dropped. The documented effect, that the parent becomes active, does not
  happen.\<close>

theorem Rollback_to_superseded_leaves_no_active:
  assumes wf: "manager_wf m" and ok: "Rollback vid m = (Inr q, m', calls)"
    and t: "fmlookup (m_versions m) vid = Some t"
    and p: "fmlookup (m_versions m) (v_ParentID t) = Some p" "v_State p = VersionSuperseded"
  shows "m_active m' = Some (v_ParentID t) \<and> ResolveActive m' = None"
proof -
  from wf ok obtain u w where *: "fmlookup (m_versions m) vid = Some u"
    "fmlookup (m_versions m) (v_ParentID u) = Some w"
    "q = (if v_State w = VersionDraft then w\<lparr>v_State := VersionPublished\<rparr> else w)"
    "m_active m' = Some (v_ParentID u)"
    by (rule Rollback_Inr_obtains)
  have "u = t" "w = p" using * t p by auto
  then have "v_State q = VersionSuperseded" using * p by simp
  then show ?thesis
    using \<open>u = t\<close> *(4) by (simp add: ResolveActive_def Rollback_active [OF wf ok] IsActive_def)
qed

lemma Rollback_to_superseded_leaves_no_active_witness:
  "ResolveActive demo_switched \<noteq> None \<and>
   ResolveActive (fst (snd (Rollback ''user_profile-v2'' demo_switched))) = None"
proof -
  let ?t = "the (fmlookup (m_versions demo_switched) ''user_profile-v2'')"
  have t: "fmlookup (m_versions demo_switched) ''user_profile-v2'' = Some ?t"
    "fmlookup (m_versions demo_switched) (v_ParentID ?t) =
       Some (the (fmlookup (m_versions demo_switched) ''user_profile-v1''))"
    "v_State (the (fmlookup (m_versions demo_switched) ''user_profile-v1'')) = VersionSuperseded"
    by (simp_all add: demo_switched_eq)
  show ?thesis
    using Rollback_to_superseded_leaves_no_active [OF wf_demo_switched Rollback_demo t]
    by (simp add: Rollback_demo) (simp add: ResolveActive_def active_record_def demo_switched_eq IsActive_def)
qed

text \<open>Rolling back a superseded version whose parent is still a draft publishes the parent
  beside the version that was active: two versions are published afterwards.\<close>

theorem Rollback_can_publish_a_second_version:
  assumes wf: "manager_wf m"
    and t: "fmlookup (m_versions m) vid = Some t" "v_State t = VersionSuperseded"
    and p: "fmlookup (m_versions m) (v_ParentID t) = Some p" "v_State p = VersionDraft"
    and a: "m_active m = Some a" "fmlookup (m_versions m) a = Some w" "v_State w = VersionPublished"
  shows "\<exists>q m' calls. Rollback vid m = (Inr q, m', calls) \<and> a \<noteq> v_ParentID t \<and>
           map_option v_State (fmlookup (m_versions m') a) = Some VersionPublished \<and>
           map_option v_State (fmlookup (m_versions m') (v_ParentID t)) = Some VersionPublished"
proof -
  have "v_State t = VersionPublished \<or> v_State t = VersionSuperseded" using t by simp
  from Rollback_wf_eq [OF wf t(1) this p(1)] p(2)
  have r: "Rollback vid m = (Inr (p\<lparr>v_State := VersionPublished\<rparr>),
      m\<lparr>m_versions := after_rollback vid (v_ParentID t) m, m_active := Some (v_ParentID t),
        m_activeID := v_ParentID t\<rparr>, hook_calls (m_hook m) [vid, v_ParentID t])" by simp
  have "a \<noteq> vid" "a \<noteq> v_ParentID t" "v_ParentID t \<noteq> vid"
    using t p a parent_neq [OF wf t(1) p(1)] by auto
  with r t p a show ?thesis
    by (simp add: after_rollback_def try_transition_lookup CanTransition_edges)
qed

definition demo_chain :: Manager where
  "demo_chain =
     fst (snd (Publish ''user_profile-v3''
       (fst (snd (Publish ''user_profile-v2'' (snd (Create seeded ''user_profile'' demo_created)))))))"

lemma itoa_3: "itoa 3 = ''3''" "itoa (Suc (Suc (Suc 0))) = ''3''"
  by (simp_all add: itoa.simps digit_char_def char_of_def bit_0)

lemma map_size_demo_created: "map_size (m_versions demo_created) = 2"
  by (simp add: demo_created_def demo_simps)

lemma demo_chain_eq:
  "fmlookup (m_versions demo_chain) ''user_profile-v1'' =
     fmlookup (m_versions demo_created) ''user_profile-v1''"
  "map_option v_State (fmlookup (m_versions demo_chain) ''user_profile-v2'') = Some VersionSuperseded"
  "map_option v_ParentID (fmlookup (m_versions demo_chain) ''user_profile-v2'') = Some ''user_profile-v1''"
  "map_option v_State (fmlookup (m_versions demo_chain) ''user_profile-v3'') = Some VersionPublished"
  "m_active demo_chain = Some ''user_profile-v3''"
  by (simp_all add: demo_chain_def demo_created_eq demo_simps map_size_demo_created itoa_3)

lemma wf_demo_chain: "manager_wf demo_chain"
proof -
  obtain v where "Create seeded ''user_profile'' demo_created =
      (Inr v, snd (Create seeded ''user_profile'' demo_created))"
    using Create_ok [of seeded "''user_profile''" demo_created] by (auto simp: Get_seeded)
  then have "manager_wf (snd (Create seeded ''user_profile'' demo_created))"
    using Create_wf [OF wf_demo_created] by blast
  then show ?thesis unfolding demo_chain_def by (metis Publish_wf prod.collapse)
qed

lemma Rollback_can_publish_a_second_version_witness:
  "\<exists>q m' calls. Rollback ''user_profile-v2'' demo_chain = (Inr q, m', calls) \<and>
     map_option v_State (fmlookup (m_versions m') ''user_profile-v3'') = Some VersionPublished \<and>
     map_option v_State (fmlookup (m_versions m') ''user_profile-v1'') = Some VersionPublished"
proof -
  from demo_chain_eq(2,3) obtain t where t: "fmlookup (m_versions demo_chain) ''user_profile-v2'' = Some t"
    "v_State t = VersionSuperseded" "v_ParentID t = ''user_profile-v1''" by auto
  obtain p where p: "fmlookup (m_versions demo_chain) (v_ParentID t) = Some p" "v_State p = VersionDraft"
    by (simp add: t(3) demo_chain_eq(1) demo_created_eq)
  from demo_chain_eq(4) obtain w where w: "fmlookup (m_versions demo_chain) ''user_profile-v3'' = Some w"
    "v_State w = VersionPublished" by auto
  from Rollback_can_publish_a_second_version [OF wf_demo_chain t(1,2) p demo_chain_eq(5) w] t(3)
  show ?thesis by auto
qed

text \<open>A call of \<open>Rollback\<close> that fails changes nothing and calls no hook; which of the three
  errors it returns is decided by the target, its state, and whether its parent exists and was
  not itself rolled back.\<close>

theorem Rollback_errors:
  "Rollback vid m = (Inl err, m', calls) \<Longrightarrow>
     m' = m \<and> calls = [] \<and>
     (case fmlookup (m_versions m) vid of
        None \<Rightarrow> err = VersionNotFound vid
      | Some t \<Rightarrow>
          if v_State t \<noteq> VersionPublished \<and> v_State t \<noteq> VersionSuperseded
          then err = CannotRollBack vid (v_State t)
          else err = NoRollbackTarget vid \<and>
               map_option v_State (fmlookup (m_versions m) (v_ParentID t)) \<in> {None, Some VersionRolledBack})"
  by (auto simp: Rollback_def Let_def split: option.splits if_splits)

lemma Rollback_errors_witness:
  "Rollback ''user_profile-v1'' demo_published =
     (Inl (NoRollbackTarget ''user_profile-v1''), demo_published, [])"
proof -
  obtain err m' calls where r: "Rollback ''user_profile-v1'' demo_published = (Inl err, m', calls)"
    by (simp add: Rollback_def demo_published_eq demo_created_eq)
  from Rollback_errors [OF r] r show ?thesis by (simp add: demo_published_eq)
qed

text \<open>\<open>Create\<close> on a table of the registry makes a draft with a fresh identifier, the table's
  field layout and, as parent, the last version created for the table; it leaves every other
  version, the active pointer and the hook alone. On any other table it fails and changes nothing.\<close>

theorem Create_effect:
  assumes wf: "manager_wf m"
  shows "case Create reg t m of
           (Inl err, m') \<Rightarrow> Registry_Get reg t = None \<and> err = UnknownTable t \<and> m' = m
         | (Inr v, m') \<Rightarrow>
             (\<exists>def. Registry_Get reg t = Some def \<and> v_Fields v = Table_FieldNames def) \<and>
             v_TableID v = t \<and> v_State v = VersionDraft \<and>
             fmlookup (m_versions m) (v_ID v) = None \<and>
             m_versions m' = fmupd (v_ID v) v (m_versions m) \<and>
             v_ParentID v = (case fmlookup (m_lastByTable m) t of None \<Rightarrow> '''' | Some p \<Rightarrow> p) \<and>
             fmlookup (m_lastByTable m') t = Some (v_ID v) \<and>
             ResolveActive m' = ResolveActive m \<and> m_hook m' = m_hook m \<and> manager_wf m'"
proof (cases "Create reg t m")
  case (Pair res m')
  show ?thesis
  proof (cases res)
    case (Inl err)
    with Pair have c: "Create reg t m = (Inl err, m')" by simp
    from c [unfolded Create_Inl_iff] show ?thesis unfolding c by simp
  next
    case (Inr v)
    with Pair have c: "Create reg t m = (Inr v, m')" by simp
    note new = Create_wf [OF wf c]
    have "active_record m' = active_record m"
    proof (cases "m_active m")
      case None
      with c show ?thesis by (auto simp: active_record_def Create_Inr_iff)
    next
      case (Some a)
      with wf new have "a \<noteq> v_ID v" by (auto simp: manager_wf_def fmdom'_iff)
      with Some c show ?thesis by (auto simp: active_record_def Create_Inr_iff)
    qed
    then have active: "ResolveActive m' = ResolveActive m" by (simp add: ResolveActive_def)
    show ?thesis
      using c [unfolded Create_Inr_iff] new active unfolding c by (auto split: option.splits)
  qed
qed

lemma Create_effect_witness:
  "v_ParentID (case fst (Create seeded ''user_profile'' demo_created) of Inr v \<Rightarrow> v) = ''user_profile-v2''"
proof -
  obtain v where v: "Create seeded ''user_profile'' demo_created =
      (Inr v, snd (Create seeded ''user_profile'' demo_created))"
    using Create_ok [of seeded "''user_profile''" demo_created] by (auto simp: Get_seeded)
  have "fmlookup (m_lastByTable demo_created) ''user_profile'' = Some ''user_profile-v2''"
    by (simp add: demo_created_def demo_simps)
  with Create_effect [OF wf_demo_created, of seeded "''user_profile''"] show ?thesis
    by (subst (asm) v, subst v) simp
qed

text \<open>\<open>SwitchEvents\<close> returns the publications of the half-open range, sorted by time, one event
  for each version that is published now, and closes with the tail marker at the end of the
  range; the marker comes last.\<close>

theorem SwitchEvents_spec:
  "\<exists>es. SwitchEvents since until m = es @ [\<lparr>ev_VersionID = '''', ev_At = until\<rparr>] \<and>
     sorted (map ev_At es) \<and>
     (\<forall>e. e \<in> set es \<longleftrightarrow>
        (\<exists>k v. fmlookup (m_versions m) k = Some v \<and> v_State v = VersionPublished \<and>
           v_PublishedAt v \<noteq> 0 \<and> since \<le> v_PublishedAt v \<and> v_PublishedAt v < until \<and>
           e = \<lparr>ev_VersionID = v_ID v, ev_At = v_PublishedAt v\<rparr>))"
proof -
  let ?es = "butlast (SwitchEvents since until m)"
  have split: "SwitchEvents since until m = ?es @ [\<lparr>ev_VersionID = '''', ev_At = until\<rparr>]"
    using append_butlast_last_id [OF SwitchEvents_nonempty] last_SwitchEvents by metis
  have "sorted (map ev_At (?es @ [\<lparr>ev_VersionID = '''', ev_At = until\<rparr>]))"
    using sorted_SwitchEvents split by metis
  then have "sorted (map ev_At ?es)" by (simp add: sorted_append)
  moreover have "set ?es = (\<lambda>v. \<lparr>ev_VersionID = v_ID v, ev_At = v_PublishedAt v\<rparr>) ` set (switch_cands since until m)"
    by (simp add: SwitchEvents_split)
  ultimately show ?thesis
    using split by (intro exI [of _ ?es]) (auto simp: set_switch_cands switch_candidate_def not_less)
qed

end
