(* ===== verification/StoreCache.thy ===== *)
theory StoreCache
  imports DataModel
begin

text \<open>
  \<open>internal/store/cache.go\<close>: the online read cache, a map from the text \<open>entity@version\<close> to a
  snapshot. Two pairs can share a text only when a version identifier holds an at sign, so the
  laws of the cache, collected in the locale \<open>snapshot_cache\<close>, are stated for identifiers
  without one. The locale also proves once what the store needs: a cache that agrees with the
  entries still agrees after a fill with a fresh snapshot, after an entity changed and was
  invalidated, and after a flush.
\<close>

section \<open>The cache\<close>

record cacheEntry =
  ce_key :: string
  ce_snapshot :: Snapshot

type_synonym ReadCache = "(string, cacheEntry) fmap"

definition NewReadCache :: ReadCache where
  "NewReadCache = fmempty"

definition cacheKey :: "EntityKey \<Rightarrow> string \<Rightarrow> string" where
  "cacheKey e versionID = key_string e @ ''@'' @ versionID"

definition Cache_Get :: "ReadCache \<Rightarrow> EntityKey \<Rightarrow> string \<Rightarrow> Snapshot option" where
  "Cache_Get c e versionID = map_option ce_snapshot (fmlookup c (cacheKey e versionID))"

definition Cache_Put :: "ReadCache \<Rightarrow> EntityKey \<Rightarrow> string \<Rightarrow> Snapshot \<Rightarrow> ReadCache" where
  "Cache_Put c e versionID snapshot =
     fmupd (cacheKey e versionID)
       \<lparr>ce_key = cacheKey e versionID, ce_snapshot = Snapshot_Clone snapshot\<rparr> c"

text \<open>The loops delete the entries whose own key has the suffix (the prefix).\<close>

definition drop_entries :: "(cacheEntry \<Rightarrow> bool) \<Rightarrow> ReadCache \<Rightarrow> ReadCache" where
  "drop_entries P c =
     fmfilter (\<lambda>k. case fmlookup c k of None \<Rightarrow> True | Some e \<Rightarrow> \<not> P e) c"

definition Cache_InvalidateVersion :: "string \<Rightarrow> ReadCache \<Rightarrow> ReadCache" where
  "Cache_InvalidateVersion versionID c =
     drop_entries (\<lambda>e. has_suffix (''@'' @ versionID) (ce_key e)) c"

definition Cache_InvalidateEntity :: "EntityKey \<Rightarrow> ReadCache \<Rightarrow> ReadCache" where
  "Cache_InvalidateEntity ent c =
     drop_entries (\<lambda>e. has_prefix (key_string ent @ ''@'') (ce_key e)) c"

definition Cache_Len :: "ReadCache \<Rightarrow> nat" where
  "Cache_Len c = map_size c"

definition Cache_ClearAll :: "ReadCache \<Rightarrow> ReadCache" where
  "Cache_ClearAll c = fmempty"

section \<open>Laws\<close>

text \<open>The key a cached entry carries is the one it is stored under.\<close>

definition cache_wf :: "ReadCache \<Rightarrow> bool" where
  "cache_wf c \<longleftrightarrow> (\<forall>k e. fmlookup c k = Some e \<longrightarrow> ce_key e = k)"

lemma drop_entries_lookup:
  "fmlookup (drop_entries P c) k =
     (case fmlookup c k of None \<Rightarrow> None | Some e \<Rightarrow> if P e then None else Some e)"
  by (simp add: drop_entries_def split: option.splits)

lemma cache_wf_New [wf_pres]: "cache_wf NewReadCache"
  by (simp add: cache_wf_def NewReadCache_def)

lemma cache_wf_Put [wf_pres]: "cache_wf c \<Longrightarrow> cache_wf (Cache_Put c e v s)"
  by (simp add: cache_wf_def Cache_Put_def)

lemma cache_wf_drop: "cache_wf c \<Longrightarrow> cache_wf (drop_entries P c)"
  by (auto simp: cache_wf_def drop_entries_lookup split: option.splits if_splits)

lemma cache_wf_InvalidateVersion [wf_pres]: "cache_wf c \<Longrightarrow> cache_wf (Cache_InvalidateVersion v c)"
  by (simp add: Cache_InvalidateVersion_def cache_wf_drop)

lemma cache_wf_InvalidateEntity [wf_pres]: "cache_wf c \<Longrightarrow> cache_wf (Cache_InvalidateEntity e c)"
  by (simp add: Cache_InvalidateEntity_def cache_wf_drop)

lemma cache_wf_ClearAll [wf_pres]: "cache_wf (Cache_ClearAll c)"
  by (simp add: cache_wf_def Cache_ClearAll_def)

definition no_at :: "string \<Rightarrow> bool" where
  "no_at v \<longleftrightarrow> CHR ''@'' \<notin> set v"

lemma no_at_Nil [simp]: "no_at ''''"
  by (simp add: no_at_def)

lemma append_at_inject:
  assumes "a @ CHR ''@'' # v = b @ CHR ''@'' # w" and "no_at v" and "no_at w"
  shows "a = b \<and> v = w"
proof -
  have cut: "takeWhile (\<lambda>c. c \<noteq> CHR ''@'') (rev (x @ CHR ''@'' # u)) = rev u" if "no_at u" for x u
    using that takeWhile_until [of "CHR ''@''" "rev u" "rev x"] by (simp add: no_at_def)
  have "rev v = rev w" using assms cut [of v a] cut [of w b] by simp
  with assms show ?thesis by simp
qed

lemma cacheKey_inject:
  "no_at v \<Longrightarrow> no_at w \<Longrightarrow> cacheKey e v = cacheKey f w \<longleftrightarrow> e = f \<and> v = w"
  using append_at_inject [of "key_string e" v "key_string f" w]
  by (auto simp: cacheKey_def intro: EntityKey.expand)

lemma Cache_Get_Put:
  assumes "no_at v" and "no_at w"
  shows "Cache_Get (Cache_Put c e v s) f w = (if f = e \<and> w = v then Some s else Cache_Get c f w)"
  using assms by (auto simp: Cache_Get_def Cache_Put_def cacheKey_inject)

lemma Cache_Get_Put_same [simp]: "Cache_Get (Cache_Put c e v s) e v = Some s"
  by (simp add: Cache_Get_def Cache_Put_def)

lemma Cache_Get_InvalidateEntity_same:
  "cache_wf c \<Longrightarrow> Cache_Get (Cache_InvalidateEntity e c) e v = None"
  by (auto simp: Cache_Get_def Cache_InvalidateEntity_def drop_entries_lookup cache_wf_def
      cacheKey_def has_prefix_iff split: option.splits)

lemma Cache_Get_InvalidateVersion_same:
  "cache_wf c \<Longrightarrow> Cache_Get (Cache_InvalidateVersion v c) e v = None"
  by (auto simp: Cache_Get_def Cache_InvalidateVersion_def drop_entries_lookup cache_wf_def
      cacheKey_def has_suffix_iff split: option.splits)

lemma Cache_Get_drop_mono: "Cache_Get (drop_entries P c) e v = Some s \<Longrightarrow> Cache_Get c e v = Some s"
  by (auto simp: Cache_Get_def drop_entries_lookup split: option.splits if_splits)

lemma Cache_Get_InvalidateEntity_mono:
  "Cache_Get (Cache_InvalidateEntity f c) e v = Some s \<Longrightarrow> Cache_Get c e v = Some s"
  unfolding Cache_InvalidateEntity_def by (rule Cache_Get_drop_mono)

lemma Cache_Get_InvalidateVersion_mono:
  "Cache_Get (Cache_InvalidateVersion w c) e v = Some s \<Longrightarrow> Cache_Get c e v = Some s"
  unfolding Cache_InvalidateVersion_def by (rule Cache_Get_drop_mono)

text \<open>Between keys and versions without an at sign, invalidation hits exactly what it names.\<close>

lemma Cache_Get_InvalidateEntity_exact:
  assumes "cache_wf c" and "no_at (key_string e)" and "no_at (key_string f)" and "e \<noteq> f"
  shows "Cache_Get (Cache_InvalidateEntity f c) e v = Cache_Get c e v"
proof -
  have "\<not> has_prefix (key_string f @ ''@'') (cacheKey e v)"
  proof
    assume "has_prefix (key_string f @ ''@'') (cacheKey e v)"
    then obtain t where "key_string e @ CHR ''@'' # v = key_string f @ CHR ''@'' # t"
      by (auto simp: has_prefix_iff cacheKey_def)
    then have "takeWhile (\<lambda>c. c \<noteq> CHR ''@'') (key_string e @ CHR ''@'' # v) =
        takeWhile (\<lambda>c. c \<noteq> CHR ''@'') (key_string f @ CHR ''@'' # t)" by simp
    moreover have "takeWhile (\<lambda>c. c \<noteq> CHR ''@'') (s @ CHR ''@'' # u) = s" if "no_at s" for s u
      using that takeWhile_until by (simp add: no_at_def)
    ultimately have "key_string e = key_string f" using assms(2,3) by simp
    with assms(4) show False by (simp add: EntityKey.expand)
  qed
  with assms(1) show ?thesis
    by (auto simp: Cache_Get_def Cache_InvalidateEntity_def drop_entries_lookup cache_wf_def
        split: option.splits)
qed

section \<open>The contract\<close>

text \<open>
  \<open>cache_agrees\<close>: whatever is cached under a version identifier of the domain \<open>D\<close> equals what a
  fresh read gives. \<open>cached_within\<close>: only identifiers of \<open>D\<close> are cached.
\<close>

definition cache_agrees ::
  "('c \<Rightarrow> 'k \<Rightarrow> string \<Rightarrow> 's option) \<Rightarrow> (string \<Rightarrow> bool) \<Rightarrow> ('k \<Rightarrow> string \<Rightarrow> 's) \<Rightarrow> 'c \<Rightarrow> bool" where
  "cache_agrees get D fresh c \<longleftrightarrow> (\<forall>k v s. D v \<longrightarrow> get c k v = Some s \<longrightarrow> s = fresh k v)"

definition cached_within ::
  "('c \<Rightarrow> 'k \<Rightarrow> string \<Rightarrow> 's option) \<Rightarrow> (string \<Rightarrow> bool) \<Rightarrow> (string \<Rightarrow> bool) \<Rightarrow> 'c \<Rightarrow> bool" where
  "cached_within get ok D c \<longleftrightarrow> (\<forall>k v. ok v \<longrightarrow> get c k v \<noteq> None \<longrightarrow> D v)"

locale snapshot_cache =
  fixes wf :: "'c \<Rightarrow> bool"
    and get :: "'c \<Rightarrow> 'k \<Rightarrow> string \<Rightarrow> 's option"
    and put :: "'c \<Rightarrow> 'k \<Rightarrow> string \<Rightarrow> 's \<Rightarrow> 'c"
    and inv_entity :: "'k \<Rightarrow> 'c \<Rightarrow> 'c"
    and clear :: "'c \<Rightarrow> 'c"
    and ok :: "string \<Rightarrow> bool"
  assumes get_put: "ok v \<Longrightarrow> ok w \<Longrightarrow>
      get (put c k v s) j w = (if j = k \<and> w = v then Some s else get c j w)"
    and get_inv_entity: "wf c \<Longrightarrow> get (inv_entity k c) k v = None"
    and get_inv_entity_mono: "get (inv_entity k c) j v = Some s \<Longrightarrow> get c j v = Some s"
    and get_clear: "get (clear c) k v = None"
    and wf_put: "wf c \<Longrightarrow> wf (put c k v s)"
    and wf_inv_entity: "wf c \<Longrightarrow> wf (inv_entity k c)"
    and wf_clear: "wf (clear c)"
begin

lemma agrees_hit: "cache_agrees get D fresh c \<Longrightarrow> D v \<Longrightarrow> get c k v = Some s \<Longrightarrow> s = fresh k v"
  by (simp add: cache_agrees_def)

lemma agrees_put:
  assumes "cache_agrees get D fresh c" and "\<And>w. D w \<Longrightarrow> ok w" and "ok v"
  shows "cache_agrees get D fresh (put c k v (fresh k v))"
  using assms by (auto simp: cache_agrees_def get_put split: if_splits)

lemma agrees_inv_entity:
  assumes "cache_agrees get D fresh c" and "wf c"
    and "\<And>j v. j \<noteq> k \<Longrightarrow> D v \<Longrightarrow> fresh' j v = fresh j v"
  shows "cache_agrees get D fresh' (inv_entity k c)"
  unfolding cache_agrees_def
proof (intro allI impI)
  fix j v s
  assume "D v" and hit: "get (inv_entity k c) j v = Some s"
  have "get c j v = Some s" using hit by (rule get_inv_entity_mono)
  with \<open>D v\<close> assms(1) have "s = fresh j v" unfolding cache_agrees_def by blast
  moreover have "j \<noteq> k" using hit get_inv_entity [OF assms(2), of k v] by auto
  ultimately show "s = fresh' j v" using assms(3) \<open>D v\<close> by simp
qed

lemma agrees_clear: "cache_agrees get D fresh (clear c)"
  by (simp add: cache_agrees_def get_clear)

text \<open>The domain may grow by identifiers that are not cached.\<close>

lemma agrees_extend:
  assumes "cache_agrees get D fresh c" and "cached_within get ok E c"
    and "\<And>v. D' v \<Longrightarrow> ok v \<and> (E v \<longrightarrow> D v)" and "\<And>j v. D v \<Longrightarrow> fresh' j v = fresh j v"
  shows "cache_agrees get D' fresh' c"
  unfolding cache_agrees_def
proof (intro allI impI)
  fix k v s
  assume "D' v" "get c k v = Some s"
  then have "D v" using assms(2,3) unfolding cached_within_def by blast
  with \<open>get c k v = Some s\<close> show "s = fresh' k v"
    using assms(1,4) unfolding cache_agrees_def by simp
qed

lemma within_put:
  "cached_within get ok D c \<Longrightarrow> ok v \<Longrightarrow> D v \<Longrightarrow> cached_within get ok D (put c k v s)"
  by (auto simp: cached_within_def get_put)

lemma within_inv_entity: "cached_within get ok D c \<Longrightarrow> cached_within get ok D (inv_entity k c)"
  unfolding cached_within_def using get_inv_entity_mono by blast

lemma within_clear: "cached_within get ok D (clear c)"
  by (simp add: cached_within_def get_clear)

end

interpretation read_cache: snapshot_cache cache_wf Cache_Get Cache_Put Cache_InvalidateEntity
    Cache_ClearAll no_at
proof unfold_locales
  show "Cache_Get (Cache_ClearAll c) k v = None" for c k v
    by (simp add: Cache_Get_def Cache_ClearAll_def)
  show "Cache_Get (Cache_InvalidateEntity k c) j v = Some s \<Longrightarrow> Cache_Get c j v = Some s"
    for c k j v s
    by (rule Cache_Get_InvalidateEntity_mono)
qed (simp_all add: Cache_Get_Put Cache_Get_InvalidateEntity_same wf_pres)

end
