(* ===== verification/StoreJournal.thy ===== *)
theory StoreJournal
  imports DataModel
begin

text \<open>
  The entry type of \<open>internal/store/store.go\<close> and the write journal of
  \<open>internal/store/journal.go\<close>: an append-only list of operations with an index by entity. The
  invariant \<open>journal_wf\<close> says that the index lists, in order, exactly the positions of each
  entity's operations; \<open>Append\<close> and \<open>Clear\<close> keep it, so \<open>LastBefore\<close> never reads out of range.
\<close>

section \<open>Entries (store.go)\<close>

record Entry =
  e_Key :: EntityKey
  e_Fields :: Fields
  e_VersionID :: string
  e_WrittenAt :: time

definition Entry_Clone :: "Entry \<Rightarrow> Entry" where
  "Entry_Clone e =
     \<lparr>e_Key = e_Key e, e_Fields = cloneFields (e_Fields e), e_VersionID = e_VersionID e,
      e_WrittenAt = e_WrittenAt e\<rparr>"

definition Entry_Snapshot :: "Entry \<Rightarrow> Snapshot" where
  "Entry_Snapshot e =
     \<lparr>snap_Entity = e_Key e, snap_VersionID = e_VersionID e,
      snap_Fields = cloneFields (e_Fields e), snap_WrittenAt = e_WrittenAt e\<rparr>"

lemma Entry_Clone_id [simp]: "Entry_Clone e = e"
  by (simp add: Entry_Clone_def)

section \<open>The journal\<close>

record JournalOp =
  op_BatchID :: string
  op_Segment :: nat
  op_Key :: EntityKey
  op_Before :: "Entry option"

record Journal =
  j_ops :: "JournalOp list"
  j_byKey :: "(EntityKey, nat list) fmap"

definition NewJournal :: Journal where
  "NewJournal = \<lparr>j_ops = [], j_byKey = fmempty\<rparr>"

text \<open>\<open>byKey[k] = append(byKey[k], i)\<close>; a missing key reads as the empty slice.\<close>

definition index_add :: "EntityKey \<Rightarrow> nat \<Rightarrow> (EntityKey, nat list) fmap \<Rightarrow> (EntityKey, nat list) fmap" where
  "index_add k i byKey =
     fmupd k ((case fmlookup byKey k of None \<Rightarrow> [] | Some is \<Rightarrow> is) @ [i]) byKey"

definition Journal_Append :: "JournalOp \<Rightarrow> Journal \<Rightarrow> Journal" where
  "Journal_Append op j =
     \<lparr>j_ops = j_ops j @ [op], j_byKey = index_add (op_Key op) (length (j_ops j)) (j_byKey j)\<rparr>"

definition OpsFor :: "Journal \<Rightarrow> string \<Rightarrow> JournalOp list" where
  "OpsFor j batchID = filter (\<lambda>op. op_BatchID op = batchID) (j_ops j)"

definition OpsForSegment :: "Journal \<Rightarrow> string \<Rightarrow> nat \<Rightarrow> JournalOp list" where
  "OpsForSegment j batchID segment =
     filter (\<lambda>op. op_BatchID op = batchID \<and> op_Segment op = segment) (j_ops j)"

definition LastBefore :: "Journal \<Rightarrow> EntityKey \<Rightarrow> Entry option go" where
  "LastBefore j key =
     (let indexes = (case fmlookup (j_byKey j) key of None \<Rightarrow> [] | Some is \<Rightarrow> is) in
      if indexes = [] then Some None
      else if last indexes < length (j_ops j) then Some (op_Before (j_ops j ! last indexes))
      else None)"

fun index_from :: "nat \<Rightarrow> JournalOp list \<Rightarrow> (EntityKey, nat list) fmap \<Rightarrow> (EntityKey, nat list) fmap" where
  "index_from i [] byKey = byKey"
| "index_from i (op # ops) byKey = index_from (Suc i) ops (index_add (op_Key op) i byKey)"

definition rebuildIndex :: "Journal \<Rightarrow> Journal" where
  "rebuildIndex j = j\<lparr>j_byKey := index_from 0 (j_ops j) fmempty\<rparr>"

definition Journal_Clear :: "string \<Rightarrow> Journal \<Rightarrow> Journal" where
  "Journal_Clear batchID j =
     rebuildIndex (j\<lparr>j_ops := filter (\<lambda>op. op_BatchID op \<noteq> batchID) (j_ops j)\<rparr>)"

section \<open>The index\<close>

definition positions :: "JournalOp list \<Rightarrow> EntityKey \<Rightarrow> nat list" where
  "positions ops k = filter (\<lambda>i. op_Key (ops ! i) = k) [0 ..< length ops]"

definition index_of :: "(EntityKey, nat list) fmap \<Rightarrow> EntityKey \<Rightarrow> nat list" where
  "index_of byKey k = (case fmlookup byKey k of None \<Rightarrow> [] | Some is \<Rightarrow> is)"

definition journal_wf :: "Journal \<Rightarrow> bool" where
  "journal_wf j \<longleftrightarrow> (\<forall>k. index_of (j_byKey j) k = positions (j_ops j) k)"

lemma index_of_add: "index_of (index_add k i m) j = index_of m j @ (if j = k then [i] else [])"
  by (simp add: index_of_def index_add_def)

lemma positions_snoc:
  "positions (ops @ [op]) k = positions ops k @ (if op_Key op = k then [length ops] else [])"
proof -
  have "filter (\<lambda>i. op_Key ((ops @ [op]) ! i) = k) [0 ..< length ops] = positions ops k"
    unfolding positions_def by (intro filter_cong) (auto simp: nth_append)
  then show ?thesis by (simp add: positions_def)
qed

lemma journal_wf_New [wf_pres]: "journal_wf NewJournal"
  by (simp add: journal_wf_def NewJournal_def index_of_def positions_def)

lemma journal_wf_Append [wf_pres]: "journal_wf j \<Longrightarrow> journal_wf (Journal_Append op j)"
  by (auto simp: journal_wf_def Journal_Append_def index_of_add positions_snoc)

lemma index_from_positions:
  "(\<And>k. index_of m k = positions pre k) \<Longrightarrow>
     index_of (index_from (length pre) ops m) k = positions (pre @ ops) k"
proof (induction ops arbitrary: pre m)
  case Nil
  then show ?case by simp
next
  case (Cons op ops)
  have "index_of (index_add (op_Key op) (length pre) m) k = positions (pre @ [op]) k" for k
    by (auto simp: index_of_add positions_snoc Cons.prems)
  then show ?case using Cons.IH [of "index_add (op_Key op) (length pre) m" "pre @ [op]"] by simp
qed

lemma rebuildIndex_wf [wf_pres]: "journal_wf (rebuildIndex j)"
  using index_from_positions [of fmempty "[]" "j_ops j"]
  by (simp add: journal_wf_def rebuildIndex_def index_of_def positions_def)

lemma Journal_Clear_wf [wf_pres]: "journal_wf (Journal_Clear b j)"
  by (simp add: Journal_Clear_def rebuildIndex_wf)

lemma OpsFor_Append:
  "OpsFor (Journal_Append op j) b = OpsFor j b @ (if op_BatchID op = b then [op] else [])"
  by (simp add: OpsFor_def Journal_Append_def)

lemma OpsFor_Clear: "OpsFor (Journal_Clear b j) c = (if c = b then [] else OpsFor j c)"
  by (auto simp: OpsFor_def Journal_Clear_def rebuildIndex_def intro: filter_cong)

lemma LastBefore_wf:
  assumes "journal_wf j"
  shows "LastBefore j k =
     Some (case filter (\<lambda>op. op_Key op = k) (rev (j_ops j)) of [] \<Rightarrow> None | op # _ \<Rightarrow> op_Before op)"
proof -
  let ?ops = "j_ops j"
  have idx: "index_of (j_byKey j) k = positions ?ops k" using assms by (simp add: journal_wf_def)
  have ops: "map ((!) ?ops) (positions ?ops k) = filter (\<lambda>op. op_Key op = k) ?ops"
    by (metis (mono_tags, lifting) comp_apply filter_cong filter_map map_nth positions_def)
  show ?thesis
  proof (cases "positions ?ops k = []")
    case True
    then have "filter (\<lambda>op. op_Key op = k) ?ops = []" using ops by simp
    then show ?thesis using idx True
      by (simp add: LastBefore_def index_of_def Let_def flip: rev_filter)
  next
    case False
    then have "last (positions ?ops k) \<in> set (positions ?ops k)" by simp
    then have less: "last (positions ?ops k) < length ?ops" by (simp add: positions_def)
    have "filter (\<lambda>op. op_Key op = k) ?ops \<noteq> []" using ops False by (metis map_is_Nil_conv)
    then obtain xs where "filter (\<lambda>op. op_Key op = k) ?ops = xs @ [last (filter (\<lambda>op. op_Key op = k) ?ops)]"
      by (metis append_butlast_last_id)
    moreover have "last (filter (\<lambda>op. op_Key op = k) ?ops) = ?ops ! last (positions ?ops k)"
      using ops False by (metis last_map)
    ultimately have "filter (\<lambda>op. op_Key op = k) (rev ?ops) = (?ops ! last (positions ?ops k)) # rev xs"
      by (metis rev_eq_Cons_iff rev_filter rev_rev_ident)
    then show ?thesis using idx False less by (simp add: LastBefore_def index_of_def Let_def)
  qed
qed

end
