(* ===== verification/StoreResults.thy ===== *)
theory StoreResults
  imports DataModel
begin

text \<open>
  \<open>internal/store/results.go\<close>: the registry of computation results already written, keyed by the
  text \<open>task:entity\<close>. Two pairs share a text only when a task identifier holds a colon.
\<close>

type_synonym CommittedResults = "(string, string) fmap"

definition NewCommittedResults :: CommittedResults where
  "NewCommittedResults = fmempty"

definition resultKey :: "string \<Rightarrow> EntityKey \<Rightarrow> string" where
  "resultKey taskID e = taskID @ '':'' @ key_string e"

definition MarkCommitted ::
  "string \<Rightarrow> EntityKey \<Rightarrow> string \<Rightarrow> CommittedResults \<Rightarrow> CommittedResults" where
  "MarkCommitted taskID e signature c = fmupd (resultKey taskID e) signature c"

definition IsCommitted :: "string \<Rightarrow> EntityKey \<Rightarrow> string \<Rightarrow> CommittedResults \<Rightarrow> bool" where
  "IsCommitted taskID e signature c =
     (case fmlookup c (resultKey taskID e) of None \<Rightarrow> False | Some current \<Rightarrow> current = signature)"

definition Results_Count :: "CommittedResults \<Rightarrow> nat" where
  "Results_Count c = map_size c"

lemma resultKey_inject: "resultKey t e = resultKey t f \<longleftrightarrow> e = f"
  by (auto simp: resultKey_def intro: EntityKey.expand)

lemma resultKey_inject_colon:
  assumes "CHR '':'' \<notin> set t" and "CHR '':'' \<notin> set u"
  shows "resultKey t e = resultKey u f \<longleftrightarrow> t = u \<and> e = f"
proof
  assume eq: "resultKey t e = resultKey u f"
  have cut: "takeWhile (\<lambda>c. c \<noteq> CHR '':'') (x @ CHR '':'' # y) = x" if "CHR '':'' \<notin> set x" for x y
    using that by (rule takeWhile_until)
  have "t = u" using eq assms cut [of t "key_string e"] cut [of u "key_string f"]
    by (simp add: resultKey_def)
  with eq show "t = u \<and> e = f" by (simp add: resultKey_inject)
qed simp

lemma IsCommitted_Mark_same [simp]: "IsCommitted t e s (MarkCommitted t e s c)"
  by (simp add: IsCommitted_def MarkCommitted_def)

lemma IsCommitted_Mark:
  "IsCommitted t e s (MarkCommitted t f s' c) =
     (if f = e then s' = s else IsCommitted t e s c)"
  by (auto simp: IsCommitted_def MarkCommitted_def resultKey_inject)

end
