(* ===== verification/FeatureStore.thy ===== *)
theory FeatureStore
  imports EntityRouter Versions StoreCache StoreJournal StoreResults
begin

text \<open>
  \<open>internal/store/store.go\<close>: the sharded entry store with its read cache, journal and result
  registry. The router and the version manager, which the Go struct holds by pointer and shares
  with the server, are arguments. Indexing a slice outside its bounds is a panic (\<open>None\<close>).

  The abstract view of a store is the map \<open>entries\<close> from keys to entries. Under \<open>store_wf\<close> every
  operation that changes an entry is an instance of \<open>set_entry\<close>, an update of that map at one
  key (\<open>WriteAt_eq\<close>, \<open>MergeWrite_eq\<close>, \<open>CompareAndWrite_eq\<close>, \<open>Delete_eq\<close>); the locale \<open>entry_store\<close>
  is that contract, and proves from it that undoing recorded writes restores the map.
\<close>

section \<open>The store\<close>

type_synonym Shard = "(EntityKey, Entry) fmap"

record Store =
  s_shards :: "Shard list"
  s_cache :: ReadCache
  s_journal :: Journal
  s_results :: CommittedResults
  s_now :: clock

text \<open>A router holds a slice of as many elements as the store makes here, so this one can be made too.\<close>

definition New :: "Router \<Rightarrow> clock \<Rightarrow> Manager \<Rightarrow> Store \<times> Manager" where
  "New r now m =
     (\<lparr>s_shards = replicate (nat (Router_ShardCount r)) fmempty, s_cache = NewReadCache,
       s_journal = NewJournal, s_results = NewCommittedResults, s_now = now\<rparr>,
      SetCacheHook \<lparr>hook_has_InvalidateAll = True\<rparr> m)"

definition SetClock :: "clock \<Rightarrow> Store \<Rightarrow> Store" where
  "SetClock now s = s\<lparr>s_now := now\<rparr>"

definition Store_ShardCount :: "Store \<Rightarrow> int" where
  "Store_ShardCount s = int (length (s_shards s))"

text \<open>The first shards of the grown slice are copied, the others made new.\<close>

definition Store_ExpandShards :: "int \<Rightarrow> int \<Rightarrow> Store \<Rightarrow> Store go" where
  "Store_ExpandShards lim newCount s =
     (if newCount \<le> int (length (s_shards s)) then Some s
      else map_option (\<lambda>grown. s\<lparr>s_shards := s_shards s @ drop (length (s_shards s)) grown\<rparr>)
             (make_slice lim newCount fmempty))"

section \<open>Shards and entries\<close>

text \<open>\<open>shard\<close> falls back to the first shard when the route is out of range.\<close>

definition shard_index :: "Router \<Rightarrow> Store \<Rightarrow> EntityKey \<Rightarrow> nat go" where
  "shard_index r s key = do {
     index \<leftarrow> Route r key;
     let i = (if index < 0 \<or> index \<ge> int (length (s_shards s)) then 0 else nat index);
     if i < length (s_shards s) then Some i else None
   }"

definition store_lookup :: "Router \<Rightarrow> Store \<Rightarrow> EntityKey \<Rightarrow> Entry option go" where
  "store_lookup r s key = do {
     i \<leftarrow> shard_index r s key;
     Some (fmlookup (s_shards s ! i) key)
   }"

text \<open>The read path indexes with the route itself: \<open>s.shards[s.router.Lookup(key)][key]\<close>.\<close>

definition read_entry :: "Router \<Rightarrow> Store \<Rightarrow> EntityKey \<Rightarrow> Entry option go" where
  "read_entry r s key = do {
     index \<leftarrow> Lookup r key;
     if 0 \<le> index \<and> index < int (length (s_shards s))
     then Some (fmlookup (s_shards s ! nat index) key) else None
   }"

definition store_shard :: "nat \<Rightarrow> Shard \<Rightarrow> Store \<Rightarrow> Store" where
  "store_shard i sh s = s\<lparr>s_shards := (s_shards s)[i := sh]\<rparr>"

definition invalidate_entity :: "EntityKey \<Rightarrow> Store \<Rightarrow> Store" where
  "invalidate_entity key s = s\<lparr>s_cache := Cache_InvalidateEntity key (s_cache s)\<rparr>"

definition new_Entry :: "EntityKey \<Rightarrow> Entry" where
  "new_Entry key = \<lparr>e_Key = key, e_Fields = fmempty, e_VersionID = '''', e_WrittenAt = 0\<rparr>"

section \<open>Reads\<close>

definition resolveActiveVersionID :: "Manager \<Rightarrow> string" where
  "resolveActiveVersionID m = (case ResolveActive m of None \<Rightarrow> '''' | Some v \<Rightarrow> v_ID v)"

definition allowed_fields :: "Manager \<Rightarrow> string \<Rightarrow> string list option" where
  "allowed_fields m versionID =
     (if versionID = '''' then None
      else (case Manager_Get m versionID of
              None \<Rightarrow> None
            | Some v \<Rightarrow> if v_Fields v = [] then None else Some (v_Fields v)))"

definition entrySnapshot :: "Manager \<Rightarrow> Entry \<Rightarrow> string \<Rightarrow> Snapshot" where
  "entrySnapshot m entry versionID =
     (let raw = Entry_Snapshot entry in
      case allowed_fields m versionID of
        None \<Rightarrow> raw
      | Some names \<Rightarrow> raw\<lparr>snap_Fields := fmfilter (\<lambda>name. name \<in> set names) (snap_Fields raw)\<rparr>)"

text \<open>The common body of \<open>Read\<close> and \<open>ReadVersion\<close>: cache, then shard, then fill the cache.\<close>

definition read_cached ::
  "Router \<Rightarrow> Manager \<Rightarrow> EntityKey \<Rightarrow> string \<Rightarrow> Store \<Rightarrow> (Snapshot \<times> Store) go" where
  "read_cached r m key versionID s =
     (case Cache_Get (s_cache s) key versionID of
        Some cached \<Rightarrow> Some (Snapshot_Clone cached, s)
      | None \<Rightarrow> do {
          entry \<leftarrow> read_entry r s key;
          let snap = (case entry of
                        None \<Rightarrow> EmptySnapshot key versionID
                      | Some e \<Rightarrow> entrySnapshot m e versionID);
          Some (Snapshot_Clone snap, s\<lparr>s_cache := Cache_Put (s_cache s) key versionID snap\<rparr>)
        })"

definition Read :: "Router \<Rightarrow> Manager \<Rightarrow> EntityKey \<Rightarrow> Store \<Rightarrow> (Snapshot \<times> Store) go" where
  "Read r m key s = read_cached r m key (resolveActiveVersionID m) s"

definition ReadVersion ::
  "Router \<Rightarrow> Manager \<Rightarrow> EntityKey \<Rightarrow> string \<Rightarrow> Store \<Rightarrow> (Snapshot \<times> Store) go" where
  "ReadVersion r m key versionID s =
     read_cached r m key (if versionID = '''' then resolveActiveVersionID m else versionID) s"

section \<open>Writes\<close>

definition WriteAt ::
  "Router \<Rightarrow> EntityKey \<Rightarrow> Fields \<Rightarrow> string \<Rightarrow> time \<Rightarrow> Store \<Rightarrow> Store go" where
  "WriteAt r key fs versionID at s = do {
     i \<leftarrow> shard_index r s key;
     let sh = s_shards s ! i;
     let entry = (case fmlookup sh key of Some e \<Rightarrow> e | None \<Rightarrow> new_Entry key);
     let entry = entry\<lparr>e_Fields := cloneFields fs, e_VersionID := versionID, e_WrittenAt := at\<rparr>;
     Some (invalidate_entity key (store_shard i (fmupd key entry sh) s))
   }"

definition Write :: "Router \<Rightarrow> EntityKey \<Rightarrow> Fields \<Rightarrow> string \<Rightarrow> Store \<Rightarrow> Store go" where
  "Write r key fs versionID s =
     (case tick (s_now s) of (at, clk) \<Rightarrow> WriteAt r key fs versionID at (s\<lparr>s_now := clk\<rparr>))"

fun merge_fields :: "Fields \<Rightarrow> string list \<Rightarrow> Fields \<Rightarrow> Fields" where
  "merge_fields patch [] fs = fs"
| "merge_fields patch (name # names) fs =
     merge_fields patch names
       (case fmlookup patch name of
          Some v \<Rightarrow> fmupd name (CloneValue v) fs
        | None \<Rightarrow> fmdrop name fs)"

definition MergeWrite ::
  "Router \<Rightarrow> EntityKey \<Rightarrow> Fields \<Rightarrow> string list \<Rightarrow> string \<Rightarrow> Store \<Rightarrow> Store go" where
  "MergeWrite r key patch overwrite versionID s = do {
     i \<leftarrow> shard_index r s key;
     let sh = s_shards s ! i;
     let entry = (case fmlookup sh key of Some e \<Rightarrow> e | None \<Rightarrow> new_Entry key);
     let (at, clk) = tick (s_now s);
     let entry = entry\<lparr>e_Fields := merge_fields patch overwrite (e_Fields entry),
                       e_VersionID := versionID, e_WrittenAt := at\<rparr>;
     Some (invalidate_entity key (store_shard i (fmupd key entry sh) (s\<lparr>s_now := clk\<rparr>)))
   }"

text \<open>
  \<open>versionRank\<close> walks the identifier from its end and stops at the first byte that is no digit;
  the accumulator is a Go \<open>int\<close>, 64 bits wide on the platforms the service is built for.
\<close>

fun rank_loop :: "string \<Rightarrow> int64 \<Rightarrow> int64" where
  "rank_loop [] rank = rank"
| "rank_loop (c # cs) rank =
     (if (of_char c :: nat) < 48 \<or> (of_char c :: nat) > 57 then rank
      else rank_loop cs (rank * 10 + of_nat (of_char c - 48)))"

definition versionRank :: "string \<Rightarrow> int64" where
  "versionRank vid = rank_loop (rev vid) 0"

definition versionNewer :: "string \<Rightarrow> string \<Rightarrow> bool" where
  "versionNewer current incoming \<longleftrightarrow> sint (versionRank current) > sint (versionRank incoming)"

definition CompareAndWrite ::
  "Router \<Rightarrow> EntityKey \<Rightarrow> Fields \<Rightarrow> Version \<Rightarrow> Store \<Rightarrow> (bool \<times> Store) go" where
  "CompareAndWrite r key fs incoming s = do {
     entry \<leftarrow> store_lookup r s key;
     if (case entry of None \<Rightarrow> False
         | Some e \<Rightarrow> e_VersionID e \<noteq> '''' \<and> versionNewer (e_VersionID e) (v_ID incoming))
     then Some (False, s)
     else do {
       i \<leftarrow> shard_index r s key;
       let sh = s_shards s ! i;
       let entry = (case entry of Some e \<Rightarrow> e | None \<Rightarrow> new_Entry key);
       let (at, clk) = tick (s_now s);
       let entry = entry\<lparr>e_Fields := cloneFields fs, e_VersionID := v_ID incoming,
                         e_WrittenAt := at\<rparr>;
       Some (True, invalidate_entity key (store_shard i (fmupd key entry sh) (s\<lparr>s_now := clk\<rparr>)))
     }
   }"

definition Delete :: "Router \<Rightarrow> EntityKey \<Rightarrow> Store \<Rightarrow> Store go" where
  "Delete r key s = do {
     i \<leftarrow> shard_index r s key;
     Some (invalidate_entity key (store_shard i (fmdrop key (s_shards s ! i)) s))
   }"

section \<open>Queries, invalidation and batch rollback\<close>

definition WrittenAt :: "Router \<Rightarrow> EntityKey \<Rightarrow> Store \<Rightarrow> time option go" where
  "WrittenAt r key s = map_option (map_option e_WrittenAt) (store_lookup r s key)"

definition EntryFor :: "Router \<Rightarrow> EntityKey \<Rightarrow> Store \<Rightarrow> Entry option go" where
  "EntryFor r key s = map_option (map_option Entry_Clone) (store_lookup r s key)"

text \<open>
  Go ranges over a map in an unspecified order: \<open>iter\<close> turns the sorted keys of a map into the
  order the run time picks.
\<close>

type_synonym iteration = "EntityKey list \<Rightarrow> EntityKey list"

definition Keys :: "iteration \<Rightarrow> int \<Rightarrow> Store \<Rightarrow> EntityKey list" where
  "Keys iter shardIndex s =
     (if shardIndex < 0 \<or> shardIndex \<ge> int (length (s_shards s)) then []
      else iter (sorted_keys (s_shards s ! nat shardIndex)))"

definition Store_InvalidateVersion :: "string \<Rightarrow> Store \<Rightarrow> Store" where
  "Store_InvalidateVersion versionID s = s\<lparr>s_cache := Cache_InvalidateVersion versionID (s_cache s)\<rparr>"

definition Store_InvalidateAll :: "Store \<Rightarrow> Store" where
  "Store_InvalidateAll s = s\<lparr>s_cache := Cache_ClearAll (s_cache s)\<rparr>"

fun rollback_ops :: "Router \<Rightarrow> JournalOp list \<Rightarrow> EntityKey set \<Rightarrow> Store \<Rightarrow> Store go" where
  "rollback_ops r [] seen s = Some s"
| "rollback_ops r (op # ops) seen s =
     (if op_Key op \<in> seen then rollback_ops r ops seen s
      else do {
        s \<leftarrow> (case op_Before op of
                None \<Rightarrow> Delete r (op_Key op) s
              | Some b \<Rightarrow> WriteAt r (op_Key op) (e_Fields b) (e_VersionID b) (e_WrittenAt b) s);
        rollback_ops r ops (insert (op_Key op) seen) s
      })"

definition RollbackBatch :: "Router \<Rightarrow> string \<Rightarrow> Store \<Rightarrow> Store go" where
  "RollbackBatch r batchID s = do {
     s \<leftarrow> rollback_ops r (OpsFor (s_journal s) batchID) {} s;
     Some (s\<lparr>s_journal := Journal_Clear batchID (s_journal s)\<rparr>)
   }"

section \<open>The invariant and the abstract view\<close>

definition shards_wf :: "Router \<Rightarrow> Shard list \<Rightarrow> bool" where
  "shards_wf r shards \<longleftrightarrow>
     length shards = shard_total r \<and>
     (\<forall>i < length shards. \<forall>k e. fmlookup (shards ! i) k = Some e \<longrightarrow> e_Key e = k \<and> shard_of r k = i)"

definition store_wf :: "Router \<Rightarrow> Store \<Rightarrow> bool" where
  "store_wf r s \<longleftrightarrow>
     router_wf r \<and> shards_wf r (s_shards s) \<and> cache_wf (s_cache s) \<and> journal_wf (s_journal s)"

definition entries :: "Router \<Rightarrow> Store \<Rightarrow> EntityKey \<Rightarrow> Entry option" where
  "entries r s key = fmlookup (s_shards s ! shard_of r key) key"

definition field_of :: "Router \<Rightarrow> Store \<Rightarrow> EntityKey \<Rightarrow> string \<Rightarrow> FeatureValue option" where
  "field_of r s k n = Option.bind (entries r s k) (\<lambda>e. fmlookup (e_Fields e) n)"

text \<open>The store with new empty shards up to \<open>n\<close>.\<close>

definition grown_store :: "int \<Rightarrow> Store \<Rightarrow> Store" where
  "grown_store n s = s\<lparr>s_shards := s_shards s @ replicate (nat n - length (s_shards s)) fmempty\<rparr>"

lemma Store_ExpandShards_eq:
  "Store_ExpandShards lim n s =
     (if n \<le> int (length (s_shards s)) \<or> n \<le> lim then Some (grown_store n s) else None)"
  by (simp add: Store_ExpandShards_def make_slice_def grown_store_def)

text \<open>The normal form of every mutation of an entry.\<close>

definition set_entry :: "Router \<Rightarrow> EntityKey \<Rightarrow> Entry option \<Rightarrow> Store \<Rightarrow> Store" where
  "set_entry r key e s =
     invalidate_entity key
       (store_shard (shard_of r key)
          (let sh = s_shards s ! shard_of r key in
           case e of None \<Rightarrow> fmdrop key sh | Some e \<Rightarrow> fmupd key e sh) s)"

definition fits_key :: "EntityKey \<Rightarrow> Entry \<Rightarrow> bool" where
  "fits_key key e \<longleftrightarrow> e_Key e = key"

lemma store_wfD:
  assumes "store_wf r s"
  shows "router_wf r" "length (s_shards s) = shard_total r" "cache_wf (s_cache s)"
    "journal_wf (s_journal s)" "shard_of r key < length (s_shards s)"
proof -
  show r: "router_wf r" and len: "length (s_shards s) = shard_total r"
    and "cache_wf (s_cache s)" "journal_wf (s_journal s)"
    using assms by (simp_all add: store_wf_def shards_wf_def)
  show "shard_of r key < length (s_shards s)" using shard_of_less [OF r] len by simp
qed

lemma entries_Key: "store_wf r s \<Longrightarrow> entries r s k = Some e \<Longrightarrow> e_Key e = k"
  using store_wfD(5) [of r s k] unfolding store_wf_def shards_wf_def entries_def by blast

lemma store_wf_New [wf_pres]:
  assumes "router_wf r" and "New r now m = (s, m')"
  shows "store_wf r s"
proof -
  have "shards_wf r (replicate (nat (Router_ShardCount r)) fmempty)"
    by (simp add: shards_wf_def shard_total_def Router_ShardCount_def)
  moreover have "s = fst (New r now m)" using assms(2) by simp
  ultimately show ?thesis
    using assms(1) by (simp add: New_def store_wf_def cache_wf_New journal_wf_New)
qed

lemma entries_New: "router_wf r \<Longrightarrow> New r now m = (s, m') \<Longrightarrow> entries r s k = None"
  using shard_of_less [of r k] by (auto simp: New_def entries_def shard_total_def Router_ShardCount_def)

lemma store_wf_frame:
  "store_wf r (s\<lparr>s_now := c\<rparr>) = store_wf r s"
  "store_wf r (s\<lparr>s_results := cr\<rparr>) = store_wf r s"
  by (simp_all add: store_wf_def)

lemma entries_frame [simp]:
  "entries r (s\<lparr>s_now := c\<rparr>) = entries r s"
  "entries r (s\<lparr>s_results := cr\<rparr>) = entries r s"
  "entries r (s\<lparr>s_journal := j\<rparr>) = entries r s"
  "entries r (s\<lparr>s_cache := ca\<rparr>) = entries r s"
  by (simp_all add: entries_def fun_eq_iff)

lemma set_entry_frame [simp]:
  "s_now (set_entry r k e s) = s_now s"
  "s_journal (set_entry r k e s) = s_journal s"
  "s_results (set_entry r k e s) = s_results s"
  "s_cache (set_entry r k e s) = Cache_InvalidateEntity k (s_cache s)"
  "length (s_shards (set_entry r k e s)) = length (s_shards s)"
  by (simp_all add: set_entry_def invalidate_entity_def store_shard_def)

lemma entries_set_entry:
  assumes "store_wf r s"
  shows "entries r (set_entry r k e s) = (entries r s)(k := e)"
proof
  fix j
  have "(s_shards (set_entry r k e s)) ! shard_of r j =
      (if shard_of r j = shard_of r k
       then (case e of None \<Rightarrow> fmdrop k (s_shards s ! shard_of r k)
             | Some e \<Rightarrow> fmupd k e (s_shards s ! shard_of r k))
       else s_shards s ! shard_of r j)"
    using router.nth_update_route [OF store_wfD(1,2) [OF assms]]
    by (simp add: set_entry_def invalidate_entity_def store_shard_def Let_def)
  then show "entries r (set_entry r k e s) j = ((entries r s)(k := e)) j"
    by (auto simp: entries_def split: option.splits)
qed

lemma store_wf_set_entry:
  assumes "store_wf r s" and "\<And>x. e = Some x \<Longrightarrow> fits_key k x"
  shows "store_wf r (set_entry r k e s)"
proof -
  let ?sh = "s_shards s ! shard_of r k"
  have "shards_wf r ((s_shards s)[shard_of r k :=
      (case e of None \<Rightarrow> fmdrop k ?sh | Some e \<Rightarrow> fmupd k e ?sh)])"
    using assms store_wfD(5) [OF assms(1), of k]
    by (auto simp: store_wf_def shards_wf_def nth_list_update fits_key_def split: option.splits if_splits)
  then show ?thesis
    using assms by (simp add: store_wf_def set_entry_def invalidate_entity_def store_shard_def
        Let_def cache_wf_InvalidateEntity)
qed

section \<open>The operations in normal form\<close>

lemma shard_index_wf: "store_wf r s \<Longrightarrow> shard_index r s key = Some (shard_of r key)"
  using store_wfD(5) [of r s key] by (simp add: shard_index_def Route_wf store_wfD(1) Let_def)

lemma store_lookup_wf: "store_wf r s \<Longrightarrow> store_lookup r s key = Some (entries r s key)"
  by (simp add: store_lookup_def shard_index_wf entries_def)

lemma read_entry_wf: "store_wf r s \<Longrightarrow> read_entry r s key = Some (entries r s key)"
  using store_wfD(5) [of r s key] by (simp add: read_entry_def Lookup_wf store_wfD(1) entries_def)

lemma EntryFor_wf: "store_wf r s \<Longrightarrow> EntryFor r key s = Some (entries r s key)"
  by (simp add: EntryFor_def store_lookup_wf option.map_ident_strong)

lemma WrittenAt_wf: "store_wf r s \<Longrightarrow> WrittenAt r key s = Some (map_option e_WrittenAt (entries r s key))"
  by (simp add: WrittenAt_def store_lookup_wf)

definition written :: "EntityKey \<Rightarrow> Fields \<Rightarrow> string \<Rightarrow> time \<Rightarrow> Entry" where
  "written key fs versionID at =
     \<lparr>e_Key = key, e_Fields = fs, e_VersionID = versionID, e_WrittenAt = at\<rparr>"

lemma fits_written [simp]: "fits_key k (written k fs v t)"
  by (simp add: fits_key_def written_def)

lemma written_cases:
  assumes "store_wf r s"
  shows "(case entries r s key of Some e \<Rightarrow> e | None \<Rightarrow> new_Entry key)
           \<lparr>e_Fields := fs, e_VersionID := v, e_WrittenAt := t\<rparr> = written key fs v t"
  using entries_Key [OF assms, of key]
  by (auto simp: written_def new_Entry_def split: option.splits)

lemma WriteAt_eq:
  assumes "store_wf r s"
  shows "WriteAt r key fs v at s = Some (set_entry r key (Some (written key fs v at)) s)"
  using written_cases [OF assms, where key = key and fs = fs and v = v and t = at]
  by (simp add: WriteAt_def shard_index_wf [OF assms] Let_def set_entry_def entries_def)

lemma Write_eq:
  assumes "store_wf r s"
  shows "Write r key fs v s =
     Some (set_entry r key (Some (written key fs v (s_now s 0))) (s\<lparr>s_now := \<lambda>n. s_now s (Suc n)\<rparr>))"
  using assms by (simp add: Write_def tick_def WriteAt_eq store_wf_frame)

definition old_fields :: "Entry option \<Rightarrow> Fields" where
  "old_fields e = (case e of None \<Rightarrow> fmempty | Some e \<Rightarrow> e_Fields e)"

lemma MergeWrite_eq:
  assumes "store_wf r s"
  shows "MergeWrite r key patch overwrite v s =
     Some (set_entry r key
             (Some (written key (merge_fields patch overwrite (old_fields (entries r s key))) v (s_now s 0)))
             (s\<lparr>s_now := \<lambda>n. s_now s (Suc n)\<rparr>))"
proof -
  have "e_Fields (case entries r s key of Some e \<Rightarrow> e | None \<Rightarrow> new_Entry key) = old_fields (entries r s key)"
    by (simp add: old_fields_def new_Entry_def split: option.splits)
  then show ?thesis
    using written_cases [OF assms, where key = key and v = v and t = "s_now s 0"]
    by (simp add: MergeWrite_def shard_index_wf [OF assms] Let_def tick_def set_entry_def
        entries_def store_shard_def invalidate_entity_def)
qed

definition stale_write :: "Entry option \<Rightarrow> string \<Rightarrow> bool" where
  "stale_write e incoming \<longleftrightarrow>
     (case e of None \<Rightarrow> False
      | Some e \<Rightarrow> e_VersionID e \<noteq> '''' \<and> versionNewer (e_VersionID e) incoming)"

lemma CompareAndWrite_eq:
  assumes "store_wf r s"
  shows "CompareAndWrite r key fs v s =
     Some (if stale_write (entries r s key) (v_ID v) then (False, s)
           else (True, set_entry r key (Some (written key fs (v_ID v) (s_now s 0)))
                         (s\<lparr>s_now := \<lambda>n. s_now s (Suc n)\<rparr>)))"
  using written_cases [OF assms, where key = key and fs = fs and v = "v_ID v" and t = "s_now s 0"]
  by (simp add: CompareAndWrite_def stale_write_def store_lookup_wf [OF assms] shard_index_wf [OF assms]
      Let_def tick_def set_entry_def store_shard_def invalidate_entity_def)

lemma Delete_eq:
  assumes "store_wf r s"
  shows "Delete r key s = Some (set_entry r key None s)"
  by (simp add: Delete_def shard_index_wf [OF assms] Let_def set_entry_def)

lemmas store_op_eqs = WriteAt_eq Write_eq MergeWrite_eq CompareAndWrite_eq Delete_eq

lemma merge_fields_lookup:
  "fmlookup (merge_fields patch names fs) n =
     (if n \<in> set names then fmlookup patch n else fmlookup fs n)"
  by (induction patch names fs rule: merge_fields.induct) (auto split: option.splits)

section \<open>Undoing recorded writes\<close>

text \<open>
  The contract of an entry store: \<open>put\<close> updates the view at one key. \<open>restore\<close> undoes a list of
  records, each key by its first record only, and \<open>records\<close> says that a list of records tells,
  for every key, what a base state held.
\<close>

fun restore :: "('k \<Rightarrow> 'e option \<Rightarrow> 's \<Rightarrow> 's) \<Rightarrow> ('k \<times> 'e option) list \<Rightarrow> 'k set \<Rightarrow> 's \<Rightarrow> 's" where
  "restore put [] seen s = s"
| "restore put ((k, b) # ops) seen s =
     (if k \<in> seen then restore put ops seen s
      else restore put ops (insert k seen) (put k b s))"

definition records :: "('k \<times> 'e option) list \<Rightarrow> ('k \<Rightarrow> 'e option) \<Rightarrow> ('k \<Rightarrow> 'e option) \<Rightarrow> bool" where
  "records ops base now \<longleftrightarrow>
     (\<forall>k. map_of ops k = None \<longrightarrow> now k = base k) \<and>
     (\<forall>k b. map_of ops k = Some b \<longrightarrow> b = base k)"

lemma records_Nil [simp]: "records [] base now \<longleftrightarrow> now = base"
  by (auto simp: records_def)

lemma records_snoc:
  "records ops base now \<Longrightarrow> records (ops @ [(k, now k)]) base (now(k := e))"
  by (auto simp: records_def map_add_def split: option.splits)

locale entry_store =
  fixes ok :: "'s \<Rightarrow> bool"
    and look :: "'s \<Rightarrow> 'k \<Rightarrow> 'e option"
    and put :: "'k \<Rightarrow> 'e option \<Rightarrow> 's \<Rightarrow> 's"
    and fits :: "'k \<Rightarrow> 'e \<Rightarrow> bool"
  assumes look_put: "ok s \<Longrightarrow> look (put k e s) = (look s)(k := e)"
    and ok_put: "ok s \<Longrightarrow> (\<And>x. e = Some x \<Longrightarrow> fits k x) \<Longrightarrow> ok (put k e s)"
begin

definition fit_ops :: "('k \<times> 'e option) list \<Rightarrow> bool" where
  "fit_ops ops \<longleftrightarrow> (\<forall>(k, b) \<in> set ops. \<forall>x. b = Some x \<longrightarrow> fits k x)"

lemma restore_ok: "ok s \<Longrightarrow> fit_ops ops \<Longrightarrow> ok (restore put ops seen s)"
proof (induction ops arbitrary: seen s)
  case (Cons op ops)
  obtain j b where op: "op = (j, b)" by (cases op)
  with Cons.prems have "fit_ops ops" "ok (put j b s)"
    by (auto simp: fit_ops_def intro: ok_put)
  then show ?case using Cons op by simp
qed simp

lemma look_restore:
  "ok s \<Longrightarrow> fit_ops ops \<Longrightarrow>
     look (restore put ops seen s) k =
       (if k \<in> seen then look s k
        else case map_of ops k of None \<Rightarrow> look s k | Some b \<Rightarrow> b)"
proof (induction ops arbitrary: seen s)
  case Nil
  then show ?case by simp
next
  case (Cons op ops)
  obtain j b where op: "op = (j, b)" by (cases op)
  have fit: "fit_ops ops" "\<And>x. b = Some x \<Longrightarrow> fits j x"
    using Cons.prems(2) op by (auto simp: fit_ops_def)
  show ?case
  proof (cases "j \<in> seen")
    case True
    then show ?thesis using Cons.IH [OF Cons.prems(1) fit(1), of seen] op by auto
  next
    case False
    have "ok (put j b s)" using Cons.prems(1) fit(2) by (rule ok_put)
    then show ?thesis
      using Cons.IH [of "put j b s" "insert j seen"] fit(1) look_put [OF Cons.prems(1), of j b] op False
      by (auto split: option.splits)
  qed
qed

text \<open>Undoing the records of every write since the base state gives the base state back.\<close>

lemma restore_base:
  "ok s \<Longrightarrow> fit_ops ops \<Longrightarrow> records ops base (look s) \<Longrightarrow> look (restore put ops {} s) = base"
  by (rule ext) (auto simp: look_restore records_def split: option.splits)

end

interpretation store_entries: entry_store "store_wf r" "entries r" "set_entry r" fits_key for r
proof unfold_locales
  show "entries r (set_entry r k e s) = (entries r s)(k := e)" if "store_wf r s" for k e s
    using that by (rule entries_set_entry)
  show "store_wf r (set_entry r k e s)" if "store_wf r s" "\<And>x. e = Some x \<Longrightarrow> fits_key k x" for k e s
    using that by (rule store_wf_set_entry)
qed

text \<open>The records a batch left in the journal, and the loop of \<open>RollbackBatch\<close> as \<open>restore\<close>.\<close>

definition undo_log :: "JournalOp list \<Rightarrow> (EntityKey \<times> Entry option) list" where
  "undo_log ops = map (\<lambda>op. (op_Key op, op_Before op)) ops"

definition op_fits :: "JournalOp \<Rightarrow> bool" where
  "op_fits op \<longleftrightarrow> (\<forall>b. op_Before op = Some b \<longrightarrow> fits_key (op_Key op) b)"

definition journal_sound :: "Store \<Rightarrow> bool" where
  "journal_sound s \<longleftrightarrow> (\<forall>op \<in> set (j_ops (s_journal s)). op_fits op)"

lemma written_same: "fits_key k b \<Longrightarrow> written k (e_Fields b) (e_VersionID b) (e_WrittenAt b) = b"
  by (simp add: fits_key_def written_def)

lemma rollback_ops_restore:
  "store_wf r s \<Longrightarrow> (\<And>op. op \<in> set ops \<Longrightarrow> op_fits op) \<Longrightarrow>
     rollback_ops r ops seen s = Some (restore (set_entry r) (undo_log ops) seen s)"
proof (induction ops arbitrary: seen s)
  case Nil
  then show ?case by (simp add: undo_log_def)
next
  case (Cons op ops)
  have fits: "\<And>b. op_Before op = Some b \<Longrightarrow> fits_key (op_Key op) b"
    using Cons.prems(2) [of op] by (simp add: op_fits_def)
  have "store_wf r (set_entry r (op_Key op) (op_Before op) s)"
    using Cons.prems(1) fits by (rule store_wf_set_entry)
  moreover have "(case op_Before op of
        None \<Rightarrow> Delete r (op_Key op) s
      | Some b \<Rightarrow> WriteAt r (op_Key op) (e_Fields b) (e_VersionID b) (e_WrittenAt b) s) =
      Some (set_entry r (op_Key op) (op_Before op) s)"
    using fits Cons.prems(1)
    by (simp add: Delete_eq WriteAt_eq written_same split: option.splits)
  ultimately show ?case
    using Cons.IH Cons.prems by (simp add: undo_log_def)
qed

lemma fit_undo_log: "(\<And>op. op \<in> set ops \<Longrightarrow> op_fits op) \<Longrightarrow> store_entries.fit_ops (undo_log ops)"
  by (auto simp: store_entries.fit_ops_def undo_log_def op_fits_def)

lemma OpsFor_fits: "journal_sound s \<Longrightarrow> op \<in> set (OpsFor (s_journal s) b) \<Longrightarrow> op_fits op"
  by (auto simp: journal_sound_def OpsFor_def)

lemma RollbackBatch_eq:
  assumes "store_wf r s" and "journal_sound s"
  shows "RollbackBatch r b s =
     Some ((restore (set_entry r) (undo_log (OpsFor (s_journal s) b)) {} s)
             \<lparr>s_journal := Journal_Clear b
                (s_journal (restore (set_entry r) (undo_log (OpsFor (s_journal s) b)) {} s))\<rparr>)"
proof -
  have "rollback_ops r (OpsFor (s_journal s) b) {} s =
      Some (restore (set_entry r) (undo_log (OpsFor (s_journal s) b)) {} s)"
    using assms by (intro rollback_ops_restore OpsFor_fits)
  then show ?thesis by (simp add: RollbackBatch_def)
qed

lemma store_wf_journal: "store_wf r s \<Longrightarrow> journal_wf j \<Longrightarrow> store_wf r (s\<lparr>s_journal := j\<rparr>)"
  by (simp add: store_wf_def)

text \<open>A batch's records undone: the entries of the base state the records tell about are back.\<close>

lemma RollbackBatch_restores:
  assumes "store_wf r s" and "journal_sound s"
    and "records (undo_log (OpsFor (s_journal s) b)) base (entries r s)"
  shows "\<exists>s'. RollbackBatch r b s = Some s' \<and> store_wf r s' \<and> entries r s' = base"
proof -
  let ?log = "undo_log (OpsFor (s_journal s) b)"
  let ?s = "restore (set_entry r) ?log {} s"
  have fit: "store_entries.fit_ops ?log"
    using assms(2) by (intro fit_undo_log OpsFor_fits)
  have "store_wf r ?s" using assms(1) fit by (rule store_entries.restore_ok)
  moreover have "entries r ?s = base"
    using assms(1) fit assms(3) by (rule store_entries.restore_base)
  ultimately show ?thesis
    using RollbackBatch_eq [OF assms(1,2)] by (simp add: store_wf_journal Journal_Clear_wf)
qed

section \<open>The cache hook\<close>

definition is_cached :: "Store \<Rightarrow> EntityKey \<Rightarrow> string \<Rightarrow> bool" where
  "is_cached s k v \<longleftrightarrow> Cache_Get (s_cache s) k v \<noteq> None"

interpretation manager_hook: cache_hook "\<lambda>s. cache_wf (s_cache s)" Store_InvalidateVersion
    Store_InvalidateAll is_cached
proof unfold_locales
  show "is_cached (Store_InvalidateVersion v s) k w \<Longrightarrow> is_cached s k w" for v s k w
    using Cache_Get_InvalidateVersion_mono [of v "s_cache s" k w]
    by (auto simp: is_cached_def Store_InvalidateVersion_def)
  show "\<not> is_cached (Store_InvalidateAll s) k w" for s k w
    by (simp add: is_cached_def Store_InvalidateAll_def Cache_ClearAll_def Cache_Get_def)
qed (simp_all add: is_cached_def Store_InvalidateVersion_def Store_InvalidateAll_def
    Cache_Get_InvalidateVersion_same cache_wf_InvalidateVersion cache_wf_ClearAll)

text \<open>The manager's transitions with the hook calls they make on the store.\<close>

definition run_hook :: "HookCall list \<Rightarrow> Store \<Rightarrow> Store" where
  "run_hook = run_calls Store_InvalidateVersion Store_InvalidateAll"

definition Publish_store ::
  "string \<Rightarrow> Manager \<times> Store \<Rightarrow> (VersionError + Version) \<times> Manager \<times> Store" where
  "Publish_store vid ms =
     (case Publish vid (fst ms) of (res, m, calls) \<Rightarrow> (res, m, run_hook calls (snd ms)))"

definition Rollback_store ::
  "string \<Rightarrow> Manager \<times> Store \<Rightarrow> (VersionError + Version) \<times> Manager \<times> Store" where
  "Rollback_store vid ms =
     (case Rollback vid (fst ms) of (res, m, calls) \<Rightarrow> (res, m, run_hook calls (snd ms)))"

lemma run_hook_frame:
  "s_shards (run_hook calls s) = s_shards s \<and> s_journal (run_hook calls s) = s_journal s \<and>
   s_results (run_hook calls s) = s_results s \<and> s_now (run_hook calls s) = s_now s"
proof (induction calls arbitrary: s)
  case (Cons c cs)
  then show ?case
    by (cases c) (simp_all add: run_hook_def Store_InvalidateVersion_def Store_InvalidateAll_def)
qed (simp add: run_hook_def)

lemma entries_run_hook [simp]: "entries r (run_hook calls s) = entries r s"
  using run_hook_frame by (simp add: entries_def fun_eq_iff)

lemma store_wf_run_hook: "store_wf r s \<Longrightarrow> store_wf r (run_hook calls s)"
  using run_hook_frame manager_hook.run_calls_ok [of s calls]
  by (simp add: store_wf_def run_hook_def)


section \<open>The rank of a version identifier\<close>

lemma digit_test: "((of_char c :: nat) < 48 \<or> (of_char c :: nat) > 57) \<longleftrightarrow> \<not> is_digit c"
  by (auto simp: is_digit_def)

lemma rank_loop_digits:
  "rank_loop cs r = foldl (\<lambda>r c. r * 10 + of_nat (digit_value c)) r (takeWhile is_digit cs)"
  by (induction cs r rule: rank_loop.induct) (simp_all add: digit_test digit_value_def is_digit_def)

lemma foldl_of_nat:
  "foldl (\<lambda>r c. r * 10 + of_nat (digit_value c)) (of_nat n :: int64) cs =
     of_nat (foldl (\<lambda>v c. v * 10 + digit_value c) n cs)"
proof (induction cs arbitrary: n)
  case (Cons c cs)
  have "of_nat n * 10 + of_nat (digit_value c) = (of_nat (n * 10 + digit_value c) :: int64)" by simp
  then show ?case using Cons by (simp del: of_nat_add of_nat_mult)
qed simp

text \<open>The loop reads the trailing digits from the last one on, so the rank is their reversal.\<close>

lemma versionRank_digits: "versionRank vid = of_nat (decimal_value (rev (trailing_digits vid)))"
  using foldl_of_nat [of 0 "takeWhile is_digit (rev vid)"]
  by (simp add: versionRank_def rank_loop_digits decimal_value_def trailing_digits_def)

lemma versionRank_version_id: "versionRank (version_id t n) = of_nat (decimal_value (rev (itoa n)))"
  by (simp add: versionRank_digits trailing_digits_version_id)

lemma itoa_times_10: "0 < k \<Longrightarrow> itoa (10 * k) = itoa k @ [digit_char 0]"
  by (subst itoa.simps) simp

lemma versionRank_times_10: "0 < k \<Longrightarrow> versionRank (version_id t (10 * k)) = versionRank (version_id t k)"
  by (simp add: versionRank_version_id itoa_times_10 decimal_value_def)

lemma versionRank_one_digit: "n < 10 \<Longrightarrow> versionRank (version_id t n) = of_nat n"
  by (simp add: versionRank_version_id itoa.simps [of n] decimal_value_def)


section \<open>Properties\<close>

text \<open>A store to evaluate on: two shards, a clock, and an entry written under version 10.\<close>

definition demo_router :: Router where
  "demo_router = \<lparr>shardCount = 2, routeTable = [0, 1], shardStates = [0, 0]\<rparr>"

definition demo_store :: Store where
  "demo_store = fst (New demo_router (\<lambda>n. 1000 + int n) demo_published)"

definition demo_fields :: Fields where
  "demo_fields = fmupd ''age'' (IntValue 30) (fmupd ''nick'' (StringValue ''ann'') fmempty)"

definition demo_user :: EntityKey where
  "demo_user = EntityKey ''user_1''"

definition demo_written :: Store where
  "demo_written =
     set_entry demo_router demo_user (Some (written demo_user demo_fields (version_id ''t'' 10) 1000)) demo_store"

lemma NewRouter_demo: "NewRouter 1024 2 = Some (Inr demo_router)"
  by (simp add: NewRouter_def rebuildTable_eq demo_router_def numeral_2_eq_2)

lemma router_wf_demo: "router_wf demo_router"
  using NewRouter_demo by (rule router_wf_New)

lemma store_wf_demo: "store_wf demo_router demo_store"
  using store_wf_New [OF router_wf_demo, of _ demo_published demo_store]
  by (simp add: demo_store_def New_def)

lemma entries_demo: "entries demo_router demo_store k = None"
  using entries_New [OF router_wf_demo, of _ demo_published demo_store]
  by (simp add: demo_store_def New_def)

lemma store_wf_demo_written: "store_wf demo_router demo_written"
  unfolding demo_written_def using store_wf_demo by (rule store_wf_set_entry) auto

lemma entries_demo_written:
  "entries demo_router demo_written =
     (entries demo_router demo_store)(demo_user \<mapsto> written demo_user demo_fields (version_id ''t'' 10) 1000)"
  unfolding demo_written_def by (rule entries_set_entry [OF store_wf_demo])

text \<open>C10: \<open>MergeWrite\<close> overwrites exactly the fields of its window, with the patch's values, removing
  those the patch does not carry; every field outside the window, and every other entity, stays as
  it was.\<close>

theorem MergeWrite_window:
  assumes "store_wf r s"
  shows "\<exists>s' e. MergeWrite r key patch overwrite v s = Some s' \<and> store_wf r s' \<and>
           entries r s' = (entries r s)(key \<mapsto> e) \<and>
           e_VersionID e = v \<and> e_WrittenAt e = s_now s 0 \<and>
           (\<forall>n. fmlookup (e_Fields e) n =
              (if n \<in> set overwrite then fmlookup patch n
               else Option.bind (entries r s key) (\<lambda>old. fmlookup (e_Fields old) n)))"
proof -
  let ?e = "written key (merge_fields patch overwrite (old_fields (entries r s key))) v (s_now s 0)"
  let ?s = "s\<lparr>s_now := \<lambda>n. s_now s (Suc n)\<rparr>"
  have wf: "store_wf r ?s" using assms by (simp add: store_wf_frame)
  have lookup: "fmlookup (old_fields (entries r s key)) n =
      Option.bind (entries r s key) (\<lambda>old. fmlookup (e_Fields old) n)" for n
    by (simp add: old_fields_def split: option.splits)
  have "store_wf r (set_entry r key (Some ?e) ?s)" using wf by (rule store_wf_set_entry) auto
  then show ?thesis
    using MergeWrite_eq [OF assms] entries_set_entry [OF wf, of key "Some ?e"]
    by (intro exI [of _ "set_entry r key (Some ?e) ?s"] exI [of _ ?e])
      (simp add: merge_fields_lookup lookup written_def)
qed

lemma MergeWrite_window_witness:
  "\<exists>s' e. MergeWrite demo_router demo_user (fmupd ''age'' (IntValue 31) fmempty) [''age'', ''city''] ''v2''
       demo_written = Some s' \<and> entries demo_router s' demo_user = Some e \<and>
     fmlookup (e_Fields e) ''age'' = Some (IntValue 31) \<and>
     fmlookup (e_Fields e) ''nick'' = Some (StringValue ''ann'')"
proof -
  obtain s' e where *: "MergeWrite demo_router demo_user (fmupd ''age'' (IntValue 31) fmempty)
      [''age'', ''city''] ''v2'' demo_written = Some s'"
    "entries demo_router s' = (entries demo_router demo_written)(demo_user \<mapsto> e)"
    "\<forall>n. fmlookup (e_Fields e) n =
       (if n \<in> set [''age'', ''city''] then fmlookup (fmupd ''age'' (IntValue 31) fmempty) n
        else Option.bind (entries demo_router demo_written demo_user) (\<lambda>old. fmlookup (e_Fields old) n))"
    using MergeWrite_window [OF store_wf_demo_written, of demo_user "fmupd ''age'' (IntValue 31) fmempty"
        "[''age'', ''city'']" "''v2''"] by blast
  have "fmlookup (e_Fields e) ''nick'' = Some (StringValue ''ann'')"
    "fmlookup (e_Fields e) ''age'' = Some (IntValue 31)"
    using *(3) by (simp_all add: entries_demo_written written_def demo_fields_def)
  with * show ?thesis by simp
qed

text \<open>C11: \<open>CompareAndWrite\<close> refuses a write exactly when the entity is stored under a version of
  higher rank, and then changes nothing; otherwise it replaces the entry, stamped with the clock,
  and touches no other entity.\<close>

theorem CompareAndWrite_guard:
  assumes "store_wf r s"
  shows "\<exists>ok s'. CompareAndWrite r key fs v s = Some (ok, s') \<and> store_wf r s' \<and>
           (ok \<longleftrightarrow> \<not> (\<exists>e. entries r s key = Some e \<and> e_VersionID e \<noteq> '''' \<and>
                        sint (versionRank (e_VersionID e)) > sint (versionRank (v_ID v)))) \<and>
           (\<not> ok \<longrightarrow> s' = s) \<and>
           (ok \<longrightarrow> entries r s' = (entries r s)(key \<mapsto>
              \<lparr>e_Key = key, e_Fields = fs, e_VersionID = v_ID v, e_WrittenAt = s_now s 0\<rparr>))"
proof (cases "stale_write (entries r s key) (v_ID v)")
  case True
  then have "\<exists>e. entries r s key = Some e \<and> e_VersionID e \<noteq> '''' \<and>
      sint (versionRank (e_VersionID e)) > sint (versionRank (v_ID v))"
    by (auto simp: stale_write_def versionNewer_def split: option.splits)
  with True CompareAndWrite_eq [OF assms] assms show ?thesis by auto
next
  case False
  let ?e = "written key fs (v_ID v) (s_now s 0)"
  let ?s = "s\<lparr>s_now := \<lambda>n. s_now s (Suc n)\<rparr>"
  have wf: "store_wf r ?s" using assms by (simp add: store_wf_frame)
  have "store_wf r (set_entry r key (Some ?e) ?s)" using wf by (rule store_wf_set_entry) auto
  moreover have "\<not> (\<exists>e. entries r s key = Some e \<and> e_VersionID e \<noteq> '''' \<and>
      sint (versionRank (e_VersionID e)) > sint (versionRank (v_ID v)))"
    using False by (auto simp: stale_write_def versionNewer_def)
  moreover have "entries r (set_entry r key (Some ?e) ?s) = (entries r s)(key \<mapsto> ?e)"
    using entries_set_entry [OF wf, of key "Some ?e"] by simp
  ultimately show ?thesis
    using False CompareAndWrite_eq [OF assms, of key fs v]
    by (intro exI [of _ True] exI [of _ "set_entry r key (Some ?e) ?s"]) (simp add: written_def)
qed

definition demo_version :: "nat \<Rightarrow> Version" where
  "demo_version n =
     \<lparr>v_ID = version_id ''t'' n, v_TableID = ''t'', v_State = VersionPublished, v_ParentID = '''',
      v_Fields = [], v_CreatedAt = 1, v_PublishedAt = 2\<rparr>"

definition demo_written3 :: Store where
  "demo_written3 =
     set_entry demo_router demo_user (Some (written demo_user demo_fields (version_id ''t'' 3) 1000)) demo_store"

lemma CompareAndWrite_guard_witness:
  "CompareAndWrite demo_router demo_user fmempty (demo_version 2) demo_written3 = Some (False, demo_written3)"
proof -
  have wf: "store_wf demo_router demo_written3"
    unfolding demo_written3_def using store_wf_demo by (rule store_wf_set_entry) auto
  have "entries demo_router demo_written3 demo_user =
      Some (written demo_user demo_fields (version_id ''t'' 3) 1000)"
    unfolding demo_written3_def by (simp add: entries_set_entry [OF store_wf_demo])
  moreover obtain ok s' where *: "CompareAndWrite demo_router demo_user fmempty (demo_version 2) demo_written3 =
      Some (ok, s')"
    "ok \<longleftrightarrow> \<not> (\<exists>e. entries demo_router demo_written3 demo_user = Some e \<and> e_VersionID e \<noteq> '''' \<and>
                        sint (versionRank (e_VersionID e)) > sint (versionRank (v_ID (demo_version 2))))"
    "\<not> ok \<longrightarrow> s' = demo_written3"
    using CompareAndWrite_guard [OF wf, of demo_user fmempty "demo_version 2"] by blast
  ultimately have "\<not> ok" by (simp add: written_def demo_version_def versionRank_one_digit)
  with * show ?thesis by simp
qed

text \<open>C39: The rank reads the digits of an identifier backwards, so that version 10k of a table ranks
  like version k, and the guard lets a backfill of the old version k overwrite an entity that
  version 10k has written.\<close>

theorem stale_backfill_accepted:
  assumes "store_wf r s" and "0 < k" and "v_ID old = version_id t k"
    and "entries r s key = Some e" and "e_VersionID e = version_id t (10 * k)"
  shows "\<exists>s'. CompareAndWrite r key fs old s = Some (True, s') \<and>
           map_option e_VersionID (entries r s' key) = Some (version_id t k)"
proof -
  let ?s = "s\<lparr>s_now := \<lambda>n. s_now s (Suc n)\<rparr>"
  have "store_wf r ?s" using assms(1) by (simp add: store_wf_frame)
  moreover have "\<not> stale_write (entries r s key) (v_ID old)"
    using assms by (simp add: stale_write_def versionNewer_def versionRank_times_10)
  ultimately show ?thesis
    using assms by (simp add: CompareAndWrite_eq entries_set_entry) (simp add: written_def)
qed

lemma stale_backfill_accepted_witness:
  "\<exists>s'. CompareAndWrite demo_router demo_user fmempty (demo_version 1) demo_written = Some (True, s') \<and>
     map_option e_VersionID (entries demo_router s' demo_user) = Some ''t-v1''"
proof -
  let ?e = "written demo_user demo_fields (version_id ''t'' 10) 1000"
  have e: "entries demo_router demo_written demo_user = Some ?e" "e_VersionID ?e = version_id ''t'' (10 * 1)"
    by (simp_all add: entries_demo_written written_def)
  have "version_id ''t'' 1 = ''t-v1''" by (simp add: version_id_def itoa_1_2)
  with stale_backfill_accepted [OF store_wf_demo_written, of 1 "demo_version 1" "''t''" demo_user ?e fmempty] e
  show ?thesis by (simp add: demo_version_def)
qed

text \<open>Between versions 1 to 9 of a table the guard orders writes by creation: the stored version
  counts as newer exactly when its number is the greater one.\<close>

theorem versionNewer_single_digit:
  assumes "m < 10" and "n < 10"
  shows "versionNewer (version_id t m) (version_id u n) \<longleftrightarrow> n < m"
proof -
  have "sint (of_nat k :: int64) = int k" if "k < 10" for k :: nat
    using that by (simp add: signed_of_nat signed_take_bit_int_eq_self)
  with assms show ?thesis by (simp add: versionNewer_def versionRank_one_digit)
qed

lemma versionNewer_single_digit_witness:
  "versionNewer (version_id ''t'' 9) (version_id ''t'' 2) \<and> \<not> versionNewer (version_id ''t'' 10) (version_id ''t'' 2)"
proof -
  have "versionRank (version_id ''t'' 10) = 1"
    using versionRank_times_10 [of 1 "''t''"] by (simp add: versionRank_one_digit)
  then have "\<not> versionNewer (version_id ''t'' 10) (version_id ''t'' 2)"
    by (simp add: versionNewer_def versionRank_one_digit)
  with versionNewer_single_digit [of 9 2 "''t''" "''t''"] show ?thesis by simp
qed

text \<open>C12: \<open>RollbackBatch\<close> brings back every entity the batch's journal records tell about, whatever
  the order and the repetition of the writes, and leaves the records of other batches in the
  journal.\<close>

theorem RollbackBatch_effect:
  assumes wf: "store_wf r s" "journal_sound s"
    and rec: "records (undo_log (OpsFor (s_journal s) b)) base (entries r s)"
  shows "\<exists>s'. RollbackBatch r b s = Some s' \<and> store_wf r s' \<and> entries r s' = base \<and>
           (\<forall>c. OpsFor (s_journal s') c = (if c = b then [] else OpsFor (s_journal s) c))"
proof -
  have journal: "s_journal (restore (set_entry r) ops seen s) = s_journal s" for ops seen
    by (induction "set_entry r" ops seen s rule: restore.induct) simp_all
  obtain s' where "RollbackBatch r b s = Some s'" "store_wf r s'" "entries r s' = base"
    using RollbackBatch_restores [OF wf rec] by blast
  then show ?thesis
    using RollbackBatch_eq [OF wf, of b] by (auto simp: journal OpsFor_Clear)
qed

definition demo_journaled :: Store where
  "demo_journaled =
     demo_written\<lparr>s_journal := Journal_Append
       \<lparr>op_BatchID = ''b'', op_Segment = 0, op_Key = demo_user, op_Before = None\<rparr> NewJournal\<rparr>"

lemma RollbackBatch_effect_witness:
  "\<exists>s'. RollbackBatch demo_router ''b'' demo_journaled = Some s' \<and>
     entries demo_router s' demo_user = None \<and> OpsFor (s_journal s') ''b'' = []"
proof -
  have wf: "store_wf demo_router demo_journaled"
    unfolding demo_journaled_def
    by (intro store_wf_journal store_wf_demo_written journal_wf_Append journal_wf_New)
  have log: "undo_log (OpsFor (s_journal demo_journaled) ''b'') = [(demo_user, None)]"
    by (simp add: demo_journaled_def undo_log_def OpsFor_def Journal_Append_def NewJournal_def)
  have sound: "journal_sound demo_journaled"
    by (simp add: journal_sound_def demo_journaled_def Journal_Append_def NewJournal_def op_fits_def)
  have "records (undo_log (OpsFor (s_journal demo_journaled) ''b'')) (entries demo_router demo_store)
      (entries demo_router demo_journaled)"
    unfolding log by (simp add: records_def demo_journaled_def entries_demo_written entries_demo)
  from RollbackBatch_effect [OF wf sound this] show ?thesis by (auto simp: entries_demo)
qed

text \<open>On a store that matches its router no operation panics: every lookup, read, write, merge,
  guarded write and delete returns.\<close>

theorem store_operations_return:
  assumes "store_wf r s"
  shows "EntryFor r key s \<noteq> None \<and> WrittenAt r key s \<noteq> None \<and> ReadVersion r m key v s \<noteq> None \<and>
         Write r key fs v s \<noteq> None \<and> MergeWrite r key patch overwrite v s \<noteq> None \<and>
         CompareAndWrite r key fs w s \<noteq> None \<and> Delete r key s \<noteq> None"
  using assms
  by (simp add: EntryFor_wf WrittenAt_wf Write_eq MergeWrite_eq CompareAndWrite_eq Delete_eq
      ReadVersion_def read_cached_def read_entry_wf Let_def split: option.splits)

lemma store_operations_return_witness:
  "Delete demo_router demo_user demo_written \<noteq> None \<and> EntryFor demo_router demo_user demo_written \<noteq> None"
  using store_operations_return [OF store_wf_demo_written] by blast

end
