(* ===== verification/ReadPath.thy ===== *)
theory ReadPath
  imports FeatureStore
begin

text \<open>
  The promise of the read path (\<open>internal/store/store.go\<close> over \<open>internal/store/cache.go\<close> and
  \<open>internal/version\<close>): a read served from the cache is what a read of the entry would give now.
  \<open>fresh\<close> is that read without a cache. \<open>store_step\<close> is one operation on the manager and the
  store, \<open>sound\<close> the invariant; the invariant holds in a new store, every operation keeps it, and
  under it a read returns the fresh view. Expansion is not a step: it breaks the promise (see
  \<open>ShardExpansion\<close>).

  The relation has a flag. Without it, explicit-version reads may name any identifier that has no
  at sign, and the invariant speaks of the active version; with it they name only versions that
  exist, and the invariant speaks of all of them. The flag is needed: a read under an identifier
  that is not yet a version is cached unfiltered and survives the version's creation
  (\<open>read_before_create_stays_stale\<close>). So is the condition on at signs: the cache key joins entity
  and version by one (\<open>cache_key_collision\<close>).
\<close>

section \<open>The uncached read\<close>

definition fresh :: "Router \<Rightarrow> Manager \<Rightarrow> Store \<Rightarrow> EntityKey \<Rightarrow> string \<Rightarrow> Snapshot" where
  "fresh r m s key v =
     (case entries r s key of None \<Rightarrow> EmptySnapshot key v | Some e \<Rightarrow> entrySnapshot m e v)"

definition known :: "Manager \<Rightarrow> string \<Rightarrow> bool" where
  "known m v \<longleftrightarrow> v = '''' \<or> v \<in> fmdom' (m_versions m)"

text \<open>The version an explicit read falls back to, and the domain the invariant speaks of.\<close>

definition read_version :: "Manager \<Rightarrow> string \<Rightarrow> string" where
  "read_version m v = (if v = '''' then resolveActiveVersionID m else v)"

definition visible :: "bool \<Rightarrow> Manager \<Rightarrow> string \<Rightarrow> bool" where
  "visible b m v \<longleftrightarrow> (if b then known m v else v = resolveActiveVersionID m)"

definition clean_ids :: "Manager \<Rightarrow> bool" where
  "clean_ids m \<longleftrightarrow> (\<forall>v \<in> fmdom' (m_versions m). no_at v)"

definition clean_registry :: "Registry \<Rightarrow> bool" where
  "clean_registry reg \<longleftrightarrow> (\<forall>t \<in> fmdom' (reg_tables reg). no_at t)"

definition full_hook :: "Manager \<Rightarrow> bool" where
  "full_hook m \<longleftrightarrow> m_hook m = Some \<lparr>hook_has_InvalidateAll = True\<rparr>"

definition coherent :: "Router \<Rightarrow> bool \<Rightarrow> Manager \<Rightarrow> Store \<Rightarrow> bool" where
  "coherent r b m s \<longleftrightarrow>
     cache_agrees Cache_Get (visible b m) (fresh r m s) (s_cache s) \<and>
     (b \<longrightarrow> cached_within Cache_Get no_at (known m) (s_cache s))"

definition sound :: "Router \<Rightarrow> bool \<Rightarrow> Manager \<times> Store \<Rightarrow> bool" where
  "sound r b ms \<longleftrightarrow>
     (case ms of (m, s) \<Rightarrow>
        manager_wf m \<and> full_hook m \<and> clean_ids m \<and> store_wf r s \<and> journal_sound s \<and>
        coherent r b m s)"

lemma ReadVersion_eq: "ReadVersion r m key v s = read_cached r m key (read_version m v) s"
  by (simp add: ReadVersion_def read_version_def)

lemma Read_eq: "Read r m key s = ReadVersion r m key '''' s"
  by (simp add: Read_def ReadVersion_def)

lemma known_active:
  assumes "manager_wf m"
  shows "known m (resolveActiveVersionID m)"
proof (cases "ResolveActive m")
  case None
  then show ?thesis by (simp add: resolveActiveVersionID_def known_def)
next
  case (Some v)
  then have "active_record m = Some v" by (simp add: ResolveActive_def split: if_splits)
  then obtain a where a: "fmlookup (m_versions m) a = Some v"
    unfolding active_record_def bind_eq_Some_conv by blast
  then have "v_ID v = a" by (rule manager_wfD(2) [OF assms])
  with a Some show ?thesis by (simp add: resolveActiveVersionID_def known_def fmdom'_iff)
qed

lemma visible_known: "manager_wf m \<Longrightarrow> visible b m v \<Longrightarrow> known m v"
  by (auto simp: visible_def known_active split: if_splits)

lemma known_no_at: "clean_ids m \<Longrightarrow> known m v \<Longrightarrow> no_at v"
  by (auto simp: clean_ids_def known_def)

lemma no_at_version_id: "no_at t \<Longrightarrow> no_at (version_id t n)"
proof -
  have "CHR ''@'' \<notin> set (itoa n)" using itoa_digits [of n] by (force simp: is_digit_def)
  then show "no_at t \<Longrightarrow> no_at (version_id t n)" by (simp add: no_at_def version_id_def)
qed

lemma fresh_key_cong: "entries r s j = entries r s' j \<Longrightarrow> fresh r m s j v = fresh r m s' j v"
  by (simp add: fresh_def)

section \<open>Each operation keeps the cache coherent\<close>

lemma coherent_set_entry:
  assumes "coherent r b m s" and "store_wf r s"
  shows "coherent r b m (set_entry r k e s)"
proof -
  have "cache_agrees Cache_Get (visible b m) (fresh r m (set_entry r k e s))
      (Cache_InvalidateEntity k (s_cache s))"
  proof (rule read_cache.agrees_inv_entity)
    show "cache_agrees Cache_Get (visible b m) (fresh r m s) (s_cache s)"
      using assms(1) by (simp add: coherent_def)
    show "cache_wf (s_cache s)" using assms(2) by (rule store_wfD)
    show "fresh r m (set_entry r k e s) j v = fresh r m s j v" if "j \<noteq> k" for j v
      by (rule fresh_key_cong) (use that assms(2) in \<open>simp add: entries_set_entry\<close>)
  qed
  then show ?thesis
    using assms(1) read_cache.within_inv_entity by (simp add: coherent_def)
qed

lemma fresh_frame [simp]:
  "fresh r m (s\<lparr>s_now := c\<rparr>) = fresh r m s"
  "fresh r m (s\<lparr>s_results := cr\<rparr>) = fresh r m s"
  "fresh r m (s\<lparr>s_journal := j\<rparr>) = fresh r m s"
  "fresh r m (s\<lparr>s_cache := ca\<rparr>) = fresh r m s"
  by (simp_all add: fresh_def fun_eq_iff)

lemma coherent_frame [simp]:
  "coherent r b m (s\<lparr>s_now := c\<rparr>) = coherent r b m s"
  "coherent r b m (s\<lparr>s_results := cr\<rparr>) = coherent r b m s"
  "coherent r b m (s\<lparr>s_journal := j\<rparr>) = coherent r b m s"
  by (simp_all add: coherent_def)

text \<open>A read returns the fresh view and keeps everything.\<close>

lemma read_cached_fresh:
  assumes "coherent r b m s" and "store_wf r s" and "visible b m v"
  shows "map_option fst (read_cached r m key v s) = Some (fresh r m s key v)"
proof (cases "Cache_Get (s_cache s) key v")
  case None
  then show ?thesis
    by (simp add: read_cached_def read_entry_wf [OF assms(2)] Let_def fresh_def)
next
  case (Some snap)
  have "snap = fresh r m s key v"
    using assms(1,3) Some unfolding coherent_def by (blast intro: read_cache.agrees_hit)
  with Some show ?thesis by (simp add: read_cached_def)
qed

lemma read_cached_state:
  assumes "store_wf r s" and "read_cached r m key v s = Some (snap, s')"
  obtains "s' = s" | "s' = s\<lparr>s_cache := Cache_Put (s_cache s) key v (fresh r m s key v)\<rparr>"
  using assms by (auto simp: read_cached_def read_entry_wf Let_def fresh_def split: option.splits)

lemma coherent_put:
  assumes m: "manager_wf m" "clean_ids m" and "coherent r b m s" and "no_at v" and "b \<longrightarrow> known m v"
  shows "coherent r b m (s\<lparr>s_cache := Cache_Put (s_cache s) key v (fresh r m s key v)\<rparr>)"
proof -
  have "cache_agrees Cache_Get (visible b m) (fresh r m s)
      (Cache_Put (s_cache s) key v (fresh r m s key v))"
    using assms by (intro read_cache.agrees_put) (auto simp: coherent_def dest: visible_known known_no_at)
  moreover have "b \<longrightarrow> cached_within Cache_Get no_at (known m)
      (Cache_Put (s_cache s) key v (fresh r m s key v))"
    using assms by (auto simp: coherent_def intro: read_cache.within_put)
  ultimately show ?thesis by (simp add: coherent_def)
qed

lemma entries_read_cached:
  "store_wf r s \<Longrightarrow> read_cached r m key v s = Some (snap, s') \<Longrightarrow> entries r s' = entries r s"
  by (erule (1) read_cached_state) auto

text \<open>A transition flushes the cache, so any view is coherent after it.\<close>

lemma coherent_flushed: "\<forall>k v. \<not> is_cached s k v \<Longrightarrow> coherent r b m s"
  by (simp add: coherent_def cache_agrees_def cached_within_def is_cached_def)

lemma run_hook_flush: "full_hook m \<Longrightarrow> \<not> is_cached (run_hook (hook_calls (m_hook m) ids) s) k v"
  unfolding run_hook_def by (rule manager_hook.run_calls_flush) (simp add: full_hook_def hook_calls_def)

lemma Publish_outcome:
  assumes "manager_wf m" and "Publish vid m = (res, m', calls)"
  shows "(m' = m \<and> calls = []) \<or> (\<exists>ids. calls = hook_calls (m_hook m) ids \<and> m_hook m' = m_hook m)"
  using assms(1)
proof (cases rule: Publish_cases [where vid = vid])
  case (published v)
  then show ?thesis using assms by (auto simp: Publish_wf_eq)
qed (use assms in auto)

lemma Rollback_outcome:
  assumes "manager_wf m" and "Rollback vid m = (res, m', calls)"
  shows "(m' = m \<and> calls = []) \<or> (\<exists>ids. calls = hook_calls (m_hook m) ids \<and> m_hook m' = m_hook m)"
proof (cases rule: Rollback_cases [where m = m and vid = vid])
  case (rolled t p)
  then show ?thesis using assms by (auto simp: Rollback_wf_eq)
qed (use assms in auto)

lemma coherent_transition:
  assumes "full_hook m" and "coherent r b m s"
    and "(m' = m \<and> calls = []) \<or> (\<exists>ids. calls = hook_calls (m_hook m) ids \<and> m_hook m' = m_hook m)"
  shows "coherent r b m' (run_hook calls s) \<and> full_hook m'"
  using assms(3)
proof
  assume "m' = m \<and> calls = []"
  with assms show ?thesis by (simp add: run_hook_def)
next
  assume "\<exists>ids. calls = hook_calls (m_hook m) ids \<and> m_hook m' = m_hook m"
  then obtain ids where *: "calls = hook_calls (m_hook m) ids" "m_hook m' = m_hook m" by blast
  have "\<forall>k v. \<not> is_cached (run_hook calls s) k v" using * run_hook_flush [OF assms(1)] by simp
  then show ?thesis using * assms(1) by (simp add: coherent_flushed full_hook_def)
qed

lemma allowed_fields_evolves:
  assumes "evolves (m_versions m) (m_versions m')" and "known m v"
  shows "allowed_fields m' v = allowed_fields m v"
proof (cases "v = ''''")
  case False
  with assms(2) obtain w where w: "fmlookup (m_versions m) v = Some w"
    by (auto simp: known_def fmdom'_iff)
  with assms(1) obtain w' where "fmlookup (m_versions m') v = Some w'" "same_record w w'"
    unfolding evolves_def by blast
  with w show ?thesis by (simp add: allowed_fields_def Manager_Get_def same_record_def)
qed (simp add: allowed_fields_def)

lemma resolveActive_Create:
  assumes wf: "manager_wf m" and c: "Create reg t m = (Inr v, m')"
  shows "resolveActiveVersionID m' = resolveActiveVersionID m"
proof -
  have fresh: "fmlookup (m_versions m) (v_ID v) = None" using Create_wf [OF wf c] by blast
  have m': "m_active m' = m_active m" "m_versions m' = fmupd (v_ID v) v (m_versions m)"
    using c by (auto simp: Create_Inr_iff)
  have "active_record m' = active_record m"
  proof (cases "m_active m")
    case None
    then show ?thesis using m' by (simp add: active_record_def)
  next
    case (Some a)
    then have "a \<noteq> v_ID v" using wf fresh by (auto simp: manager_wf_def fmdom'_iff)
    with Some m' show ?thesis by (simp add: active_record_def)
  qed
  then show ?thesis by (simp add: resolveActiveVersionID_def ResolveActive_def)
qed

lemma coherent_Create:
  assumes wf: "manager_wf m" and clean: "clean_ids m'" and coh: "coherent r b m s"
    and c: "Create reg t m = (Inr v, m')"
  shows "coherent r b m' s"
proof -
  have ev: "evolves (m_versions m) (m_versions m')" using Create_evolves [OF wf c] .
  have dom: "known m' w \<longleftrightarrow> known m w \<or> w = v_ID v" for w
    using c by (auto simp: known_def Create_Inr_iff)
  have wf': "manager_wf m'" using Create_wf [OF wf c] by blast
  have fresh_eq: "fresh r m' s j w = fresh r m s j w" if "visible b m w" for j w
    using allowed_fields_evolves [OF ev visible_known [OF wf that]]
    by (simp add: fresh_def entrySnapshot_def cong: option.case_cong)
  have within: "cached_within Cache_Get no_at (if b then known m else (\<lambda>_. True)) (s_cache s)"
    using coh by (auto simp: coherent_def cached_within_def)
  have "cache_agrees Cache_Get (visible b m') (fresh r m' s) (s_cache s)"
  proof (rule read_cache.agrees_extend [OF _ within])
    show "cache_agrees Cache_Get (visible b m) (fresh r m s) (s_cache s)"
      using coh by (simp add: coherent_def)
    show "no_at w \<and> ((if b then known m else (\<lambda>_. True)) w \<longrightarrow> visible b m w)" if "visible b m' w" for w
      using that known_no_at [OF clean visible_known [OF wf' that]] resolveActive_Create [OF wf c]
      by (simp add: visible_def split: if_splits)
  qed (rule fresh_eq)
  moreover have "b \<longrightarrow> cached_within Cache_Get no_at (known m') (s_cache s)"
    using coh dom by (auto simp: coherent_def cached_within_def)
  ultimately show ?thesis by (simp add: coherent_def)
qed

section \<open>Steps\<close>

inductive store_step ::
  "Registry \<Rightarrow> Router \<Rightarrow> bool \<Rightarrow> Manager \<times> Store \<Rightarrow> Manager \<times> Store \<Rightarrow> bool" for reg r b where
  do_read: "no_at v \<Longrightarrow> (b \<Longrightarrow> known m v) \<Longrightarrow> ReadVersion r m key v s = Some (snap, s') \<Longrightarrow>
     store_step reg r b (m, s) (m, s')"
| do_write_at: "WriteAt r key fs v at s = Some s' \<Longrightarrow> store_step reg r b (m, s) (m, s')"
| do_write: "Write r key fs v s = Some s' \<Longrightarrow> store_step reg r b (m, s) (m, s')"
| do_merge: "MergeWrite r key patch overwrite v s = Some s' \<Longrightarrow> store_step reg r b (m, s) (m, s')"
| do_compare: "CompareAndWrite r key fs w s = Some (ok, s') \<Longrightarrow> store_step reg r b (m, s) (m, s')"
| do_delete: "Delete r key s = Some s' \<Longrightarrow> store_step reg r b (m, s) (m, s')"
| do_journal: "EntryFor r key s = Some e \<Longrightarrow>
     j = Journal_Append \<lparr>op_BatchID = batch, op_Segment = seg, op_Key = key, op_Before = e\<rparr> (s_journal s) \<Longrightarrow>
     store_step reg r b (m, s) (m, s\<lparr>s_journal := j\<rparr>)"
| do_forget: "store_step reg r b (m, s) (m, s\<lparr>s_journal := Journal_Clear batch (s_journal s)\<rparr>)"
| do_rollback_batch: "RollbackBatch r batch s = Some s' \<Longrightarrow> store_step reg r b (m, s) (m, s')"
| do_commit: "store_step reg r b (m, s) (m, s\<lparr>s_results := MarkCommitted task key sig (s_results s)\<rparr>)"
| do_clock: "store_step reg r b (m, s) (m, SetClock clk s)"
| do_create: "Create reg t m = (res, m') \<Longrightarrow> store_step reg r b (m, s) (m', s)"
| do_publish: "Publish_store vid (m, s) = (res, m', s') \<Longrightarrow> store_step reg r b (m, s) (m', s')"
| do_rollback: "Rollback_store vid (m, s) = (res, m', s') \<Longrightarrow> store_step reg r b (m, s) (m', s')"

inductive_cases store_stepE: "store_step reg r b (m, s) (m', s')"

lemma journal_sound_frame [simp]:
  "journal_sound (set_entry r k e s) = journal_sound s"
  "journal_sound (s\<lparr>s_now := c\<rparr>) = journal_sound s"
  "journal_sound (s\<lparr>s_results := cr\<rparr>) = journal_sound s"
  "journal_sound (s\<lparr>s_cache := ca\<rparr>) = journal_sound s"
  by (simp_all add: journal_sound_def)

lemma journal_sound_run_hook [simp]: "journal_sound (run_hook calls s) = journal_sound s"
  using run_hook_frame by (simp add: journal_sound_def)

lemma soundD:
  assumes "sound r b (m, s)"
  shows "manager_wf m" "full_hook m" "clean_ids m" "store_wf r s" "journal_sound s" "coherent r b m s"
  using assms by (simp_all add: sound_def)

lemma sound_frame:
  "sound r b (m, s) \<Longrightarrow> sound r b (m, s\<lparr>s_now := c\<rparr>)"
  "sound r b (m, s) \<Longrightarrow> sound r b (m, s\<lparr>s_results := cr\<rparr>)"
  by (simp_all add: sound_def store_wf_frame)

text \<open>Every write is an update at one key, possibly after a clock reading.\<close>

lemma sound_set_entry:
  "sound r b (m, s) \<Longrightarrow> (\<And>x. e = Some x \<Longrightarrow> fits_key k x) \<Longrightarrow> sound r b (m, set_entry r k e s)"
  by (simp add: sound_def store_wf_set_entry coherent_set_entry)

lemma sound_written: "sound r b (m, s) \<Longrightarrow> sound r b (m, set_entry r k (Some (written k fs v t)) s)"
  by (rule sound_set_entry) auto

lemma sound_restore:
  "sound r b (m, s) \<Longrightarrow> store_entries.fit_ops ops \<Longrightarrow> sound r b (m, restore (set_entry r) ops seen s)"
proof (induction ops arbitrary: seen s)
  case (Cons op ops)
  obtain k e where op: "op = (k, e)" by (cases op)
  with Cons.prems have "store_entries.fit_ops ops" "sound r b (m, set_entry r k e s)"
    by (auto simp: store_entries.fit_ops_def intro: sound_set_entry)
  with Cons op show ?case by simp
qed simp

lemma sound_journal:
  "sound r b (m, s) \<Longrightarrow> journal_wf j \<Longrightarrow> (\<forall>op \<in> set (j_ops j). op_fits op) \<Longrightarrow>
     sound r b (m, s\<lparr>s_journal := j\<rparr>)"
  by (simp add: sound_def store_wf_journal journal_sound_def)

lemma ops_Journal_Clear: "j_ops (Journal_Clear batch j) = filter (\<lambda>op. op_BatchID op \<noteq> batch) (j_ops j)"
  by (simp add: Journal_Clear_def rebuildIndex_def)

lemma sound_forget:
  "sound r b (m, s) \<Longrightarrow> sound r b (m, s\<lparr>s_journal := Journal_Clear batch (s_journal s)\<rparr>)"
  using soundD(5) [of r b m s]
  by (intro sound_journal) (auto simp: Journal_Clear_wf ops_Journal_Clear journal_sound_def)

lemma sound_RollbackBatch:
  assumes "sound r b (m, s)" and "RollbackBatch r batch s = Some s'"
  shows "sound r b (m, s')"
proof -
  have "store_entries.fit_ops (undo_log (OpsFor (s_journal s) batch))"
    using soundD(5) [OF assms(1)] by (intro fit_undo_log OpsFor_fits)
  then show ?thesis
    using assms RollbackBatch_eq [OF soundD(4,5) [OF assms(1)], of batch]
    by (auto intro: sound_forget sound_restore)
qed

lemma sound_append:
  assumes "sound r b (m, s)" and "EntryFor r key s = Some e"
  shows "sound r b (m, s\<lparr>s_journal := Journal_Append
           \<lparr>op_BatchID = batch, op_Segment = seg, op_Key = key, op_Before = e\<rparr> (s_journal s)\<rparr>)"
proof -
  note wf = soundD(4) [OF assms(1)]
  have "op_fits \<lparr>op_BatchID = batch, op_Segment = seg, op_Key = key, op_Before = e\<rparr>"
    using assms(2) entries_Key [OF wf, of key] by (simp add: EntryFor_wf [OF wf] op_fits_def fits_key_def)
  then show ?thesis
    using assms(1) soundD(5) [OF assms(1)] journal_wf_Append [OF store_wfD(4) [OF wf]]
    by (intro sound_journal) (simp_all add: journal_sound_def, simp add: Journal_Append_def)
qed

lemma sound_read:
  assumes "sound r b (m, s)" and "no_at v" and "b \<Longrightarrow> known m v"
    and "ReadVersion r m key v s = Some (snap, s')"
  shows "sound r b (m, s')"
proof -
  let ?v = "read_version m v"
  note s = soundD [OF assms(1)]
  have v: "no_at ?v" "b \<longrightarrow> known m ?v"
    using assms(2,3) known_active [OF s(1)] known_no_at [OF s(3)] by (auto simp: read_version_def)
  have "coherent r b m (s\<lparr>s_cache := Cache_Put (s_cache s) key ?v (fresh r m s key ?v)\<rparr>)"
    using s(1,3,6) v by (rule coherent_put)
  moreover have "store_wf r (s\<lparr>s_cache := Cache_Put (s_cache s) key ?v (fresh r m s key ?v)\<rparr>)"
    using s(4) by (simp add: store_wf_def cache_wf_Put)
  ultimately have put: "sound r b (m, s\<lparr>s_cache := Cache_Put (s_cache s) key ?v (fresh r m s key ?v)\<rparr>)"
    using assms(1) by (simp add: sound_def)
  have "read_cached r m key ?v s = Some (snap, s')" using assms(4) by (simp add: ReadVersion_eq)
  then show ?thesis by (rule read_cached_state [OF s(4)]) (use put assms(1) in simp_all)
qed

lemma clean_ids_evolve: "restates (m_versions m) (m_versions m') \<Longrightarrow> clean_ids m \<Longrightarrow> clean_ids m'"
  by (simp add: clean_ids_def restates_def)

lemma restates_Publish:
  assumes "manager_wf m" and "Publish vid m = (res, m', calls)"
  shows "restates (m_versions m) (m_versions m')"
  using assms(1)
proof (cases rule: Publish_cases [where vid = vid])
  case (published v)
  then show ?thesis using assms restates_after_publish [OF published] by (auto simp: Publish_wf_eq)
qed (use assms in auto)

lemma restates_Rollback:
  assumes "manager_wf m" and "Rollback vid m = (res, m', calls)"
  shows "restates (m_versions m) (m_versions m')"
proof (cases rule: Rollback_cases [where m = m and vid = vid])
  case (rolled t p)
  then show ?thesis using assms restates_after_rollback by (auto simp: Rollback_wf_eq)
qed (use assms in auto)

lemma sound_transition:
  assumes "sound r b (m, s)" and "manager_wf m'" and "restates (m_versions m) (m_versions m')"
    and "(m' = m \<and> calls = []) \<or> (\<exists>ids. calls = hook_calls (m_hook m) ids \<and> m_hook m' = m_hook m)"
  shows "sound r b (m', run_hook calls s)"
  using coherent_transition [OF soundD(2,6) [OF assms(1)] assms(4)] assms(1,2)
    clean_ids_evolve [OF assms(3)]
  by (simp add: sound_def store_wf_run_hook)

lemma sound_create:
  assumes "clean_registry reg" and "sound r b (m, s)" and "Create reg t m = (Inr v, m')"
  shows "sound r b (m', s)"
proof -
  note s = soundD [OF assms(2)]
  have c: "v_ID v = version_id t (Suc (map_size (m_versions m)))" "no_at t"
    "m_versions m' = fmupd (v_ID v) v (m_versions m)" "m_hook m' = m_hook m"
    using assms(1,3) by (auto simp: Create_Inr_iff Registry_Get_def clean_registry_def fmdom'_iff)
  then have clean: "clean_ids m'" using s(3) by (auto simp: clean_ids_def no_at_version_id)
  show ?thesis
    using s c clean coherent_Create [OF s(1) clean s(6) assms(3)] Create_wf [OF s(1) assms(3)]
    by (simp add: sound_def full_hook_def)
qed


lemma sound_publish:
  assumes "sound r b (m, s)" and "Publish_store vid (m, s) = (res, m', s')"
  shows "sound r b (m', s')"
proof -
  note m = soundD(1) [OF assms(1)]
  obtain calls where p: "Publish vid m = (res, m', calls)" "s' = run_hook calls s"
    using assms(2) by (auto simp: Publish_store_def split: prod.splits)
  show ?thesis
    unfolding p(2) using assms(1) Publish_wf [OF m p(1)] restates_Publish [OF m p(1)]
      Publish_outcome [OF m p(1)]
    by (rule sound_transition)
qed

lemma sound_rollback:
  assumes "sound r b (m, s)" and "Rollback_store vid (m, s) = (res, m', s')"
  shows "sound r b (m', s')"
proof -
  note m = soundD(1) [OF assms(1)]
  obtain calls where p: "Rollback vid m = (res, m', calls)" "s' = run_hook calls s"
    using assms(2) by (auto simp: Rollback_store_def split: prod.splits)
  show ?thesis
    unfolding p(2) using assms(1) Rollback_wf [OF m p(1)] restates_Rollback [OF m p(1)]
      Rollback_outcome [OF m p(1)]
    by (rule sound_transition)
qed

lemmas sound_writes = sound_written sound_set_entry sound_frame

lemma store_step_sound:
  assumes "clean_registry reg" and "store_step reg r b ms ms'"
  shows "sound r b ms \<Longrightarrow> sound r b ms'"
  using assms(2)
proof (cases rule: store_step.cases)
  case (do_create t m res m' s)
  assume "sound r b ms"
  with do_create show ?thesis
    using sound_create [OF assms(1)] by (cases res) (auto simp: Create_Inl_iff)
next
  case (do_clock m s clk)
  assume "sound r b ms"
  with do_clock show ?thesis by (simp add: SetClock_def sound_frame)
next
  case (do_compare key fs w s ok s' m)
  assume "sound r b ms"
  with do_compare show ?thesis
    using CompareAndWrite_eq [OF soundD(4), of r b m s key fs w]
    by (auto split: if_splits intro: sound_written sound_frame)
qed (auto simp: store_op_eqs [OF soundD(4)] intro: sound_read sound_written sound_frame sound_append
    sound_forget sound_RollbackBatch sound_publish sound_rollback sound_set_entry)

lemma store_steps_sound:
  assumes "clean_registry reg" and "(store_step reg r b)\<^sup>*\<^sup>* ms ms'" and "sound r b ms"
  shows "sound r b ms'"
  using assms(2,3) by (induction rule: rtranclp_induct) (blast intro: store_step_sound [OF assms(1)])+

text \<open>The state the server starts from: a new manager and a store bound to it.\<close>

definition fresh_state :: "Router \<Rightarrow> clock \<Rightarrow> clock \<Rightarrow> Manager \<times> Store" where
  "fresh_state r c1 c2 = (case New r c2 (NewManager c1) of (s, m) \<Rightarrow> (m, s))"

lemma sound_fresh_state: "router_wf r \<Longrightarrow> sound r b (fresh_state r c1 c2)"
  using store_wf_New [of r c2 "NewManager c1"]
  by (simp add: fresh_state_def New_def sound_def manager_wf_SetCacheHook [OF manager_wf_New]
      full_hook_def clean_ids_def journal_sound_def coherent_def cache_agrees_def cached_within_def
      Cache_Get_def NewReadCache_def)
    (simp add: SetCacheHook_def NewManager_def NewJournal_def)

definition reachable :: "Registry \<Rightarrow> Router \<Rightarrow> bool \<Rightarrow> Manager \<times> Store \<Rightarrow> bool" where
  "reachable reg r b ms \<longleftrightarrow> (\<exists>c1 c2. (store_step reg r b)\<^sup>*\<^sup>* (fresh_state r c1 c2) ms)"

lemma reachable_sound:
  "clean_registry reg \<Longrightarrow> router_wf r \<Longrightarrow> reachable reg r b ms \<Longrightarrow> sound r b ms"
  unfolding reachable_def using store_steps_sound sound_fresh_state by blast

text \<open>Reads in a sound state.\<close>

lemma ReadVersion_sound:
  assumes "sound r b (m, s)" and "visible b m (read_version m v)"
  shows "\<exists>s'. ReadVersion r m key v s = Some (fresh r m s key (read_version m v), s') \<and>
           entries r s' = entries r s"
proof -
  note s = soundD [OF assms(1)]
  have "map_option fst (read_cached r m key (read_version m v) s) = Some (fresh r m s key (read_version m v))"
    using s(6,4) assms(2) by (rule read_cached_fresh)
  then obtain s' where "read_cached r m key (read_version m v) s = Some (fresh r m s key (read_version m v), s')"
    by auto
  then show ?thesis using entries_read_cached [OF s(4)] by (simp add: ReadVersion_eq)
qed

lemma visible_active [simp]: "manager_wf m \<Longrightarrow> visible b m (resolveActiveVersionID m)"
  by (simp add: visible_def known_active)

lemma Read_sound:
  assumes "sound r b (m, s)"
  shows "\<exists>s'. Read r m key s = Some (fresh r m s key (resolveActiveVersionID m), s') \<and>
           entries r s' = entries r s"
  using ReadVersion_sound [OF assms, of "''''" key] soundD(1) [OF assms]
  by (simp add: Read_eq read_version_def)

text \<open>A write puts the new entry behind the fresh view of its key and leaves every other view alone.\<close>

lemma Write_sound:
  assumes "sound r b (m, s)"
  shows "\<exists>s'. Write r key fs v s = Some s' \<and> sound r b (m, s') \<and>
           fresh r m s' key x = entrySnapshot m (written key fs v (s_now s 0)) x \<and>
           (\<forall>j. j \<noteq> key \<longrightarrow> fresh r m s' j y = fresh r m s j y)"
proof -
  let ?e = "written key fs v (s_now s 0)" and ?s = "s\<lparr>s_now := \<lambda>n. s_now s (Suc n)\<rparr>"
  have ent: "entries r (set_entry r key (Some ?e) ?s) = (entries r s)(key \<mapsto> ?e)"
    using entries_set_entry [OF soundD(4) [OF sound_frame(1) [OF assms]], of key "Some ?e"] by simp
  have "sound r b (m, set_entry r key (Some ?e) ?s)"
    using sound_frame(1) [OF assms] by (rule sound_written)
  with ent show ?thesis
    using Write_eq [OF soundD(4) [OF assms]] by (simp add: fresh_def)
qed

lemma written_snapshot:
  "snap_Entity (entrySnapshot m (written key fs v t) x) = key"
  "snap_VersionID (entrySnapshot m (written key fs v t) x) = v"
  "snap_WrittenAt (entrySnapshot m (written key fs v t) x) = t"
  "fmlookup (snap_Fields (entrySnapshot m (written key fs v t) x)) n =
     (case allowed_fields m x of None \<Rightarrow> fmlookup fs n
      | Some layout \<Rightarrow> if n \<in> set layout then fmlookup fs n else None)"
  by (simp_all add: entrySnapshot_def Entry_Snapshot_def written_def Let_def split: option.splits)

section \<open>Properties\<close>

text \<open>A sound state to evaluate on.\<close>

lemma clean_demo:
  assumes "\<And>k. fmlookup (m_versions m) k \<noteq> None \<Longrightarrow> k = ''user_profile-v1'' \<or> k = ''user_profile-v2''"
  shows "clean_ids m"
proof -
  have "no_at ''user_profile-v1''" "no_at ''user_profile-v2''" by (simp_all add: no_at_def)
  then show ?thesis using assms by (force simp: clean_ids_def fmdom'_iff)
qed

lemma empty_cache_coherent: "s_cache s = fmempty \<Longrightarrow> coherent r b m s"
  by (simp add: coherent_def cache_agrees_def cached_within_def Cache_Get_def)

lemma cache_demo_written: "s_cache demo_written = fmempty" "s_journal demo_written = NewJournal"
  by (simp_all add: demo_written_def demo_store_def New_def NewReadCache_def Cache_InvalidateEntity_def
      drop_entries_def)

lemma sound_demo: "sound demo_router b (demo_published, demo_written)"
proof -
  have "clean_ids demo_published"
    by (rule clean_demo) (simp add: demo_published_eq demo_created_eq split: if_splits)
  then show ?thesis
    by (simp add: sound_def wf_demo_published full_hook_def demo_published_eq store_wf_demo_written
        empty_cache_coherent cache_demo_written journal_sound_def NewJournal_def)
qed

lemma clean_seeded: "clean_registry seeded"
  by (auto simp: clean_registry_def seeded_def no_at_def)

text \<open>C1: A read under the active version, cached or not, returns what the stored entry gives under
  the version that is active now, and changes no entry, in every state reachable by any sequence of
  writes, merges, guarded writes, deletes, journal and batch operations, of creations, publications
  and rollbacks of versions, of reads under the active version and of explicit reads under
  identifiers without an at sign (of versions that exist, when \<open>b\<close>), where no table has an at sign
  in its identifier and the router is not resized. Explicit reads under an identifier with an at
  sign are excluded because they may share a cache key with another entity
  (\<open>cache_key_collision\<close>). The service makes no explicit reads, and the identifiers of its two
  tables have no at sign, so its own reads are never stale (\<open>http_read_never_stale\<close>).\<close>

theorem read_never_stale:
  assumes "clean_registry reg" and "router_wf r" and "reachable reg r b (m, s)"
  shows "\<exists>s'. Read r m key s = Some (fresh r m s key (resolveActiveVersionID m), s') \<and>
           entries r s' = entries r s"
  using reachable_sound [OF assms] by (rule Read_sound)

lemma read_never_stale_witness:
  "\<exists>m s s' snap. reachable seeded demo_router False (m, s) \<and>
     Read demo_router m demo_user s = Some (snap, s') \<and>
     fmlookup (snap_Fields snap) ''age'' = Some (IntValue 30)"
proof -
  obtain m s where ms: "fresh_state demo_router int int = (m, s)" by force
  have sound: "sound demo_router False (m, s)" using sound_fresh_state [OF router_wf_demo] ms by metis
  note wf = soundD(4) [OF sound]
  let ?s = "set_entry demo_router demo_user (Some (written demo_user demo_fields '''' 7)) s"
  have "WriteAt demo_router demo_user demo_fields '''' 7 s = Some ?s" by (rule WriteAt_eq [OF wf])
  then have "store_step seeded demo_router False (m, s) (m, ?s)" by (rule do_write_at)
  then have "(store_step seeded demo_router False)\<^sup>*\<^sup>* (fresh_state demo_router int int) (m, ?s)"
    using ms by simp
  then have reach: "reachable seeded demo_router False (m, ?s)" unfolding reachable_def by blast
  have "m_active m = None" using ms by (auto simp: fresh_state_def New_def SetCacheHook_def NewManager_def)
  then have "resolveActiveVersionID m = ''''"
    by (simp add: resolveActiveVersionID_def ResolveActive_def active_record_def)
  then have "fmlookup (snap_Fields (fresh demo_router m ?s demo_user (resolveActiveVersionID m))) ''age'' =
      Some (IntValue 30)"
    by (simp add: fresh_def entries_set_entry [OF wf] entrySnapshot_def allowed_fields_def
        Entry_Snapshot_def written_def demo_fields_def Let_def)
  with read_never_stale [OF clean_seeded router_wf_demo reach, of demo_user] reach show ?thesis by blast
qed

text \<open>When explicit reads name existing versions only, the same holds for a read under any of
  them: what \<open>ReadVersion\<close> returns is never stale.\<close>

theorem version_read_never_stale:
  assumes "clean_registry reg" and "router_wf r" and "reachable reg r True (m, s)" and "known m v"
  shows "\<exists>s'. ReadVersion r m key v s = Some (fresh r m s key (read_version m v), s') \<and>
           entries r s' = entries r s"
proof -
  have sound: "sound r True (m, s)" using assms(1-3) by (rule reachable_sound)
  have "visible True m (read_version m v)"
    using assms(4) known_active [OF soundD(1) [OF sound]] by (simp add: visible_def read_version_def)
  with sound show ?thesis by (rule ReadVersion_sound)
qed

lemma version_read_never_stale_witness:
  "\<exists>m s s'. reachable seeded demo_router True (m, s) \<and>
     ReadVersion demo_router m demo_user '''' s = Some (EmptySnapshot demo_user '''', s')"
proof -
  obtain m s where ms: "fresh_state demo_router int int = (m, s)" by force
  have reach: "reachable seeded demo_router True (m, s)"
    unfolding reachable_def ms [symmetric] by blast
  have "m_active m = None" using ms by (auto simp: fresh_state_def New_def SetCacheHook_def NewManager_def)
  then have active: "resolveActiveVersionID m = ''''"
    by (simp add: resolveActiveVersionID_def ResolveActive_def active_record_def)
  have "New demo_router int (NewManager int) = (s, m)"
    using ms by (simp add: fresh_state_def split: prod.splits)
  then have "entries demo_router s demo_user = None" by (rule entries_New [OF router_wf_demo])
  then have "fresh demo_router m s demo_user (read_version m '''') = EmptySnapshot demo_user ''''"
    using active by (simp add: fresh_def read_version_def)
  with version_read_never_stale [OF clean_seeded router_wf_demo reach, of "''''" demo_user] reach
  show ?thesis by (auto simp: known_def)
qed

text \<open>C3: Read your writes. A read after a write returns, whatever was cached before, exactly the
  written fields that the layout of the active version admits, with the writing version and the
  clock's time; reads of other entities are not affected.\<close>

theorem write_then_read:
  assumes "sound r b (m, s)"
  shows "\<exists>s' snap s''. Write r key fs v s = Some s' \<and> Read r m key s' = Some (snap, s'') \<and>
           snap_Entity snap = key \<and> snap_VersionID snap = v \<and> snap_WrittenAt snap = s_now s 0 \<and>
           (\<forall>n. fmlookup (snap_Fields snap) n =
              (case allowed_fields m (resolveActiveVersionID m) of
                 None \<Rightarrow> fmlookup fs n
               | Some layout \<Rightarrow> if n \<in> set layout then fmlookup fs n else None)) \<and>
           (\<forall>j. j \<noteq> key \<longrightarrow> map_option fst (Read r m j s') = map_option fst (Read r m j s))"
proof -
  let ?v = "resolveActiveVersionID m"
  obtain s' where s': "Write r key fs v s = Some s'" "sound r b (m, s')"
    "fresh r m s' key ?v = entrySnapshot m (written key fs v (s_now s 0)) ?v"
    "\<forall>j. j \<noteq> key \<longrightarrow> fresh r m s' j ?v = fresh r m s j ?v"
    using Write_sound [OF assms] by blast
  obtain s'' where "Read r m key s' = Some (entrySnapshot m (written key fs v (s_now s 0)) ?v, s'')"
    using Read_sound [OF s'(2), of key] s'(3) by auto
  moreover have "map_option fst (Read r m j s') = map_option fst (Read r m j s)" if "j \<noteq> key" for j
    using that s'(4) Read_sound [OF s'(2), of j] Read_sound [OF assms, of j] by auto
  ultimately show ?thesis using s'(1) written_snapshot [of m key fs v "s_now s 0" ?v] by blast
qed

lemma write_then_read_witness:
  "\<exists>s' snap s''. Write demo_router demo_user demo_fields ''w'' demo_written = Some s' \<and>
     Read demo_router demo_published demo_user s' = Some (snap, s'') \<and>
     fmlookup (snap_Fields snap) ''age'' = Some (IntValue 30) \<and>
     fmlookup (snap_Fields snap) ''nick'' = None"
proof -
  have active: "resolveActiveVersionID demo_published = ''user_profile-v1''"
    by (simp add: resolveActiveVersionID_def ResolveActive_def active_record_def demo_published_eq
        IsActive_def)
  have "allowed_fields demo_published ''user_profile-v1'' =
      Some [''age'', ''city'', ''level'', ''active_days'', ''score'', ''is_vip'']"
    by (simp add: allowed_fields_def Manager_Get_def demo_published_eq Table_FieldNames_def
        UserProfileTable_def)
  then show ?thesis
    using write_then_read [OF sound_demo [of True], of demo_user demo_fields "''w''"] active
    by (fastforce simp: demo_fields_def)
qed

text \<open>C6: A publication is visible at once: after it every read is made under the new version and
  filtered to its field layout, whatever reads were cached before.\<close>

theorem publish_visible_at_once:
  assumes "sound r b (m, s)" and "Publish_store vid (m, s) = (Inr w, m', s')"
  shows "\<exists>s''. Read r m' key s' = Some (fresh r m' s key vid, s'') \<and>
           allowed_fields m' vid = (if v_Fields w = [] then None else Some (v_Fields w))"
proof -
  note wf = soundD(1) [OF assms(1)]
  obtain calls where p: "Publish vid m = (Inr w, m', calls)" "s' = run_hook calls s"
    using assms(2) by (auto simp: Publish_store_def split: prod.splits)
  show ?thesis
    using wf
  proof (cases rule: Publish_cases [where vid = vid])
    case (published v)
    have m': "w = published_record m v" "m_versions m' = after_publish vid v m" "m_active m' = Some vid"
      using p Publish_wf_eq [OF wf published] by auto
    have "fmlookup (m_versions m') vid = Some w"
      using m' published by (simp add: after_publish_lookup)
    moreover have "v_State w = VersionPublished" "v_ID w = vid"
      using m' manager_wfD(2) [OF wf published(1)] by (simp_all add: published_record_def)
    ultimately have active: "resolveActiveVersionID m' = vid" and get: "Manager_Get m' vid = Some w"
      using m' by (simp_all add: resolveActiveVersionID_def ResolveActive_def active_record_def
          IsActive_def Manager_Get_def)
    have "fresh r m' s' key vid = fresh r m' s key vid" using p(2) by (simp add: fresh_def)
    moreover have "vid \<noteq> ''''" using manager_wfD(3) [OF wf published(1)] .
    ultimately show ?thesis
      using Read_sound [OF sound_publish [OF assms], of key] active get
      by (auto simp: allowed_fields_def)
  qed (use p in auto)
qed

lemma publish_visible_at_once_witness:
  "\<exists>w m' s' s''. Publish_store ''user_profile-v2'' (demo_published, demo_written) = (Inr w, m', s') \<and>
     Read demo_router m' demo_user s' =
       Some (fresh demo_router m' demo_written demo_user ''user_profile-v2'', s'')"
proof -
  obtain v where v: "fmlookup (m_versions demo_published) ''user_profile-v2'' = Some v"
    "v_State v = VersionDraft"
    by (simp add: demo_published_eq demo_created_eq)
  obtain w m' s' where "Publish_store ''user_profile-v2'' (demo_published, demo_written) = (Inr w, m', s')"
    using Publish_wf_eq [OF wf_demo_published v] by (simp add: Publish_store_def)
  with publish_visible_at_once [OF sound_demo this] show ?thesis by blast
qed


text \<open>A read under an identifier that is not a version yet is cached unfiltered and outlives the
  creation of that version: the next read under it still returns a field that the new version's
  layout does not have.\<close>

theorem read_before_create_stays_stale:
  assumes "sound r b (m, s)" and "Create reg t m = (Inr v, m')"
    and miss: "Cache_Get (s_cache s) key (v_ID v) = None"
    and e: "entries r s key = Some e" "fmlookup (e_Fields e) n = Some x" "n \<notin> set (v_Fields v)"
  shows "\<exists>s' snap s''. ReadVersion r m key (v_ID v) s = Some (snap, s') \<and>
           ReadVersion r m' key (v_ID v) s' = Some (snap, s'') \<and>
           fmlookup (snap_Fields snap) n = Some x"
proof -
  note wf = soundD(1) [OF assms(1)] and st = soundD(4) [OF assms(1)]
  have none: "fmlookup (m_versions m) (v_ID v) = None" and "v_ID v \<noteq> ''''"
    using Create_wf [OF wf assms(2)] assms(2) by (auto simp: Create_Inr_iff)
  have read_version: "read_version m (v_ID v) = v_ID v" "read_version m' (v_ID v) = v_ID v"
    using \<open>v_ID v \<noteq> ''''\<close> by (simp_all add: read_version_def)
  let ?snap = "entrySnapshot m e (v_ID v)"
  let ?s' = "s\<lparr>s_cache := Cache_Put (s_cache s) key (v_ID v) ?snap\<rparr>"
  have "ReadVersion r m key (v_ID v) s = Some (?snap, ?s')"
    by (simp add: ReadVersion_eq read_version read_cached_def miss read_entry_wf [OF st] e Let_def)
  moreover have "ReadVersion r m' key (v_ID v) ?s' = Some (?snap, ?s')"
    by (simp add: ReadVersion_eq read_version read_cached_def)
  moreover have "fmlookup (snap_Fields ?snap) n = Some x"
    using none e(2) by (simp add: entrySnapshot_def allowed_fields_def Manager_Get_def Entry_Snapshot_def
        Let_def)
  ultimately show ?thesis by blast
qed

lemma read_before_create_stays_stale_witness:
  "\<exists>v m' s' snap s''. Create seeded ''user_profile'' demo_published = (Inr v, m') \<and>
     ''nick'' \<notin> set (v_Fields v) \<and>
     ReadVersion demo_router demo_published demo_user (v_ID v) demo_written = Some (snap, s') \<and>
     ReadVersion demo_router m' demo_user (v_ID v) s' = Some (snap, s'') \<and>
     fmlookup (snap_Fields snap) ''nick'' = Some (StringValue ''ann'')"
proof -
  obtain v m' where c: "Create seeded ''user_profile'' demo_published = (Inr v, m')"
    using Create_ok [of seeded "''user_profile''" demo_published] by (auto simp: Get_seeded)
  then have layout: "''nick'' \<notin> set (v_Fields v)"
    by (auto simp: Create_Inr_iff Get_seeded Table_FieldNames_def UserProfileTable_def)
  have e: "entries demo_router demo_written demo_user =
      Some (written demo_user demo_fields (version_id ''t'' 10) 1000)"
    "fmlookup (e_Fields (written demo_user demo_fields (version_id ''t'' 10) 1000)) ''nick'' =
      Some (StringValue ''ann'')"
    by (simp_all add: entries_demo_written written_def demo_fields_def)
  have "Cache_Get (s_cache demo_written) demo_user (v_ID v) = None"
    by (simp add: cache_demo_written Cache_Get_def)
  from read_before_create_stays_stale [OF sound_demo c this e layout] c layout show ?thesis by blast
qed

text \<open>The cache key does not separate an entity from a version that holds an at sign: after a
  read of \<open>f\<close> under \<open>x@v\<close>, a read of the entity \<open>f@x\<close> under the active version \<open>v\<close> returns the
  snapshot of \<open>f\<close>.\<close>

theorem cache_key_collision:
  assumes "store_wf r s" and "Cache_Get (s_cache s) f (x @ ''@'' @ resolveActiveVersionID m) = None"
  shows "\<exists>snap s' s''. ReadVersion r m f (x @ ''@'' @ resolveActiveVersionID m) s = Some (snap, s') \<and>
           Read r m (EntityKey (key_string f @ ''@'' @ x)) s' = Some (snap, s'') \<and>
           snap_Entity snap = f"
proof -
  let ?v = "resolveActiveVersionID m" and ?e = "EntityKey (key_string f @ ''@'' @ x)"
  let ?w = "x @ ''@'' @ ?v"
  let ?snap = "fresh r m s f ?w"
  let ?s' = "s\<lparr>s_cache := Cache_Put (s_cache s) f ?w ?snap\<rparr>"
  have "ReadVersion r m f ?w s = Some (?snap, ?s')"
    using assms by (simp add: ReadVersion_eq read_version_def read_cached_def read_entry_wf fresh_def Let_def)
  moreover have "cacheKey ?e ?v = cacheKey f ?w" by (simp add: cacheKey_def)
  then have "Read r m ?e ?s' = Some (?snap, ?s')"
    by (simp add: Read_def read_cached_def Cache_Get_def Cache_Put_def)
  moreover have "snap_Entity ?snap = f"
    using entries_Key [OF assms(1), of f]
    by (auto simp: fresh_def EmptySnapshot_def entrySnapshot_def Entry_Snapshot_def Let_def
        split: option.splits)
  ultimately show ?thesis by blast
qed

lemma cache_key_collision_witness:
  "\<exists>snap s' s''. ReadVersion demo_router demo_created demo_user ''x@'' demo_written = Some (snap, s') \<and>
     Read demo_router demo_created (EntityKey ''user_1@x'') s' = Some (snap, s'') \<and>
     snap_Entity snap = demo_user"
proof -
  have "resolveActiveVersionID demo_created = ''''"
    by (simp add: resolveActiveVersionID_def ResolveActive_def active_record_def demo_created_eq)
  with cache_key_collision [OF store_wf_demo_written, of demo_user "''x''" demo_created] show ?thesis
    by (simp add: cache_demo_written Cache_Get_def demo_user_def)
qed

end
