(* ===== verification/TtlScan.thy ===== *)
theory TtlScan
  imports ReadPath
begin

text \<open>
  \<open>internal/ttl/ttl.go\<close>: the scanner that removes the entries older than its time to live. The
  scan asks the store for its shard count once, and for the keys of each shard when it comes to
  it; \<open>iter\<close> gives the order in which the run time ranges over each shard's map. The main lemmas
  say that a scan removes exactly the expired entries, whatever that order, and counts them.
\<close>

section \<open>The scanner\<close>

record Scanner =
  sc_ttl :: duration

definition NewScanner :: "duration \<Rightarrow> Scanner" where
  "NewScanner ttl = \<lparr>sc_ttl = (if ttl \<le> 0 then 24 * nanos_per_hour else ttl)\<rparr>"

definition IsExpired :: "Scanner \<Rightarrow> duration \<Rightarrow> bool" where
  "IsExpired sc age \<longleftrightarrow> age > sc_ttl sc"

definition ExpireKey :: "Router \<Rightarrow> Scanner \<Rightarrow> EntityKey \<Rightarrow> time \<Rightarrow> Store \<Rightarrow> (bool \<times> Store) go" where
  "ExpireKey r sc key now s = do {
     writtenAt \<leftarrow> WrittenAt r key s;
     case writtenAt of
       None \<Rightarrow> Some (False, s)
     | Some t \<Rightarrow>
         if \<not> IsExpired sc (time_sub now t) then Some (False, s)
         else do { s \<leftarrow> Delete r key s; Some (True, s) }
   }"

fun scan_keys :: "Router \<Rightarrow> Scanner \<Rightarrow> time \<Rightarrow> EntityKey list \<Rightarrow> nat \<Rightarrow> Store \<Rightarrow> (nat \<times> Store) go" where
  "scan_keys r sc now [] expired s = Some (expired, s)"
| "scan_keys r sc now (key # keys) expired s = do {
     (hit, s) \<leftarrow> ExpireKey r sc key now s;
     scan_keys r sc now keys (if hit then expired + 1 else expired) s
   }"

fun scan_shards ::
  "Router \<Rightarrow> (nat \<Rightarrow> iteration) \<Rightarrow> Scanner \<Rightarrow> time \<Rightarrow> nat list \<Rightarrow> nat \<Rightarrow> Store \<Rightarrow> (nat \<times> Store) go" where
  "scan_shards r iter sc now [] expired s = Some (expired, s)"
| "scan_shards r iter sc now (shard # shards) expired s = do {
     (expired, s) \<leftarrow> scan_keys r sc now (Keys (iter shard) (int shard) s) expired s;
     scan_shards r iter sc now shards expired s
   }"

definition Scan :: "Router \<Rightarrow> (nat \<Rightarrow> iteration) \<Rightarrow> Scanner \<Rightarrow> time \<Rightarrow> Store \<Rightarrow> (nat \<times> Store) go" where
  "Scan r iter sc now s = scan_shards r iter sc now [0 ..< nat (Store_ShardCount s)] 0 s"

section \<open>Ranging over the keys of a shard\<close>

definition ranges :: "iteration \<Rightarrow> bool" where
  "ranges iter \<longleftrightarrow> (\<forall>xs. mset (iter xs) = mset xs)"

lemma ranges_set: "ranges iter \<Longrightarrow> set (iter xs) = set xs"
  unfolding ranges_def by (metis set_mset_mset)

lemma ranges_distinct: "ranges iter \<Longrightarrow> distinct (iter xs) = distinct xs"
  unfolding ranges_def by (metis mset_eq_imp_distinct_iff)

lemma shard_lookup:
  assumes "store_wf r s" and "i < length (s_shards s)"
  shows "fmlookup (s_shards s ! i) k = (if shard_of r k = i then entries r s k else None)"
  using assms unfolding store_wf_def shards_wf_def entries_def by (metis option.exhaust)

lemma Keys_set:
  assumes "store_wf r s" and "ranges iter" and "i < length (s_shards s)"
  shows "set (Keys iter (int i) s) = {k. shard_of r k = i \<and> entries r s k \<noteq> None}"
  using assms(2,3) shard_lookup [OF assms(1,3)]
  by (auto simp: Keys_def ranges_set fmdom'_iff split: if_splits)

lemma Keys_distinct: "ranges iter \<Longrightarrow> distinct (Keys iter i s)"
  by (simp add: Keys_def ranges_distinct)

lemma finite_entries:
  assumes "store_wf r s"
  shows "finite {k. entries r s k \<noteq> None}"
proof (rule finite_subset)
  show "{k. entries r s k \<noteq> None} \<subseteq> (\<Union>i < length (s_shards s). fmdom' (s_shards s ! i))"
  proof
    fix k
    assume "k \<in> {k. entries r s k \<noteq> None}"
    then have "k \<in> fmdom' (s_shards s ! shard_of r k)" by (auto simp: entries_def fmdom'_iff)
    then show "k \<in> (\<Union>i < length (s_shards s). fmdom' (s_shards s ! i))"
      using store_wfD(5) [OF assms, of k] by blast
  qed
qed simp

section \<open>What a scan removes\<close>

definition expired :: "Scanner \<Rightarrow> time \<Rightarrow> Entry \<Rightarrow> bool" where
  "expired sc now e \<longleftrightarrow> IsExpired sc (time_sub now (e_WrittenAt e))"

definition expired_in :: "Router \<Rightarrow> Scanner \<Rightarrow> time \<Rightarrow> Store \<Rightarrow> EntityKey \<Rightarrow> bool" where
  "expired_in r sc now s k \<longleftrightarrow> (\<exists>e. entries r s k = Some e \<and> expired sc now e)"

text \<open>The entries with the expired ones of a set of keys removed.\<close>

definition swept :: "Router \<Rightarrow> Scanner \<Rightarrow> time \<Rightarrow> EntityKey set \<Rightarrow> Store \<Rightarrow> EntityKey \<Rightarrow> Entry option" where
  "swept r sc now K s k = (if k \<in> K \<and> expired_in r sc now s k then None else entries r s k)"

lemma ExpireKey_wf:
  assumes "store_wf r s"
  shows "ExpireKey r sc key now s =
     Some (if expired_in r sc now s key then (True, set_entry r key None s) else (False, s))"
  using assms
  by (auto simp: ExpireKey_def WrittenAt_wf Delete_eq expired_in_def expired_def split: option.splits)

lemma store_wf_remove: "store_wf r s \<Longrightarrow> store_wf r (set_entry r k None s)"
  by (rule store_wf_set_entry) auto

lemma scan_keys_wf:
  "store_wf r s \<Longrightarrow> distinct keys \<Longrightarrow>
     \<exists>s'. scan_keys r sc now keys n s = Some (n + card {k \<in> set keys. expired_in r sc now s k}, s') \<and>
       store_wf r s' \<and> entries r s' = swept r sc now (set keys) s"
proof (induction keys arbitrary: n s)
  case Nil
  then show ?case by (simp add: swept_def fun_eq_iff)
next
  case (Cons key keys)
  let ?hit = "expired_in r sc now s key"
  let ?s = "if ?hit then set_entry r key None s else s"
  have wf: "store_wf r ?s" using Cons.prems(1) by (simp add: store_wf_remove)
  have ent: "entries r ?s k = (if k = key \<and> ?hit then None else entries r s k)" for k
    using entries_set_entry [OF Cons.prems(1)] by simp
  have same: "expired_in r sc now ?s k \<longleftrightarrow> expired_in r sc now s k" if "k \<noteq> key" for k
    using that ent by (simp add: expired_in_def)
  have keys: "{k \<in> set keys. expired_in r sc now ?s k} = {k \<in> set keys. expired_in r sc now s k}"
    using Cons.prems(2) by (intro Collect_cong conj_cong refl same) auto
  have split: "{k \<in> set (key # keys). expired_in r sc now s k} =
      (if ?hit then insert key {k \<in> set keys. expired_in r sc now s k}
       else {k \<in> set keys. expired_in r sc now s k})" by auto
  have "card {k \<in> set (key # keys). expired_in r sc now s k} =
      (if ?hit then 1 else 0) + card {k \<in> set keys. expired_in r sc now s k}"
    unfolding split using Cons.prems(2) by simp
  moreover obtain s' where s': "store_wf r s'"
    "scan_keys r sc now keys (if ?hit then n + 1 else n) ?s =
       Some ((if ?hit then n + 1 else n) + card {k \<in> set keys. expired_in r sc now ?s k}, s')"
    "entries r s' = swept r sc now (set keys) ?s"
    using Cons.IH [OF wf] Cons.prems(2) by fastforce
  moreover have "swept r sc now (set keys) ?s = swept r sc now (set (key # keys)) s"
    using same ent Cons.prems(2) by (force simp: swept_def fun_eq_iff)
  ultimately show ?case
    using ExpireKey_wf [OF Cons.prems(1), of sc key now] keys by (auto split: if_splits)
qed


lemma scan_keys_length:
  "store_wf r s \<Longrightarrow> store_wf r s' \<Longrightarrow> length (s_shards s') = length (s_shards s)"
  by (simp add: store_wfD(2))

lemma scan_shards_wf:
  assumes iter: "\<And>i. ranges (iter i)"
  shows "store_wf r s \<Longrightarrow> distinct shards \<Longrightarrow> (\<forall>i \<in> set shards. i < length (s_shards s)) \<Longrightarrow>
     \<exists>s'. scan_shards r iter sc now shards n s =
         Some (n + card {k. shard_of r k \<in> set shards \<and> expired_in r sc now s k}, s') \<and>
       store_wf r s' \<and> entries r s' = swept r sc now {k. shard_of r k \<in> set shards} s"
proof (induction shards arbitrary: n s)
  case Nil
  then show ?case by (simp add: swept_def fun_eq_iff)
next
  case (Cons i shards)
  let ?keys = "Keys (iter i) (int i) s" and ?E = "\<lambda>k. expired_in r sc now s k"
  have keys: "set ?keys = {k. shard_of r k = i \<and> entries r s k \<noteq> None}" "distinct ?keys"
    using Keys_set [OF Cons.prems(1) iter] Keys_distinct [OF iter] Cons.prems(3) by simp_all
  from scan_keys_wf [OF Cons.prems(1) keys(2), of sc now n]
  obtain s1 where s1: "scan_keys r sc now ?keys n s = Some (n + card {k \<in> set ?keys. ?E k}, s1)"
    "store_wf r s1" "entries r s1 = swept r sc now (set ?keys) s" by blast
  have ent: "entries r s1 k = (if shard_of r k = i \<and> ?E k then None else entries r s k)" for k
    using s1(3) keys(1) by (auto simp: swept_def expired_in_def)
  have same: "expired_in r sc now s1 k \<longleftrightarrow> ?E k" if "shard_of r k \<noteq> i" for k
    using that ent [of k] by (simp add: expired_in_def)
  have rest: "{k. shard_of r k \<in> set shards \<and> expired_in r sc now s1 k} =
      {k. shard_of r k \<in> set shards \<and> ?E k}"
    using Cons.prems(2) by (intro Collect_cong conj_cong refl same) auto
  have here: "{k \<in> set ?keys. ?E k} = {k. shard_of r k = i \<and> ?E k}"
    using keys(1) by (auto simp: expired_in_def)
  have fin: "finite {k. P k \<and> ?E k}" for P
    by (rule finite_subset [OF _ finite_entries [OF Cons.prems(1)]]) (auto simp: expired_in_def)
  have "{k. shard_of r k \<in> set (i # shards) \<and> ?E k} =
      {k. shard_of r k = i \<and> ?E k} \<union> {k. shard_of r k \<in> set shards \<and> ?E k}" by auto
  moreover have "{k. shard_of r k = i \<and> ?E k} \<inter> {k. shard_of r k \<in> set shards \<and> ?E k} = {}"
    using Cons.prems(2) by auto
  ultimately have card: "card {k. shard_of r k \<in> set (i # shards) \<and> ?E k} =
      card {k. shard_of r k = i \<and> ?E k} + card {k. shard_of r k \<in> set shards \<and> ?E k}"
    using card_Un_disjoint [OF fin fin] by simp
  have bound: "\<forall>j \<in> set shards. j < length (s_shards s1)"
    using Cons.prems(3) scan_keys_length [OF Cons.prems(1) s1(2)] by simp
  obtain s' where s': "scan_shards r iter sc now shards (n + card {k \<in> set ?keys. ?E k}) s1 =
      Some (n + card {k \<in> set ?keys. ?E k} +
        card {k. shard_of r k \<in> set shards \<and> expired_in r sc now s1 k}, s')"
    "store_wf r s'" "entries r s' = swept r sc now {k. shard_of r k \<in> set shards} s1"
    using Cons.IH [OF s1(2) _ bound] Cons.prems(2) by fastforce
  have "swept r sc now {k. shard_of r k \<in> set shards} s1 k =
      swept r sc now {k. shard_of r k \<in> set (i # shards)} s k" for k
    using same [of k] ent [of k] Cons.prems(2) by (auto simp: swept_def)
  then show ?case
    using s1(1) s' card here rest by (auto simp: fun_eq_iff add.assoc)
qed

lemma Scan_wf:
  assumes "store_wf r s" and "\<And>i. ranges (iter i)"
  shows "\<exists>s'. Scan r iter sc now s = Some (card {k. expired_in r sc now s k}, s') \<and>
           store_wf r s' \<and> entries r s' = swept r sc now UNIV s"
proof -
  let ?n = "length (s_shards s)"
  have all: "shard_of r k \<in> set [0 ..< ?n]" for k using store_wfD(5) [OF assms(1)] by simp
  from scan_shards_wf [OF assms(2) assms(1), where shards = "[0 ..< ?n]" and sc = sc and now = now and n = 0]
  show ?thesis by (simp add: Scan_def Store_ShardCount_def) (use all in simp)
qed

text \<open>A scan is a sequence of deletions.\<close>

lemma scan_keys_steps:
  "store_wf r s \<Longrightarrow> scan_keys r sc now keys n s = Some (n', s') \<Longrightarrow>
     (store_step reg r b)\<^sup>*\<^sup>* (m, s) (m, s')"
proof (induction keys arbitrary: n s)
  case (Cons key keys)
  let ?hit = "expired_in r sc now s key"
  let ?s = "if ?hit then set_entry r key None s else s"
  have "(store_step reg r b)\<^sup>*\<^sup>* (m, s) (m, ?s)"
    using do_delete [OF Delete_eq [OF Cons.prems(1)]] by auto
  moreover have "scan_keys r sc now keys (if ?hit then n + 1 else n) ?s = Some (n', s')"
    using Cons.prems(2) ExpireKey_wf [OF Cons.prems(1), of sc key now] by (auto split: if_splits)
  then have "(store_step reg r b)\<^sup>*\<^sup>* (m, ?s) (m, s')"
    using Cons.IH Cons.prems(1) store_wf_remove by (metis (full_types))
  ultimately show ?case by (rule rtranclp_trans)
qed simp

lemma scan_shards_steps:
  "store_wf r s \<Longrightarrow> scan_shards r iter sc now shards n s = Some (n', s') \<Longrightarrow>
     (\<And>i. ranges (iter i)) \<Longrightarrow> (store_step reg r b)\<^sup>*\<^sup>* (m, s) (m, s')"
proof (induction shards arbitrary: n s)
  case (Cons i shards)
  then obtain n1 s1 where s1: "scan_keys r sc now (Keys (iter i) (int i) s) n s = Some (n1, s1)"
    "scan_shards r iter sc now shards n1 s1 = Some (n', s')"
    by (auto simp: bind_eq_Some_conv)
  have "distinct (Keys (iter i) (int i) s)" by (rule Keys_distinct) (rule Cons.prems(3))
  from scan_keys_wf [OF Cons.prems(1) this, of sc now n] have "store_wf r s1"
    using s1(1) by auto
  then show ?case
    using Cons.IH s1 Cons.prems scan_keys_steps by (meson rtranclp_trans)
qed simp

lemma Scan_steps:
  "store_wf r s \<Longrightarrow> Scan r iter sc now s = Some (n, s') \<Longrightarrow> (\<And>i. ranges (iter i)) \<Longrightarrow>
     (store_step reg r b)\<^sup>*\<^sup>* (m, s) (m, s')"
  unfolding Scan_def by (rule scan_shards_steps)

text \<open>C17: A scan removes exactly the entries that are older than the time to live, in whatever order
  the shards' maps are ranged over; every other entry stays as it is, and the number returned is
  the number of entries removed.\<close>

theorem Scan_effect:
  assumes "store_wf r s" and "\<And>i. ranges (iter i)"
  shows "\<exists>s'. Scan r iter sc now s =
             Some (card {k. \<exists>e. entries r s k = Some e \<and> time_sub now (e_WrittenAt e) > sc_ttl sc}, s') \<and>
           store_wf r s' \<and>
           (\<forall>k. entries r s' k =
              (case entries r s k of None \<Rightarrow> None
               | Some e \<Rightarrow> if time_sub now (e_WrittenAt e) > sc_ttl sc then None else Some e))"
proof -
  have hit: "expired_in r sc now s k \<longleftrightarrow>
      (\<exists>e. entries r s k = Some e \<and> time_sub now (e_WrittenAt e) > sc_ttl sc)" for k
    by (simp add: expired_in_def expired_def IsExpired_def)
  obtain s' where *: "Scan r iter sc now s = Some (card {k. expired_in r sc now s k}, s')"
    "store_wf r s'" "entries r s' = swept r sc now UNIV s"
    using Scan_wf [of r s iter sc now] assms by blast
  have "entries r s' k = (case entries r s k of None \<Rightarrow> None
      | Some e \<Rightarrow> if time_sub now (e_WrittenAt e) > sc_ttl sc then None else Some e)" for k
    using *(3) by (cases "entries r s k") (simp_all add: swept_def hit)
  with * show ?thesis by (simp add: hit)
qed

lemma Scan_effect_witness:
  "\<exists>n s'. Scan demo_router (\<lambda>_. rev) (NewScanner 5) 1006 demo_written = Some (n, s') \<and>
     entries demo_router s' demo_user = None"
proof -
  have "ranges rev" by (simp add: ranges_def)
  then obtain n s' where *: "Scan demo_router (\<lambda>_. rev) (NewScanner 5) 1006 demo_written = Some (n, s')"
    "entries demo_router s' demo_user =
       (case entries demo_router demo_written demo_user of None \<Rightarrow> None
        | Some e \<Rightarrow> if time_sub 1006 (e_WrittenAt e) > sc_ttl (NewScanner 5) then None else Some e)"
    using Scan_effect [OF store_wf_demo_written, of "\<lambda>_. rev" "NewScanner 5" 1006] by blast
  have "time_sub 1006 1000 > sc_ttl (NewScanner 5)"
    by (simp add: NewScanner_def time_sub_def duration_min_def duration_max_def)
  with * show ?thesis by (simp add: entries_demo_written written_def)
qed

text \<open>The expiry boundary is strict: with any time to live below the longest duration, an entry
  is removed exactly when its age exceeds it, and one written exactly that long ago is kept. A
  time to live that is not positive counts as a day.\<close>

theorem expiry_boundary:
  assumes "ttl < duration_max"
  shows "IsExpired (NewScanner ttl) (time_sub now t) \<longleftrightarrow>
           now - t > (if ttl \<le> 0 then 86400 * 10 ^ 9 else ttl)"
proof -
  have "time_sub now t > sc_ttl (NewScanner ttl) \<longleftrightarrow> now - t > sc_ttl (NewScanner ttl)"
    using assms by (intro time_sub_gt)
      (simp_all add: NewScanner_def nanos_per_hour_def nanos_per_minute_def duration_max_def duration_min_def)
  then show ?thesis
    by (simp add: IsExpired_def NewScanner_def nanos_per_hour_def nanos_per_minute_def)
qed

lemma expiry_boundary_witness:
  "\<not> IsExpired (NewScanner 5) (time_sub 105 100) \<and> IsExpired (NewScanner 5) (time_sub 106 100)"
  using expiry_boundary [of 5 105 100] expiry_boundary [of 5 106 100]
  by (simp add: duration_max_def)

end
