(* ===== verification/SyncCheck.thy ===== *)
theory SyncCheck
  imports TtlScan
begin

text \<open>
  \<open>internal/sync\<close>: the consistency check. \<open>Partition\<close> splits a range by a fixed step; its loop
  does not end for a step that is not positive, so it is a partial function and not returning is
  \<open>None\<close>. \<open>Check\<close> takes the windows from the switch events, or from \<open>Partition\<close> when there are
  none, and compares the online view of every entity written inside a window with the offline
  view. Reading fills the cache, so the store is threaded through.

  \<open>time.Time.Add\<close> is addition of integers; instants so far from the present that Go's
  representation would wrap are outside the model.
\<close>

section \<open>Windows (windows.go)\<close>

record Window =
  w_Begin :: time
  w_End :: time
  w_Index :: nat

partial_function (option) partition_loop ::
  "time \<Rightarrow> duration \<Rightarrow> time \<Rightarrow> nat \<Rightarrow> Window list \<Rightarrow> Window list option" where
  "partition_loop until step start index windows =
     (if start < until
      then partition_loop until step (start + step) (index + 1)
             (windows @ [\<lparr>w_Begin = start,
                          w_End = (if start + step > until then until else start + step),
                          w_Index = index\<rparr>])
      else Some windows)"

definition Partition :: "time \<Rightarrow> time \<Rightarrow> duration \<Rightarrow> Window list option" where
  "Partition begin until step = partition_loop until step begin 0 []"

section \<open>The check (sync.go)\<close>

record Diff =
  d_Entity :: EntityKey
  d_Field :: string
  d_Window :: nat
  d_Online :: string
  d_Offline :: string

record Checker =
  ck_step :: duration

datatype SyncError = InvalidRange time time

type_synonym offline = "EntityKey \<Rightarrow> Snapshot option"

definition NewChecker :: "duration \<Rightarrow> Checker" where
  "NewChecker step = \<lparr>ck_step = (if step \<le> 0 then nanos_per_hour else step)\<rparr>"

text \<open>A missing map entry reads as the zero value.\<close>

definition field_value :: "Fields \<Rightarrow> string \<Rightarrow> FeatureValue" where
  "field_value fs name = (case fmlookup fs name of None \<Rightarrow> zero_FeatureValue | Some v \<Rightarrow> v)"

fun compare_fields ::
  "EntityKey \<Rightarrow> nat \<Rightarrow> Snapshot \<Rightarrow> Snapshot option \<Rightarrow> string list \<Rightarrow> Diff list" where
  "compare_fields key window online off [] = []"
| "compare_fields key window online off (name # names) =
     (let onlineValue = field_value (snap_Fields online) name;
          offlineValue = (case off of None \<Rightarrow> zero_FeatureValue
                          | Some o' \<Rightarrow> field_value (snap_Fields o') name);
          rest = compare_fields key window online off names
      in if FeatureValue_String onlineValue \<noteq> FeatureValue_String offlineValue
         then \<lparr>d_Entity = key, d_Field = name, d_Window = window,
               d_Online = FeatureValue_String onlineValue,
               d_Offline = FeatureValue_String offlineValue\<rparr> # rest
         else rest)"

fun compare_keys ::
  "Router \<Rightarrow> Manager \<Rightarrow> Window \<Rightarrow> offline \<Rightarrow> EntityKey list \<Rightarrow> Diff list \<Rightarrow> Store \<Rightarrow>
   (Diff list \<times> Store) go" where
  "compare_keys r m w offlineView [] diffs s = Some (diffs, s)"
| "compare_keys r m w offlineView (key # keys) diffs s = do {
     writtenAt \<leftarrow> WrittenAt r key s;
     case writtenAt of
       None \<Rightarrow> compare_keys r m w offlineView keys diffs s
     | Some t \<Rightarrow>
         if t < w_Begin w \<or> \<not> t < w_End w then compare_keys r m w offlineView keys diffs s
         else do {
           (online, s) \<leftarrow> ReadVersion r m key '''' s;
           compare_keys r m w offlineView keys
             (diffs @ compare_fields key (w_Index w) online (offlineView key)
                        (Snapshot_FieldNames online)) s
         }
   }"

fun compare_shards ::
  "Router \<Rightarrow> Manager \<Rightarrow> (nat \<Rightarrow> iteration) \<Rightarrow> Window \<Rightarrow> offline \<Rightarrow> nat list \<Rightarrow> Diff list \<Rightarrow> Store \<Rightarrow>
   (Diff list \<times> Store) go" where
  "compare_shards r m iter w offlineView [] diffs s = Some (diffs, s)"
| "compare_shards r m iter w offlineView (shard # shards) diffs s = do {
     (diffs, s) \<leftarrow> compare_keys r m w offlineView (Keys (iter shard) (int shard) s) diffs s;
     compare_shards r m iter w offlineView shards diffs s
   }"

definition compareWindow ::
  "Router \<Rightarrow> Manager \<Rightarrow> (nat \<Rightarrow> iteration) \<Rightarrow> Window \<Rightarrow> offline \<Rightarrow> Store \<Rightarrow> (Diff list \<times> Store) go" where
  "compareWindow r m iter w offlineView s =
     compare_shards r m iter w offlineView [0 ..< nat (Store_ShardCount s)] [] s"

fun compare_windows ::
  "Router \<Rightarrow> Manager \<Rightarrow> (nat \<Rightarrow> nat \<Rightarrow> iteration) \<Rightarrow> offline \<Rightarrow> Window list \<Rightarrow> Diff list \<Rightarrow> Store \<Rightarrow>
   (Diff list \<times> Store) go" where
  "compare_windows r m iter offlineView [] diffs s = Some (diffs, s)"
| "compare_windows r m iter offlineView (w # ws) diffs s = do {
     (ds, s) \<leftarrow> compareWindow r m (iter (w_Index w)) w offlineView s;
     compare_windows r m iter offlineView ws (diffs @ ds) s
   }"

text \<open>The loop over \<open>bounds\<close>: consecutive bounds, numbered from zero.\<close>

fun bound_windows :: "nat \<Rightarrow> time list \<Rightarrow> Window list" where
  "bound_windows i (b # c # bounds) =
     \<lparr>w_Begin = b, w_End = c, w_Index = i\<rparr> # bound_windows (i + 1) (c # bounds)"
| "bound_windows i bounds = []"

text \<open>The windows \<open>Check\<close> compares: by the step when only the tail marker is there.\<close>

definition check_windows :: "Manager \<Rightarrow> Checker \<Rightarrow> time \<Rightarrow> time \<Rightarrow> Window list option" where
  "check_windows m c begin until =
     (let events = SwitchEvents begin until m;
          bounds = begin # map ev_At events
      in if length events = 1 then Partition begin until (ck_step c)
         else Some (bound_windows 0 bounds))"

definition Check ::
  "Router \<Rightarrow> Manager \<Rightarrow> Checker \<Rightarrow> (nat \<Rightarrow> nat \<Rightarrow> iteration) \<Rightarrow> time \<Rightarrow> time \<Rightarrow> offline \<Rightarrow> Store \<Rightarrow>
   ((SyncError + Diff list) \<times> Store) go" where
  "Check r m c iter begin until offlineView s =
     (if \<not> until > begin then Some (Inl (InvalidRange begin until), s)
      else do {
        windows \<leftarrow> check_windows m c begin until;
        (diffs, s) \<leftarrow> compare_windows r m iter offlineView windows [] s;
        Some (Inr diffs, s)
      })"

section \<open>Partition\<close>

definition nth_window :: "time \<Rightarrow> time \<Rightarrow> duration \<Rightarrow> nat \<Rightarrow> Window" where
  "nth_window begin until step i =
     \<lparr>w_Begin = begin + int i * step, w_End = min until (begin + (int i + 1) * step), w_Index = i\<rparr>"

definition window_count :: "time \<Rightarrow> time \<Rightarrow> duration \<Rightarrow> nat" where
  "window_count begin until step = nat ((until - begin + step - 1) div step)"

lemma le_div_iff:
  assumes "0 < (s :: int)"
  shows "k \<le> x div s \<longleftrightarrow> k * s \<le> x"
proof
  assume "k \<le> x div s"
  then have "k * s \<le> x div s * s" using assms by simp
  also have "\<dots> \<le> x" using assms by (metis add_increasing2 div_mult_mod_eq order_refl pos_mod_sign)
  finally show "k * s \<le> x" .
next
  assume "k * s \<le> x"
  then have "k * s div s \<le> x div s" using assms by (rule zdiv_mono1)
  with assms show "k \<le> x div s" by simp
qed

lemma window_count_less:
  assumes "0 < step"
  shows "i < window_count begin until step \<longleftrightarrow> begin + int i * step < until"
proof -
  have "i < window_count begin until step \<longleftrightarrow> int i + 1 \<le> (until - begin + step - 1) div step"
    by (auto simp: window_count_def)
  also have "\<dots> \<longleftrightarrow> (int i + 1) * step \<le> until - begin + step - 1"
    using assms by (rule le_div_iff)
  finally show ?thesis by (auto simp: algebra_simps)
qed

lemma partition_loop_positive:
  assumes step: "0 < step"
  shows "i \<le> window_count begin until step \<Longrightarrow>
     partition_loop until step (begin + int i * step) i ws =
       Some (ws @ map (nth_window begin until step) [i ..< window_count begin until step])"
proof (induction "window_count begin until step - i" arbitrary: i ws)
  case 0
  then have "\<not> begin + int i * step < until"
    using window_count_less [OF step, of i "begin" until] by simp
  with 0 show ?case by (simp add: partition_loop.simps)
next
  case (Suc n)
  then have less: "i < window_count begin until step" by simp
  then have start: "begin + int i * step < until" using window_count_less [OF step] by blast
  let ?w = "nth_window begin until step i"
  have next_start: "begin + int i * step + step = begin + int (Suc i) * step" by (simp add: algebra_simps)
  have w: "\<lparr>w_Begin = begin + int i * step,
      w_End = (if begin + int i * step + step > until then until else begin + int i * step + step),
      w_Index = i\<rparr> = ?w"
    by (simp add: nth_window_def algebra_simps min_def)
  have rec: "partition_loop until step (begin + int i * step + step) (i + 1) (ws @ [?w]) =
      Some ((ws @ [?w]) @ map (nth_window begin until step) [i + 1 ..< window_count begin until step])"
    unfolding next_start Suc_eq_plus1 [symmetric] using Suc.hyps(2) less by (intro Suc.hyps(1)) simp_all
  show ?case
    by (subst partition_loop.simps, subst w, subst rec) (use start less in \<open>simp add: upt_conv_Cons\<close>)
qed

lemma Partition_positive:
  "0 < step \<Longrightarrow>
     Partition begin until step = Some (map (nth_window begin until step) [0 ..< window_count begin until step])"
  using partition_loop_positive [of step 0 "begin" until "[]"] by (simp add: Partition_def)

lemma partition_loop_diverges:
  assumes "partition_loop until step start i ws = Some out"
  shows "\<not> (start < until \<and> step \<le> 0)"
proof (rule partition_loop.raw_induct [OF _ assms,
    where P = "\<lambda>until step start i ws y. \<not> (start < until \<and> step \<le> 0)"])
  fix loop and until :: time and step :: duration and start :: time and i ws out
  assume IH: "\<And>until step start i ws out. loop until step start i ws = Some out \<Longrightarrow>
      \<not> (start < until \<and> step \<le> (0 :: duration))"
    and body: "(if start < until
      then loop until step (start + step) (i + 1)
             (ws @ [\<lparr>w_Begin = start, w_End = (if until < start + step then until else start + step),
                     w_Index = i\<rparr>])
      else Some ws) = Some out"
  show "\<not> (start < until \<and> step \<le> 0)"
  proof
    assume stuck: "start < until \<and> step \<le> 0"
    then have "\<not> (start + step < until \<and> step \<le> 0)"
      using body IH [of until step "start + step"] by (simp split: if_splits)
    with stuck show False by simp
  qed
qed

lemma Partition_diverges: "begin < until \<Longrightarrow> step \<le> 0 \<Longrightarrow> Partition begin until step = None"
  unfolding Partition_def using partition_loop_diverges by (meson not_None_eq)

text \<open>Windows that tile a range: every instant of the range is in exactly one of them.\<close>

definition in_window :: "Window \<Rightarrow> time \<Rightarrow> bool" where
  "in_window w t \<longleftrightarrow> w_Begin w \<le> t \<and> t < w_End w"

definition tiles :: "time \<Rightarrow> time \<Rightarrow> Window list \<Rightarrow> bool" where
  "tiles begin until ws \<longleftrightarrow>
     distinct (map w_Index ws) \<and>
     (\<forall>t. (\<exists>w \<in> set ws. in_window w t) \<longleftrightarrow> begin \<le> t \<and> t < until) \<and>
     (\<forall>w \<in> set ws. \<forall>v \<in> set ws. \<forall>t. in_window w t \<and> in_window v t \<longrightarrow> w = v)"


lemma in_nth_window:
  assumes "0 < step"
  shows "in_window (nth_window begin until step i) t \<longleftrightarrow> t < until \<and> (t - begin) div step = int i"
proof -
  have "int i \<le> (t - begin) div step \<longleftrightarrow> int i * step \<le> t - begin"
    and "int i + 1 \<le> (t - begin) div step \<longleftrightarrow> (int i + 1) * step \<le> t - begin"
    using assms by (rule le_div_iff)+
  then show ?thesis by (auto simp: in_window_def nth_window_def)
qed

lemma tiles_Partition:
  assumes "0 < step"
  shows "tiles begin until (map (nth_window begin until step) [0 ..< window_count begin until step])"
    (is "tiles _ _ (map ?w [0 ..< ?n])")
proof -
  have indices: "map w_Index (map ?w [0 ..< ?n]) = [0 ..< ?n]"
    by (simp add: nth_window_def comp_def)
  have cover: "(\<exists>i < ?n. in_window (?w i) t) \<longleftrightarrow> begin \<le> t \<and> t < until" for t
  proof
    assume "\<exists>i < ?n. in_window (?w i) t"
    then obtain i where "in_window (?w i) t" by blast
    then show "begin \<le> t \<and> t < until"
      using assms by (auto simp: in_window_def nth_window_def)
        (smt (verit) mult_nonneg_nonneg of_nat_0_le_iff)
  next
    assume t: "begin \<le> t \<and> t < until"
    let ?i = "nat ((t - begin) div step)"
    have i: "int ?i = (t - begin) div step" using t assms by (simp add: pos_imp_zdiv_nonneg_iff)
    then have "in_window (?w ?i) t" using t in_nth_window [OF assms] by simp
    moreover from this have "?i < ?n"
      using t window_count_less [OF assms] by (force simp: in_window_def nth_window_def)
    ultimately show "\<exists>i < ?n. in_window (?w i) t" by blast
  qed
  have "?w i = ?w j" if "in_window (?w i) t" "in_window (?w j) t" for i j t
    using that in_nth_window [OF assms] by simp
  moreover have "(\<exists>w \<in> set (map ?w [0 ..< ?n]). in_window w t) \<longleftrightarrow> begin \<le> t \<and> t < until" for t
    using cover [of t] by auto
  ultimately show ?thesis unfolding tiles_def indices by auto
qed

lemma bound_windows_tiles:
  "bounds \<noteq> [] \<Longrightarrow> sorted bounds \<Longrightarrow>
     tiles (hd bounds) (last bounds) (bound_windows i bounds) \<and>
     (\<forall>w \<in> set (bound_windows i bounds). i \<le> w_Index w)"
proof (induction i bounds rule: bound_windows.induct)
  case (1 i b c bounds)
  let ?ws = "bound_windows (i + 1) (c # bounds)"
  have IH: "tiles c (last (c # bounds)) ?ws" "\<forall>w \<in> set ?ws. i + 1 \<le> w_Index w"
    using 1 by auto
  have order: "b \<le> c" "c \<le> last (c # bounds)" using 1 by auto
  have rest: "(\<exists>w \<in> set ?ws. in_window w t) \<longleftrightarrow> c \<le> t \<and> t < last (c # bounds)" for t
    using IH(1) unfolding tiles_def by blast
  have new: "in_window \<lparr>w_Begin = b, w_End = c, w_Index = i\<rparr> t \<longleftrightarrow> b \<le> t \<and> t < c" for t
    by (simp add: in_window_def)
  have disjoint: "\<not> in_window w t" if "w \<in> set ?ws" "b \<le> t" "t < c" for w t
    using rest [of t] that by force
  have "tiles b (last (b # c # bounds)) (\<lparr>w_Begin = b, w_End = c, w_Index = i\<rparr> # ?ws)"
    unfolding tiles_def
  proof (intro conjI allI ballI impI)
    show "distinct (map w_Index (\<lparr>w_Begin = b, w_End = c, w_Index = i\<rparr> # ?ws))"
      using IH by (auto simp: tiles_def)
    show "(\<exists>w \<in> set (\<lparr>w_Begin = b, w_End = c, w_Index = i\<rparr> # ?ws). in_window w t) \<longleftrightarrow>
        b \<le> t \<and> t < last (b # c # bounds)" for t
      using rest [of t] new [of t] order by auto
    fix w v t
    assume "w \<in> set (\<lparr>w_Begin = b, w_End = c, w_Index = i\<rparr> # ?ws)"
      "v \<in> set (\<lparr>w_Begin = b, w_End = c, w_Index = i\<rparr> # ?ws)" "in_window w t \<and> in_window v t"
    then show "w = v"
      using new [of t] disjoint IH(1) unfolding tiles_def by (metis set_ConsD)
  qed
  then show ?case using IH(2) by auto
qed (auto simp: tiles_def)

lemma tiles_check_windows:
  assumes "begin < until" and "0 < ck_step c"
  shows "\<exists>ws. check_windows m c begin until = Some ws \<and> tiles begin until ws"
proof -
  let ?es = "SwitchEvents begin until m"
  let ?bounds = "begin # map ev_At ?es"
  have "sorted (map ev_At ?es)" by (rule sorted_SwitchEvents)
  moreover have "begin \<le> ev_At e" if "e \<in> set ?es" for e
    using that assms(1) by (auto simp: set_SwitchEvents switch_candidate_def)
  ultimately have "sorted ?bounds" by auto
  moreover have "last ?bounds = until"
    by (simp add: last_map last_SwitchEvents)
  ultimately have "tiles begin until (bound_windows 0 ?bounds)"
    using bound_windows_tiles [of ?bounds 0] by simp
  then show ?thesis
    using Partition_positive [OF assms(2)] tiles_Partition [OF assms(2)]
    by (auto simp: check_windows_def Let_def)
qed

section \<open>What a comparison reports\<close>

text \<open>Reading leaves everything but the cache alone.\<close>

definition reads_only :: "Store \<Rightarrow> Store \<Rightarrow> bool" where
  "reads_only s s' \<longleftrightarrow>
     s_shards s' = s_shards s \<and> s_journal s' = s_journal s \<and> s_results s' = s_results s \<and>
     s_now s' = s_now s"

lemma reads_only_refl [simp]: "reads_only s s"
  by (simp add: reads_only_def)

lemma reads_only_trans: "reads_only s t \<Longrightarrow> reads_only t u \<Longrightarrow> reads_only s u"
  by (simp add: reads_only_def)

lemma reads_only_frame:
  "reads_only s s' \<Longrightarrow> s_shards s' = s_shards s \<and> entries r s' = entries r s \<and> fresh r m s' = fresh r m s"
  by (simp add: reads_only_def entries_def fresh_def fun_eq_iff)

lemma online_read:
  assumes "sound r b (m, s)"
  shows "\<exists>s'. ReadVersion r m key '''' s = Some (fresh r m s key (resolveActiveVersionID m), s') \<and>
           sound r b (m, s') \<and> reads_only s s' \<and> (store_step reg r b)\<^sup>*\<^sup>* (m, s) (m, s')"
proof -
  obtain s' where s': "ReadVersion r m key '''' s = Some (fresh r m s key (resolveActiveVersionID m), s')"
    using Read_sound [OF assms, of key] by (auto simp: Read_eq)
  moreover have "sound r b (m, s')"
    using sound_read [OF assms _ _ s'] by (simp add: known_def)
  moreover have "reads_only s s'"
    using s' unfolding ReadVersion_eq
    by (rule read_cached_state [OF soundD(4) [OF assms]]) (simp_all add: reads_only_def)
  moreover have "store_step reg r b (m, s) (m, s')"
    using do_read [OF _ _ s'] by (simp add: known_def)
  ultimately show ?thesis by blast
qed

definition key_diffs :: "Router \<Rightarrow> Manager \<Rightarrow> Store \<Rightarrow> offline \<Rightarrow> Window \<Rightarrow> EntityKey \<Rightarrow> Diff list" where
  "key_diffs r m s offlineView w key =
     (let online = fresh r m s key (resolveActiveVersionID m) in
      if \<exists>e. entries r s key = Some e \<and> in_window w (e_WrittenAt e)
      then compare_fields key (w_Index w) online (offlineView key) (Snapshot_FieldNames online)
      else [])"

lemma key_diffs_cong: "reads_only s s' \<Longrightarrow> key_diffs r m s' off w = key_diffs r m s off w"
  by (rule ext) (simp add: key_diffs_def reads_only_frame)

lemma compare_keys_sound:
  "sound r b (m, s) \<Longrightarrow>
     \<exists>s'. compare_keys r m w off keys ds s = Some (ds @ concat (map (key_diffs r m s off w) keys), s') \<and>
       sound r b (m, s') \<and> reads_only s s' \<and> (store_step reg r b)\<^sup>*\<^sup>* (m, s) (m, s')"
proof (induction keys arbitrary: ds s)
  case Nil
  then show ?case by simp
next
  case (Cons key keys)
  note wf = soundD(4) [OF Cons.prems]
  show ?case
  proof (cases "\<exists>e. entries r s key = Some e \<and> in_window w (e_WrittenAt e)")
    case False
    then have "key_diffs r m s off w key = []" by (auto simp: key_diffs_def Let_def)
    moreover have "compare_keys r m w off (key # keys) ds s = compare_keys r m w off keys ds s"
      using False by (auto simp: WrittenAt_wf [OF wf] in_window_def split: option.splits)
    ultimately show ?thesis using Cons.IH [OF Cons.prems] by simp
  next
    case True
    then obtain e where e: "entries r s key = Some e" "in_window w (e_WrittenAt e)" by blast
    obtain s1 where s1: "ReadVersion r m key '''' s = Some (fresh r m s key (resolveActiveVersionID m), s1)"
      "sound r b (m, s1)" "reads_only s s1" "(store_step reg r b)\<^sup>*\<^sup>* (m, s) (m, s1)"
      using online_read [OF Cons.prems] by blast
    have "compare_keys r m w off (key # keys) ds s =
        compare_keys r m w off keys (ds @ key_diffs r m s off w key) s1"
      using e s1(1) by (simp add: WrittenAt_wf [OF wf] in_window_def key_diffs_def Let_def)
    moreover obtain s' where
      "compare_keys r m w off keys (ds @ key_diffs r m s off w key) s1 =
        Some ((ds @ key_diffs r m s off w key) @ concat (map (key_diffs r m s1 off w) keys), s')"
      "sound r b (m, s')" "reads_only s1 s'" "(store_step reg r b)\<^sup>*\<^sup>* (m, s1) (m, s')"
      using Cons.IH [OF s1(2)] by blast
    ultimately show ?thesis
      using s1(3,4) by (auto simp: key_diffs_cong intro: reads_only_trans rtranclp_trans)
  qed
qed

definition shard_diffs ::
  "Router \<Rightarrow> Manager \<Rightarrow> Store \<Rightarrow> offline \<Rightarrow> (nat \<Rightarrow> iteration) \<Rightarrow> Window \<Rightarrow> nat \<Rightarrow> Diff list" where
  "shard_diffs r m s off iter w i = concat (map (key_diffs r m s off w) (Keys (iter i) (int i) s))"

lemma shard_diffs_cong: "reads_only s s' \<Longrightarrow> shard_diffs r m s' off iter w = shard_diffs r m s off iter w"
  by (rule ext) (simp add: shard_diffs_def key_diffs_cong Keys_def reads_only_frame)

lemma compare_shards_sound:
  "sound r b (m, s) \<Longrightarrow>
     \<exists>s'. compare_shards r m iter w off shards ds s =
         Some (ds @ concat (map (shard_diffs r m s off iter w) shards), s') \<and>
       sound r b (m, s') \<and> reads_only s s' \<and> (store_step reg r b)\<^sup>*\<^sup>* (m, s) (m, s')"
proof (induction shards arbitrary: ds s)
  case Nil
  then show ?case by simp
next
  case (Cons i shards)
  obtain s1 where s1: "compare_keys r m w off (Keys (iter i) (int i) s) ds s =
      Some (ds @ shard_diffs r m s off iter w i, s1)" "sound r b (m, s1)" "reads_only s s1"
    "(store_step reg r b)\<^sup>*\<^sup>* (m, s) (m, s1)"
    using compare_keys_sound [OF Cons.prems] unfolding shard_diffs_def by blast
  obtain s' where "compare_shards r m iter w off shards (ds @ shard_diffs r m s off iter w i) s1 =
      Some ((ds @ shard_diffs r m s off iter w i) @ concat (map (shard_diffs r m s1 off iter w) shards), s')"
    "sound r b (m, s')" "reads_only s1 s'" "(store_step reg r b)\<^sup>*\<^sup>* (m, s1) (m, s')"
    using Cons.IH [OF s1(2)] by blast
  then show ?case
    using s1 by (auto simp: shard_diffs_cong [OF s1(3)] intro: reads_only_trans rtranclp_trans)
qed

definition window_diffs ::
  "Router \<Rightarrow> Manager \<Rightarrow> Store \<Rightarrow> offline \<Rightarrow> (nat \<Rightarrow> nat \<Rightarrow> iteration) \<Rightarrow> Window \<Rightarrow> Diff list" where
  "window_diffs r m s off iter w =
     concat (map (shard_diffs r m s off (iter (w_Index w)) w) [0 ..< length (s_shards s)])"

lemma window_diffs_cong: "reads_only s s' \<Longrightarrow> window_diffs r m s' off iter = window_diffs r m s off iter"
  by (rule ext) (simp add: window_diffs_def shard_diffs_cong reads_only_frame)

lemma compare_windows_sound:
  "sound r b (m, s) \<Longrightarrow>
     \<exists>s'. compare_windows r m iter off ws ds s =
         Some (ds @ concat (map (window_diffs r m s off iter) ws), s') \<and>
       sound r b (m, s') \<and> reads_only s s' \<and> (store_step reg r b)\<^sup>*\<^sup>* (m, s) (m, s')"
proof (induction ws arbitrary: ds s)
  case Nil
  then show ?case by simp
next
  case (Cons w ws)
  obtain s1 where s1: "compareWindow r m (iter (w_Index w)) w off s =
      Some (window_diffs r m s off iter w, s1)" "sound r b (m, s1)" "reads_only s s1"
    "(store_step reg r b)\<^sup>*\<^sup>* (m, s) (m, s1)"
    using compare_shards_sound [OF Cons.prems, of "iter (w_Index w)" w off "[0 ..< length (s_shards s)]" "[]" reg]
    by (auto simp: compareWindow_def window_diffs_def Store_ShardCount_def)
  obtain s' where "compare_windows r m iter off ws (ds @ window_diffs r m s off iter w) s1 =
      Some ((ds @ window_diffs r m s off iter w) @ concat (map (window_diffs r m s1 off iter) ws), s')"
    "sound r b (m, s')" "reads_only s1 s'" "(store_step reg r b)\<^sup>*\<^sup>* (m, s1) (m, s')"
    using Cons.IH [OF s1(2)] by blast
  then show ?case
    using s1 by (auto simp: window_diffs_cong [OF s1(3)] intro: reads_only_trans rtranclp_trans)
qed


text \<open>One difference that the check looks for: its entity is stored and was written in the window,
  its field is visible online, the online value has another text than the offline value, and both
  texts are reported. The code ranges over the online fields of stored entities only.\<close>

definition is_diff :: "Router \<Rightarrow> Manager \<Rightarrow> Store \<Rightarrow> offline \<Rightarrow> Window \<Rightarrow> Diff \<Rightarrow> bool" where
  "is_diff r m s offlineView w d \<longleftrightarrow>
     (let online = snap_Fields (fresh r m s (d_Entity d) (resolveActiveVersionID m));
          off = (case offlineView (d_Entity d) of None \<Rightarrow> zero_FeatureValue
                 | Some o' \<Rightarrow> field_value (snap_Fields o') (d_Field d))
      in (\<exists>e. entries r s (d_Entity d) = Some e \<and> in_window w (e_WrittenAt e)) \<and>
         d_Window d = w_Index w \<and> fmlookup online (d_Field d) \<noteq> None \<and>
         d_Online d = FeatureValue_String (field_value online (d_Field d)) \<and>
         d_Offline d = FeatureValue_String off \<and> d_Online d \<noteq> d_Offline d)"

lemma set_compare_fields:
  "d \<in> set (compare_fields key i online off names) \<longleftrightarrow>
     (let x = FeatureValue_String (field_value (snap_Fields online) (d_Field d));
          y = FeatureValue_String (case off of None \<Rightarrow> zero_FeatureValue
                                   | Some o' \<Rightarrow> field_value (snap_Fields o') (d_Field d))
      in d_Entity d = key \<and> d_Window d = i \<and> d_Field d \<in> set names \<and> d_Online d = x \<and>
         d_Offline d = y \<and> x \<noteq> y)"
  by (induction key i online off names rule: compare_fields.induct)
    (auto simp: Let_def split: option.splits)

lemma compare_fields_names:
  "distinct names \<Longrightarrow> distinct (map d_Field (compare_fields key i online off names))"
  by (induction key i online off names rule: compare_fields.induct)
    (auto simp: Let_def set_compare_fields)

lemma set_key_diffs: "d \<in> set (key_diffs r m s off w key) \<longleftrightarrow> d_Entity d = key \<and> is_diff r m s off w d"
  by (auto simp: key_diffs_def is_diff_def set_compare_fields Let_def Snapshot_FieldNames_def fmdom'_iff)

lemma set_window_diffs:
  assumes "store_wf r s" and "\<And>i. ranges (iter (w_Index w) i)"
  shows "d \<in> set (window_diffs r m s off iter w) \<longleftrightarrow> is_diff r m s off w d"
proof -
  let ?k = "d_Entity d" and ?n = "length (s_shards s)"
  have "d \<in> set (window_diffs r m s off iter w) \<longleftrightarrow>
      (\<exists>i < ?n. ?k \<in> set (Keys (iter (w_Index w) i) (int i) s)) \<and> is_diff r m s off w d"
    by (auto simp: window_diffs_def shard_diffs_def set_key_diffs)
  also have "(\<exists>i < ?n. ?k \<in> set (Keys (iter (w_Index w) i) (int i) s)) \<longleftrightarrow> entries r s ?k \<noteq> None"
    using Keys_set [OF assms(1) assms(2)] store_wfD(5) [OF assms(1), of ?k] by auto
  finally show ?thesis by (auto simp: is_diff_def Let_def)
qed

text \<open>A concatenation reports nothing twice when no part does and the parts share no key.\<close>

lemma distinct_concat_map:
  assumes "distinct xs" and "\<And>x. x \<in> set xs \<Longrightarrow> distinct (map p (f x))"
    and "\<And>x y a b. x \<in> set xs \<Longrightarrow> y \<in> set xs \<Longrightarrow> a \<in> set (f x) \<Longrightarrow> b \<in> set (f y) \<Longrightarrow> p a = p b \<Longrightarrow> x = y"
  shows "distinct (map p (concat (map f xs)))"
  using assms
proof (induction xs)
  case (Cons x xs)
  have "distinct (map p (concat (map f xs)))"
    using Cons.prems by (intro Cons.IH) auto
  moreover have "p a \<noteq> p b" if "a \<in> set (f x)" "y \<in> set xs" "b \<in> set (f y)" for a b y
    using Cons.prems(1) Cons.prems(3) [of x y a b] that by auto
  ultimately show ?case using Cons.prems(2) [of x] by fastforce
qed simp

definition diff_key :: "Diff \<Rightarrow> EntityKey \<times> string" where
  "diff_key d = (d_Entity d, d_Field d)"

lemma distinct_key_diffs: "distinct (map diff_key (key_diffs r m s off w key))"
proof -
  let ?ds = "key_diffs r m s off w key"
  have "distinct (map d_Field ?ds)"
    by (simp add: key_diffs_def Let_def compare_fields_names Snapshot_FieldNames_def)
  then have "distinct (map (Pair key) (map d_Field ?ds))" by (simp add: distinct_map inj_on_def)
  moreover have "map diff_key ?ds = map (Pair key) (map d_Field ?ds)"
    by (simp add: diff_key_def set_key_diffs)
  ultimately show ?thesis by metis
qed

lemma distinct_window_diffs:
  assumes "store_wf r s" and "\<And>i. ranges (iter (w_Index w) i)"
  shows "distinct (map diff_key (window_diffs r m s off iter w))"
  unfolding window_diffs_def
proof (rule distinct_concat_map)
  fix i
  show "distinct (map diff_key (shard_diffs r m s off (iter (w_Index w)) w i))"
    unfolding shard_diffs_def
    by (rule distinct_concat_map)
      (auto simp: Keys_distinct assms(2) distinct_key_diffs set_key_diffs diff_key_def)
next
  fix i j a b
  assume "i \<in> set [0 ..< length (s_shards s)]" "j \<in> set [0 ..< length (s_shards s)]"
    and "a \<in> set (shard_diffs r m s off (iter (w_Index w)) w i)"
    and "b \<in> set (shard_diffs r m s off (iter (w_Index w)) w j)" and "diff_key a = diff_key b"
  then show "i = j"
    using Keys_set [OF assms(1) assms(2)]
    by (auto simp: shard_diffs_def set_key_diffs diff_key_def)
qed simp

lemma distinct_all_diffs:
  assumes "store_wf r s" and "\<And>j i. ranges (iter j i)" and "tiles begin until ws"
  shows "distinct (map diff_key (concat (map (window_diffs r m s off iter) ws)))"
proof (rule distinct_concat_map)
  show "distinct ws" using assms(3) by (auto simp: tiles_def distinct_map)
  show "distinct (map diff_key (window_diffs r m s off iter w))" for w
    using assms(1,2) by (rule distinct_window_diffs)
  fix w v a b
  assume w: "w \<in> set ws" "v \<in> set ws" and "a \<in> set (window_diffs r m s off iter w)"
    "b \<in> set (window_diffs r m s off iter v)" "diff_key a = diff_key b"
  then have "is_diff r m s off w a" "is_diff r m s off v b" "d_Entity a = d_Entity b"
    using set_window_diffs [OF assms(1) assms(2)] by (auto simp: diff_key_def)
  then obtain t where "in_window w t" "in_window v t" unfolding is_diff_def Let_def by auto
  with assms(3) w show "w = v" unfolding tiles_def by blast
qed

lemma Check_returns:
  assumes "sound r b (m, s)" and "0 < ck_step c"
  shows "\<exists>res s'. Check r m c iter begin until offlineView s = Some (res, s') \<and>
           (store_step reg r b)\<^sup>*\<^sup>* (m, s) (m, s')"
proof (cases "begin < until")
  case True
  then obtain ws where "check_windows m c begin until = Some ws"
    using tiles_check_windows [OF _ assms(2)] by blast
  moreover obtain ds s' where "compare_windows r m iter offlineView ws [] s = Some (ds, s')"
    "(store_step reg r b)\<^sup>*\<^sup>* (m, s) (m, s')"
    using compare_windows_sound [OF assms(1)] by blast
  ultimately show ?thesis using True by (simp add: Check_def)
qed (simp add: Check_def)

section \<open>Properties\<close>

text \<open>For a positive step \<open>Partition\<close> returns, and its windows tile the range: they are numbered
  from zero, each instant of the range falls in exactly one of them, none reaches outside, and
  each starts where the previous one ends.\<close>

theorem Partition_tiles:
  assumes "0 < step"
  shows "\<exists>ws. Partition begin until step = Some ws \<and> tiles begin until ws \<and>
           (\<forall>i < length ws. w_Index (ws ! i) = i \<and> w_Begin (ws ! i) = begin + int i * step \<and>
              w_End (ws ! i) = min until (begin + (int i + 1) * step))"
  using Partition_positive [OF assms] tiles_Partition [OF assms]
  by (auto simp: nth_window_def)

lemma Partition_tiles_witness:
  "\<exists>ws. Partition 0 25 10 = Some ws \<and> tiles 0 25 ws"
  using Partition_tiles [of 10 0 25] by auto

text \<open>C40: For a step that is not positive, the loop of \<open>Partition\<close> never ends on a non-empty range;
  the checker's constructor replaces such a step, so its own partitions always end.\<close>

theorem Partition_termination:
  assumes "begin < until"
  shows "(Partition begin until step = None \<longleftrightarrow> step \<le> 0) \<and>
         Partition begin until (ck_step (NewChecker step)) \<noteq> None"
proof -
  have ends: "Partition begin until step' \<noteq> None" if "0 < step'" for step'
    using Partition_positive [OF that] by simp
  then have "Partition begin until step = None \<longleftrightarrow> step \<le> 0"
    using Partition_diverges [OF assms, of step] by (cases "0 < step") auto
  moreover have "0 < ck_step (NewChecker step)"
    by (simp add: NewChecker_def nanos_per_hour_def nanos_per_minute_def)
  ultimately show ?thesis using ends by blast
qed

lemma Partition_termination_witness: "Partition 0 25 0 = None"
  using Partition_termination [of 0 25 0] by simp

text \<open>C18: On a range that is not empty the check returns and reports exactly the differences in what is
  online, each once: an entity and field are reported if and only if the entity is stored and was
  written inside the range, the field is visible online under the active version, and the text of
  its online value differs from that of its offline value, the zero value if it has none there; no
  part of the range is skipped or compared twice. The check changes no entry. A field or an entity
  that only the offline side has is not reported (\<open>offline_only_not_reported\<close>), although the comment
  of \<open>Check\<close> promises every difference between the views.\<close>

theorem Check_complete:
  assumes "sound r b (m, s)" and "begin < until" and "\<And>j i. ranges (iter j i)"
  shows "\<exists>ws ds s'. Check r m (NewChecker step) iter begin until offlineView s = Some (Inr ds, s') \<and>
           tiles begin until ws \<and> entries r s' = entries r s \<and>
           distinct (map diff_key ds) \<and>
           (\<forall>d. d \<in> set ds \<longleftrightarrow> (\<exists>w \<in> set ws. is_diff r m s offlineView w d))"
proof -
  have "0 < ck_step (NewChecker step)"
    by (simp add: NewChecker_def nanos_per_hour_def nanos_per_minute_def)
  then obtain ws where ws: "check_windows m (NewChecker step) begin until = Some ws" "tiles begin until ws"
    using tiles_check_windows [OF assms(2)] by blast
  let ?ds = "concat (map (window_diffs r m s offlineView iter) ws)"
  obtain s' where s': "compare_windows r m iter offlineView ws [] s = Some (?ds, s')" "reads_only s s'"
    using compare_windows_sound [OF assms(1), of iter offlineView ws "[]"] by auto
  note wf = soundD(4) [OF assms(1)]
  have "Check r m (NewChecker step) iter begin until offlineView s = Some (Inr ?ds, s')"
    using assms(2) ws(1) s'(1) by (simp add: Check_def)
  moreover have "distinct (map diff_key ?ds)" using wf assms(3) ws(2) by (rule distinct_all_diffs)
  moreover have "d \<in> set ?ds \<longleftrightarrow> (\<exists>w \<in> set ws. is_diff r m s offlineView w d)" for d
    using set_window_diffs [OF wf assms(3)] by auto
  ultimately show ?thesis using ws(2) reads_only_frame [OF s'(2)] by blast
qed

lemma Check_complete_witness:
  "\<exists>ds s' d. Check demo_router demo_published (NewChecker 0) (\<lambda>_ _. rev) 900 1100 (\<lambda>_. None) demo_written =
       Some (Inr ds, s') \<and> d \<in> set ds \<and> d_Field d = ''age'' \<and> d_Online d = ''30''"
proof -
  let ?r = demo_router and ?m = demo_published and ?s = demo_written
  have iter: "ranges rev" by (simp add: ranges_def)
  have "\<exists>ws ds s'. Check ?r ?m (NewChecker 0) (\<lambda>_ _. rev) 900 1100 (\<lambda>_. None) ?s = Some (Inr ds, s') \<and>
      tiles 900 1100 ws \<and> entries ?r s' = entries ?r ?s \<and> distinct (map diff_key ds) \<and>
      (\<forall>d. d \<in> set ds \<longleftrightarrow> (\<exists>w \<in> set ws. is_diff ?r ?m ?s (\<lambda>_. None) w d))"
    using sound_demo [of True] iter by (intro Check_complete) simp_all
  then obtain ws ds s' where c: "Check ?r ?m (NewChecker 0) (\<lambda>_ _. rev) 900 1100 (\<lambda>_. None) ?s = Some (Inr ds, s')"
    "tiles 900 1100 ws" "\<forall>d. d \<in> set ds \<longleftrightarrow> (\<exists>w \<in> set ws. is_diff ?r ?m ?s (\<lambda>_. None) w d)"
    by blast
  have "(\<exists>w \<in> set ws. in_window w 1000) \<longleftrightarrow> 900 \<le> (1000 :: time) \<and> (1000 :: time) < 1100"
    using c(2) unfolding tiles_def by blast
  then obtain w where w: "w \<in> set ws" "in_window w 1000" by auto
  have active: "resolveActiveVersionID ?m = ''user_profile-v1''"
    by (simp add: resolveActiveVersionID_def ResolveActive_def active_record_def demo_published_eq
        IsActive_def)
  have layout: "allowed_fields ?m ''user_profile-v1'' =
      Some [''age'', ''city'', ''level'', ''active_days'', ''score'', ''is_vip'']"
    by (simp add: allowed_fields_def Manager_Get_def demo_published_eq Table_FieldNames_def
        UserProfileTable_def)
  let ?d = "\<lparr>d_Entity = demo_user, d_Field = ''age'', d_Window = w_Index w, d_Online = ''30'', d_Offline = ''''\<rparr>"
  have "itoa_int 30 = ''30''" by (simp add: itoa_int_def itoa.simps digit_char_def char_of_def bit_0)
  then have "is_diff ?r ?m ?s (\<lambda>_. None) w ?d"
    using w(2) by (simp add: is_diff_def Let_def fresh_def active entries_demo_written written_def
        entrySnapshot_def layout Entry_Snapshot_def demo_fields_def field_value_def
        FeatureValue_String_ctors) (simp add: FeatureValue_String_def zero_FeatureValue_def)
  with c(3) w(1) have "?d \<in> set ds" by blast
  with c(1) show ?thesis by (intro exI [of _ ds] exI [of _ s'] exI [of _ ?d]) simp
qed

text \<open>What the check reports was found online: every reported entity is stored and the field is
  visible there under the active version, so nothing that only the offline side has is reported,
  whatever it holds.\<close>

theorem offline_only_not_reported:
  assumes "sound r b (m, s)" and "begin < until" and "\<And>j i. ranges (iter j i)"
  shows "\<exists>ds s'. Check r m (NewChecker step) iter begin until offlineView s = Some (Inr ds, s') \<and>
           (\<forall>d \<in> set ds. entries r s (d_Entity d) \<noteq> None \<and>
              fmlookup (snap_Fields (fresh r m s (d_Entity d) (resolveActiveVersionID m))) (d_Field d) \<noteq> None)"
proof -
  have "0 < ck_step (NewChecker step)"
    by (simp add: NewChecker_def nanos_per_hour_def nanos_per_minute_def)
  then obtain ws where ws: "check_windows m (NewChecker step) begin until = Some ws"
    using tiles_check_windows [OF assms(2)] by blast
  let ?ds = "concat (map (window_diffs r m s offlineView iter) ws)"
  obtain s' where "compare_windows r m iter offlineView ws [] s = Some (?ds, s')"
    using compare_windows_sound [OF assms(1), of iter offlineView ws "[]"] by auto
  then have "Check r m (NewChecker step) iter begin until offlineView s = Some (Inr ?ds, s')"
    using assms(2) ws by (simp add: Check_def)
  moreover have "\<forall>d \<in> set ?ds. entries r s (d_Entity d) \<noteq> None \<and>
      fmlookup (snap_Fields (fresh r m s (d_Entity d) (resolveActiveVersionID m))) (d_Field d) \<noteq> None"
    using set_window_diffs [OF soundD(4) [OF assms(1)] assms(3)] by (auto simp: is_diff_def Let_def)
  ultimately show ?thesis by blast
qed

lemma offline_only_not_reported_witness:
  "\<exists>ds s'. Check demo_router demo_published (NewChecker 0) (\<lambda>_ _. rev) 900 1100
       (\<lambda>key. Some \<lparr>snap_Entity = key, snap_VersionID = '''', snap_Fields = fmupd ''only'' (IntValue 1) fmempty,
                    snap_WrittenAt = 0\<rparr>) demo_written = Some (Inr ds, s') \<and>
     (\<forall>d \<in> set ds. d_Entity d = demo_user)"
proof -
  have iter: "ranges rev" by (simp add: ranges_def)
  have "d_Entity d = demo_user" if "entries demo_router demo_written (d_Entity d) \<noteq> None" for d
    using that by (simp add: entries_demo_written entries_demo split: if_splits)
  note known = this
  let ?off = "\<lambda>key. Some \<lparr>snap_Entity = key, snap_VersionID = '''',
      snap_Fields = fmupd ''only'' (IntValue 1) fmempty, snap_WrittenAt = 0\<rparr>"
  have range: "(900 :: int) < 1100" by simp
  note offline_only_not_reported [OF sound_demo [of True] range, of "\<lambda>_ _. rev" 0 ?off]
  then obtain ds s' where "Check demo_router demo_published (NewChecker 0) (\<lambda>_ _. rev) 900 1100 ?off demo_written = Some (Inr ds, s')"
    and "\<forall>d \<in> set ds. entries demo_router demo_written (d_Entity d) \<noteq> None"
    using iter by blast
  then show ?thesis by (intro exI [of _ ds] exI [of _ s']) (use known in blast)
qed

text \<open>A range whose end is not after its begin is refused and nothing is read.\<close>

theorem Check_refuses_empty_range:
  "\<not> begin < until \<Longrightarrow>
     Check r m c iter begin until offlineView s = Some (Inl (InvalidRange begin until), s)"
  by (simp add: Check_def)

lemma Check_refuses_empty_range_witness:
  "Check demo_router demo_published (NewChecker 0) (\<lambda>_ _. id) 5 5 (\<lambda>_. None) demo_written =
     Some (Inl (InvalidRange 5 5), demo_written)"
  using Check_refuses_empty_range [of 5 5] by simp

end
