(* ===== verification/Ingest.thy ===== *)
theory Ingest
  imports ReadPath
begin

text \<open>
  \<open>internal/ingest\<close>: the batch importer. A batch is merged in windows of rows; each row journals
  the entry it is about to change and merges the fields of the window. The batch record behind the
  pointer of \<open>im.batches\<close> is the entry of the map. The row loop over windows is a partial
  function: with a window of zero rows, which the constructor excludes, it would not end.

  The errors \<open>writeRow\<close> can pass on are those of \<open>Store.MergeWrite\<close>, which returns none, so the
  branch that marks a batch failed inside \<open>Import\<close> is never taken and has no counterpart here.
\<close>

section \<open>Rows, segments, batches (ingest.go)\<close>

record Row =
  row_Entity :: EntityKey
  row_Fields :: Fields

record Segment =
  seg_Index :: nat
  seg_Done :: bool
  seg_Rows :: nat

record Batch =
  b_ID :: string
  b_VersionID :: string
  b_Segments :: "Segment list"
  b_Started :: time
  b_Failed :: bool

record Importer =
  im_windowSize :: nat
  im_batches :: "(string, Batch) fmap"

datatype IngestError = EmptyBatchID | EmptyImportFile | UnknownBatch string

definition NewImporter :: "int \<Rightarrow> Importer" where
  "NewImporter windowSize =
     \<lparr>im_windowSize = (if windowSize \<le> 0 then 64 else nat windowSize), im_batches = fmempty\<rparr>"

section \<open>Field windows (windows.go)\<close>

text \<open>The set of names is a map; the order it is filled in and ranged over does not matter.\<close>

definition add_names :: "Row \<Rightarrow> (string, bool) fmap \<Rightarrow> (string, bool) fmap" where
  "add_names row names = fold (\<lambda>name. fmupd name True) (sorted_keys (row_Fields row)) names"

definition fileFields :: "Row list \<Rightarrow> string list" where
  "fileFields rows = sorted_keys (fold add_names rows fmempty)"

definition schemaFields :: "Table option \<Rightarrow> string list" where
  "schemaFields t = (case t of None \<Rightarrow> [] | Some t \<Rightarrow> Table_FieldNames t)"

definition fieldWindow :: "Table option \<Rightarrow> Row list \<Rightarrow> string list" where
  "fieldWindow t rows =
     (let known = schemaFields t in filter (\<lambda>name. name \<in> set known) (fileFields rows))"

definition valueOrDefault :: "Row \<Rightarrow> string \<Rightarrow> FeatureValue option" where
  "valueOrDefault row name = fmlookup (row_Fields row) name"

fun build_patch :: "Row \<Rightarrow> string list \<Rightarrow> Fields \<Rightarrow> Fields" where
  "build_patch row [] patch = patch"
| "build_patch row (name # names) patch =
     build_patch row names
       (case valueOrDefault row name of Some v \<Rightarrow> fmupd name v patch | None \<Rightarrow> patch)"

section \<open>Import\<close>

definition writeRow ::
  "Router \<Rightarrow> Row \<Rightarrow> string list \<Rightarrow> string \<Rightarrow> string \<Rightarrow> nat \<Rightarrow> Store \<Rightarrow> Store go" where
  "writeRow r row overwrite versionID batchID segment s = do {
     before \<leftarrow> EntryFor r (row_Entity row) s;
     let s = s\<lparr>s_journal := Journal_Append
                 \<lparr>op_BatchID = batchID, op_Segment = segment, op_Key = row_Entity row,
                  op_Before = before\<rparr> (s_journal s)\<rparr>;
     MergeWrite r (row_Entity row) (build_patch row overwrite fmempty) overwrite versionID s
   }"

definition set_last :: "Segment \<Rightarrow> Batch \<Rightarrow> Batch" where
  "set_last segment batch =
     batch\<lparr>b_Segments := (b_Segments batch)[length (b_Segments batch) - 1 := segment]\<rparr>"

fun import_rows ::
  "Router \<Rightarrow> string list \<Rightarrow> string \<Rightarrow> string \<Rightarrow> Row list \<Rightarrow> Segment \<Rightarrow> Batch \<Rightarrow> Store \<Rightarrow>
   (Batch \<times> Store) go" where
  "import_rows r overwrite versionID batchID [] segment batch s = Some (batch, s)"
| "import_rows r overwrite versionID batchID (row # rows) segment batch s = do {
     s \<leftarrow> writeRow r row overwrite versionID batchID (seg_Index segment) s;
     let segment = segment\<lparr>seg_Rows := seg_Rows segment + 1\<rparr>;
     import_rows r overwrite versionID batchID rows segment (set_last segment batch) s
   }"

definition mark_done :: "Batch \<Rightarrow> Batch" where
  "mark_done batch = set_last ((last (b_Segments batch))\<lparr>seg_Done := True\<rparr>) batch"

partial_function (option) import_loop ::
  "Router \<Rightarrow> nat \<Rightarrow> Row list \<Rightarrow> string list \<Rightarrow> string \<Rightarrow> string \<Rightarrow> nat \<Rightarrow> Batch \<Rightarrow> Store \<Rightarrow>
   (Batch \<times> Store) option" where
  "import_loop r windowSize rows overwrite versionID batchID start batch s =
     (if start < length rows then do {
        let end' = min (start + windowSize) (length rows);
        let segment = \<lparr>seg_Index = length (b_Segments batch), seg_Done = False, seg_Rows = 0\<rparr>;
        let batch = batch\<lparr>b_Segments := b_Segments batch @ [segment]\<rparr>;
        (batch, s) \<leftarrow> import_rows r overwrite versionID batchID
                       (take (end' - start) (drop start rows)) segment batch s;
        import_loop r windowSize rows overwrite versionID batchID (start + windowSize)
          (mark_done batch) s
      } else Some (batch, s))"

text \<open>\<open>now\<close> is the reading of \<open>time.Now\<close> that the batch is stamped with.\<close>

definition Import ::
  "Router \<Rightarrow> Registry \<Rightarrow> string \<Rightarrow> string \<Rightarrow> Row list \<Rightarrow> string \<Rightarrow> time \<Rightarrow> Importer \<Rightarrow> Store \<Rightarrow>
   ((IngestError + Batch) \<times> Importer \<times> Store) go" where
  "Import r reg batchID tableID rows versionID now im s =
     (if batchID = '''' then Some (Inl EmptyBatchID, im, s)
      else if rows = [] then Some (Inl EmptyImportFile, im, s)
      else do {
        t \<leftarrow> MustGet reg tableID;
        let overwrite = fieldWindow (Some t) rows;
        let batch = \<lparr>b_ID = batchID, b_VersionID = versionID, b_Segments = [], b_Started = now,
                     b_Failed = False\<rparr>;
        (batch, s) \<leftarrow> import_loop r (im_windowSize im) rows overwrite versionID batchID 0 batch s;
        Some (Inr batch, im\<lparr>im_batches := fmupd batchID batch (im_batches im)\<rparr>, s)
      })"

definition Importer_Batch :: "Importer \<Rightarrow> string \<Rightarrow> Batch option" where
  "Importer_Batch im batchID = fmlookup (im_batches im) batchID"

definition Importer_Clear :: "string \<Rightarrow> Importer \<Rightarrow> Store \<Rightarrow> Importer \<times> Store" where
  "Importer_Clear batchID im s =
     (im\<lparr>im_batches := fmdrop batchID (im_batches im)\<rparr>,
      s\<lparr>s_journal := Journal_Clear batchID (s_journal s)\<rparr>)"

section \<open>Rollback (rollback.go)\<close>

definition Importer_Rollback ::
  "Router \<Rightarrow> string \<Rightarrow> Importer \<Rightarrow> Store \<Rightarrow> (IngestError option \<times> Importer \<times> Store) go" where
  "Importer_Rollback r batchID im s =
     (case fmlookup (im_batches im) batchID of
        None \<Rightarrow> Some (Some (UnknownBatch batchID), im, s)
      | Some batch \<Rightarrow> do {
          s \<leftarrow> RollbackBatch r batchID s;
          Some (None, im\<lparr>im_batches := fmupd batchID (batch\<lparr>b_Failed := True\<rparr>) (im_batches im)\<rparr>, s)
        })"

section \<open>The field window\<close>

lemma fold_fmupd_True: "fmdom' (fold (\<lambda>name. fmupd name True) names m) = set names \<union> fmdom' m"
  by (induction names arbitrary: m) auto

lemma fmdom'_add_names: "fmdom' (add_names row m) = fmdom' (row_Fields row) \<union> fmdom' m"
  by (simp add: add_names_def fold_fmupd_True)

lemma fmdom'_fold_add_names:
  "fmdom' (fold add_names rows m) = (\<Union>row \<in> set rows. fmdom' (row_Fields row)) \<union> fmdom' m"
  by (induction rows arbitrary: m) (auto simp: fmdom'_add_names)

lemma fileFields_spec:
  "set (fileFields rows) = (\<Union>row \<in> set rows. fmdom' (row_Fields row))"
  "sorted (fileFields rows)" "distinct (fileFields rows)"
  by (simp_all add: fileFields_def fmdom'_fold_add_names)

lemma fieldWindow_spec:
  "set (fieldWindow (Some t) rows) =
     set (Table_FieldNames t) \<inter> (\<Union>row \<in> set rows. fmdom' (row_Fields row))"
  "sorted (fieldWindow (Some t) rows)" "distinct (fieldWindow (Some t) rows)"
  by (auto simp: fieldWindow_def schemaFields_def fileFields_spec sorted_wrt_filter)

lemma build_patch_lookup:
  "fmlookup (build_patch row names patch) n =
     (if n \<in> set names \<and> fmlookup (row_Fields row) n \<noteq> None then fmlookup (row_Fields row) n
      else fmlookup patch n)"
  by (induction row names patch rule: build_patch.induct)
    (auto simp: valueOrDefault_def split: option.splits)

lemma build_patch_window:
  "n \<in> set names \<Longrightarrow> fmlookup (build_patch row names fmempty) n = fmlookup (row_Fields row) n"
  by (simp add: build_patch_lookup)

section \<open>One row\<close>

definition row_op :: "Row \<Rightarrow> string \<Rightarrow> nat \<Rightarrow> Entry option \<Rightarrow> JournalOp" where
  "row_op row batchID segment before =
     \<lparr>op_BatchID = batchID, op_Segment = segment, op_Key = row_Entity row, op_Before = before\<rparr>"

definition row_entry :: "Router \<Rightarrow> Row \<Rightarrow> string list \<Rightarrow> string \<Rightarrow> Store \<Rightarrow> Entry" where
  "row_entry r row overwrite versionID s =
     written (row_Entity row)
       (merge_fields (build_patch row overwrite fmempty) overwrite (old_fields (entries r s (row_Entity row))))
       versionID (s_now s 0)"

lemma writeRow_wf:
  assumes "store_wf r s"
  shows "writeRow r row overwrite v b seg s =
     Some (set_entry r (row_Entity row) (Some (row_entry r row overwrite v s))
       (s\<lparr>s_journal := Journal_Append (row_op row b seg (entries r s (row_Entity row))) (s_journal s),
          s_now := \<lambda>n. s_now s (Suc n)\<rparr>))"
proof -
  have "store_wf r (s\<lparr>s_journal := Journal_Append (row_op row b seg (entries r s (row_Entity row))) (s_journal s)\<rparr>)"
    using assms by (intro store_wf_journal journal_wf_Append store_wfD(4))
  then show ?thesis
    by (simp add: writeRow_def EntryFor_wf [OF assms] MergeWrite_eq row_entry_def row_op_def Let_def)
qed


lemma writeRow_effect:
  assumes "store_wf r s" and "writeRow r row overwrite v b seg s = Some s'"
  shows "store_wf r s'" "entries r s' = (entries r s)(row_Entity row \<mapsto> row_entry r row overwrite v s)"
    "s_journal s' = Journal_Append (row_op row b seg (entries r s (row_Entity row))) (s_journal s)"
    "s_results s' = s_results s"
proof -
  let ?s = "s\<lparr>s_journal := Journal_Append (row_op row b seg (entries r s (row_Entity row))) (s_journal s),
      s_now := \<lambda>n. s_now s (Suc n)\<rparr>"
  have wf: "store_wf r ?s"
    using assms(1) by (simp add: store_wf_frame store_wf_journal journal_wf_Append store_wfD(4))
  have s': "s' = set_entry r (row_Entity row) (Some (row_entry r row overwrite v s)) ?s"
    using assms(2) by (simp add: writeRow_wf [OF assms(1)])
  show "store_wf r s'" unfolding s' by (rule store_wf_set_entry [OF wf]) (auto simp: row_entry_def)
  show "entries r s' = (entries r s)(row_Entity row \<mapsto> row_entry r row overwrite v s)"
    unfolding s' entries_set_entry [OF wf] by simp
  show "s_journal s' = Journal_Append (row_op row b seg (entries r s (row_Entity row))) (s_journal s)"
    "s_results s' = s_results s"
    unfolding s' by simp_all
qed

lemma writeRow_steps:
  assumes "store_wf r s" and "writeRow r row overwrite v b seg s = Some s'"
  shows "(store_step reg r c)\<^sup>*\<^sup>* (m, s) (m, s')"
proof -
  let ?s = "s\<lparr>s_journal := Journal_Append (row_op row b seg (entries r s (row_Entity row))) (s_journal s)\<rparr>"
  have "store_step reg r c (m, s) (m, ?s)"
    unfolding row_op_def by (rule do_journal [OF EntryFor_wf [OF assms(1)] refl])
  moreover have "MergeWrite r (row_Entity row) (build_patch row overwrite fmempty) overwrite v ?s = Some s'"
    using assms(2) by (simp add: writeRow_def EntryFor_wf [OF assms(1)] row_op_def Let_def)
  then have "store_step reg r c (m, ?s) (m, s')" by (rule do_merge)
  ultimately show ?thesis by (meson converse_rtranclp_into_rtranclp r_into_rtranclp)
qed

lemma row_entry_fields:
  "fmlookup (e_Fields (row_entry r row overwrite v s)) n =
     (if n \<in> set overwrite then fmlookup (row_Fields row) n
      else Option.bind (entries r s (row_Entity row)) (\<lambda>e. fmlookup (e_Fields e) n))"
  by (simp add: row_entry_def written_def merge_fields_lookup build_patch_window old_fields_def
      split: option.splits)

section \<open>A list of rows\<close>

text \<open>The rows of a batch with the segment each was written in, one after the other.\<close>

fun write_all ::
  "Router \<Rightarrow> string list \<Rightarrow> string \<Rightarrow> string \<Rightarrow> (Row \<times> nat) list \<Rightarrow> Store \<Rightarrow> Store go" where
  "write_all r overwrite v b [] s = Some s"
| "write_all r overwrite v b ((row, seg) # xs) s = do {
     s \<leftarrow> writeRow r row overwrite v b seg s;
     write_all r overwrite v b xs s
   }"

lemma write_all_append:
  "write_all r ow v b (xs @ ys) s = Option.bind (write_all r ow v b xs s) (write_all r ow v b ys)"
  by (induction r ow v b xs s rule: write_all.induct) (auto split: Option.bind_splits)

text \<open>The last row that carries a key decides.\<close>

definition last_row :: "Row list \<Rightarrow> EntityKey \<Rightarrow> Fields option" where
  "last_row rows k = map_of (rev (map (\<lambda>row. (row_Entity row, row_Fields row)) rows)) k"

lemma last_row_Nil [simp]: "last_row [] k = None"
  by (simp add: last_row_def)

lemma last_row_Cons:
  "last_row (row # rows) k =
     (case last_row rows k of Some fs \<Rightarrow> Some fs
      | None \<Rightarrow> if k = row_Entity row then Some (row_Fields row) else None)"
  by (auto simp: last_row_def map_add_def split: option.splits)

lemma last_row_None: "last_row rows k = None \<longleftrightarrow> k \<notin> row_Entity ` set rows"
  by (induction rows) (auto simp: last_row_Cons split: option.splits)

text \<open>What importing the rows \<open>rows\<close> as batch \<open>b\<close> does to a store.\<close>

definition imported ::
  "Router \<Rightarrow> string list \<Rightarrow> string \<Rightarrow> string \<Rightarrow> Row list \<Rightarrow> Store \<Rightarrow> Store \<Rightarrow> bool" where
  "imported r ow v b rows s s' \<longleftrightarrow>
     store_wf r s' \<and>
     (\<forall>k n. field_of r s' k n =
        (case last_row rows k of
           Some fs \<Rightarrow> if n \<in> set ow then fmlookup fs n else field_of r s k n
         | None \<Rightarrow> field_of r s k n)) \<and>
     (\<forall>k. (last_row rows k = None \<longrightarrow> entries r s' k = entries r s k) \<and>
          (last_row rows k \<noteq> None \<longrightarrow> map_option e_VersionID (entries r s' k) = Some v)) \<and>
     (\<forall>base. records (undo_log (OpsFor (s_journal s) b)) base (entries r s) \<longrightarrow>
             records (undo_log (OpsFor (s_journal s') b)) base (entries r s')) \<and>
     (\<forall>c. c \<noteq> b \<longrightarrow> OpsFor (s_journal s') c = OpsFor (s_journal s) c) \<and>
     (journal_sound s \<longrightarrow> journal_sound s')"

lemma importedD:
  assumes "imported r ow v b rows s s'"
  shows "store_wf r s'"
    "field_of r s' k n =
        (case last_row rows k of
           Some fs \<Rightarrow> if n \<in> set ow then fmlookup fs n else field_of r s k n
         | None \<Rightarrow> field_of r s k n)"
    "last_row rows k = None \<Longrightarrow> entries r s' k = entries r s k"
    "last_row rows k \<noteq> None \<Longrightarrow> map_option e_VersionID (entries r s' k) = Some v"
    "records (undo_log (OpsFor (s_journal s) b)) base (entries r s) \<Longrightarrow>
       records (undo_log (OpsFor (s_journal s') b)) base (entries r s')"
    "c \<noteq> b \<Longrightarrow> OpsFor (s_journal s') c = OpsFor (s_journal s) c"
    "journal_sound s \<Longrightarrow> journal_sound s'"
  using assms unfolding imported_def by simp_all

lemma imported_refl: "store_wf r s \<Longrightarrow> imported r ow v b [] s s"
  by (simp add: imported_def)

lemma imported_row:
  assumes "store_wf r s" and w: "writeRow r row ow v b seg s = Some s'"
  shows "imported r ow v b [row] s s'"
proof -
  note e = writeRow_effect [OF assms]
  have "undo_log (OpsFor (s_journal s') b) =
      undo_log (OpsFor (s_journal s) b) @ [(row_Entity row, entries r s (row_Entity row))]"
    unfolding e(3) OpsFor_Append by (simp add: undo_log_def row_op_def)
  then have "records (undo_log (OpsFor (s_journal s') b)) base (entries r s')"
    if "records (undo_log (OpsFor (s_journal s) b)) base (entries r s)" for base
    using records_snoc [OF that, of "row_Entity row"] by (simp add: e(2))
  moreover have "OpsFor (s_journal s') c = OpsFor (s_journal s) c" if "c \<noteq> b" for c
    unfolding e(3) OpsFor_Append using that by (simp add: row_op_def)
  moreover have "field_of r s' k n =
      (case last_row [row] k of
         Some fs \<Rightarrow> if n \<in> set ow then fmlookup fs n else field_of r s k n
       | None \<Rightarrow> field_of r s k n)" for k n
    by (simp add: field_of_def e(2) last_row_Cons row_entry_fields)
  moreover have "last_row [row] k = None \<longrightarrow> entries r s' k = entries r s k"
    and "last_row [row] k \<noteq> None \<longrightarrow> map_option e_VersionID (entries r s' k) = Some v" for k
    by (simp_all add: e(2) last_row_Cons row_entry_def written_def)
  moreover have "op_fits (row_op row b seg (entries r s (row_Entity row)))"
    using entries_Key [OF assms(1)] by (simp add: op_fits_def row_op_def fits_key_def)
  then have "journal_sound s'" if "journal_sound s"
    using that unfolding journal_sound_def e(3) by (auto simp: Journal_Append_def)
  ultimately show ?thesis using e(1) unfolding imported_def by blast
qed

lemma last_row_append:
  "last_row (xs @ ys) k = (case last_row ys k of Some fs \<Rightarrow> Some fs | None \<Rightarrow> last_row xs k)"
  by (simp add: last_row_def map_add_def split: option.splits)

lemma imported_trans:
  assumes "imported r ow v b xs s s1" and "imported r ow v b ys s1 s2"
  shows "imported r ow v b (xs @ ys) s s2"
proof -
  note a = importedD [OF assms(1)] and b = importedD [OF assms(2)]
  show ?thesis
    unfolding imported_def last_row_append
    using a(4,7) b(1,4,7) by (auto simp: a(2,3,5,6) b(2,3,5,6) split: option.splits)
qed

lemma write_all_imported:
  "store_wf r s \<Longrightarrow>
     \<exists>s'. write_all r ow v b xs s = Some s' \<and> imported r ow v b (map fst xs) s s' \<and>
       (store_step reg r c)\<^sup>*\<^sup>* (m, s) (m, s')"
proof (induction xs arbitrary: s)
  case Nil
  then show ?case by (simp add: imported_refl)
next
  case (Cons x xs)
  obtain row seg where x: "x = (row, seg)" by (cases x)
  obtain s1 where s1: "writeRow r row ow v b seg s = Some s1" by (simp add: writeRow_wf [OF Cons.prems])
  note one = imported_row [OF Cons.prems s1] and steps = writeRow_steps [OF Cons.prems s1]
  obtain s' where "write_all r ow v b xs s1 = Some s'" "imported r ow v b (map fst xs) s1 s'"
    "(store_step reg r c)\<^sup>*\<^sup>* (m, s1) (m, s')"
    using Cons.IH [OF importedD(1) [OF one]] by blast
  then show ?case
    using s1 x imported_trans [OF one] rtranclp_trans [OF steps] by auto
qed

section \<open>The loop over windows\<close>

lemma import_rows_wf:
  "store_wf r s \<Longrightarrow> b_Segments batch = segs @ [segment] \<Longrightarrow>
     \<exists>s'. import_rows r ow v b rows segment batch s =
         Some (batch\<lparr>b_Segments := segs @ [segment\<lparr>seg_Rows := seg_Rows segment + length rows\<rparr>]\<rparr>, s') \<and>
       write_all r ow v b (map (\<lambda>row. (row, seg_Index segment)) rows) s = Some s' \<and> store_wf r s'"
proof (induction rows arbitrary: s segment batch)
  case Nil
  then have "batch\<lparr>b_Segments := segs @ [segment]\<rparr> = batch" by simp
  with Nil show ?case by simp
next
  case (Cons row rows)
  let ?seg = "segment\<lparr>seg_Rows := seg_Rows segment + 1\<rparr>"
  obtain s1 where s1: "writeRow r row ow v b (seg_Index segment) s = Some s1"
    by (simp add: writeRow_wf [OF Cons.prems(1)])
  have "store_wf r s1" using writeRow_effect(1) [OF Cons.prems(1) s1] .
  moreover have set_last: "set_last ?seg batch = batch\<lparr>b_Segments := segs @ [?seg]\<rparr>"
    using Cons.prems(2) by (simp add: set_last_def)
  ultimately obtain s' where
    "import_rows r ow v b rows ?seg (set_last ?seg batch) s1 =
       Some ((set_last ?seg batch)\<lparr>b_Segments := segs @ [?seg\<lparr>seg_Rows := seg_Rows ?seg + length rows\<rparr>]\<rparr>, s')"
    "write_all r ow v b (map (\<lambda>row. (row, seg_Index ?seg)) rows) s1 = Some s'" "store_wf r s'"
    using Cons.IH [of s1 "set_last ?seg batch" ?seg] by auto
  with s1 set_last show ?case by (simp add: Let_def)
qed

text \<open>The segments of an import of \<open>n\<close> rows in windows of \<open>w\<close>.\<close>

definition full_segment :: "nat \<Rightarrow> nat \<Rightarrow> nat \<Rightarrow> Segment" where
  "full_segment w n i = \<lparr>seg_Index = i, seg_Done = True, seg_Rows = min w (n - i * w)\<rparr>"

definition segment_count :: "nat \<Rightarrow> nat \<Rightarrow> nat" where
  "segment_count w n = (n + w - 1) div w"

lemma segment_count_less: "0 < w \<Longrightarrow> i < segment_count w n \<longleftrightarrow> i * w < n"
  unfolding segment_count_def
  by (subst Suc_le_eq [symmetric], subst less_eq_div_iff_mult_less_eq) auto

lemma import_loop_wf:
  assumes w: "0 < w"
  shows "store_wf r s \<Longrightarrow> i \<le> segment_count w (length rows) \<Longrightarrow>
     b_Segments batch = map (full_segment w (length rows)) [0 ..< i] \<Longrightarrow>
     \<exists>s' xs. import_loop r w rows ow v b (i * w) batch s =
         Some (batch\<lparr>b_Segments := map (full_segment w (length rows)) [0 ..< segment_count w (length rows)]\<rparr>, s') \<and>
       write_all r ow v b xs s = Some s' \<and> map fst xs = drop (i * w) rows"
proof (induction "segment_count w (length rows) - i" arbitrary: i batch s)
  case 0
  then have i: "i = segment_count w (length rows)" and "\<not> i * w < length rows"
    using segment_count_less [OF w, of i "length rows"] by simp_all
  moreover from i 0 have "batch\<lparr>b_Segments := map (full_segment w (length rows))
      [0 ..< segment_count w (length rows)]\<rparr> = batch" by (metis Batch.surjective Batch.update_convs(3) Batch.select_convs(3))
  ultimately show ?case
    by (subst import_loop.simps) (auto intro!: exI [of _ "[]"])
next
  case (Suc d)
  let ?n = "length rows"
  have less: "i < segment_count w ?n" using Suc.hyps(2) by simp
  then have start: "i * w < ?n" using segment_count_less [OF w] by blast
  let ?len = "min (i * w + w) ?n - i * w"
  let ?rows = "take ?len (drop (i * w) rows)"
  let ?seg = "\<lparr>seg_Index = i, seg_Done = False, seg_Rows = 0\<rparr>"
  let ?segs = "map (full_segment w ?n) [0 ..< i]"
  let ?batch = "batch\<lparr>b_Segments := ?segs @ [?seg]\<rparr>"
  obtain s1 where s1: "import_rows r ow v b ?rows ?seg ?batch s =
      Some (?batch\<lparr>b_Segments := ?segs @ [?seg\<lparr>seg_Rows := length ?rows\<rparr>]\<rparr>, s1)"
    "write_all r ow v b (map (\<lambda>row. (row, i)) ?rows) s = Some s1" "store_wf r s1"
    using import_rows_wf [OF Suc.prems(1), of ?batch ?segs ?seg ow v b ?rows] by auto
  have "length ?rows = min w (?n - i * w)" by auto
  then have full: "?seg\<lparr>seg_Rows := length ?rows, seg_Done := True\<rparr> = full_segment w ?n i"
    by (simp add: full_segment_def)
  let ?next = "batch\<lparr>b_Segments := map (full_segment w ?n) [0 ..< Suc i]\<rparr>"
  have mark: "mark_done (?batch\<lparr>b_Segments := ?segs @ [?seg\<lparr>seg_Rows := length ?rows\<rparr>]\<rparr>) = ?next"
    using full by (simp add: mark_done_def set_last_def list_update_append)
  have "Suc i \<le> segment_count w ?n" "d = segment_count w ?n - Suc i"
    using less Suc.hyps(2) by simp_all
  then obtain s' xs where rest: "import_loop r w rows ow v b (Suc i * w) ?next s1 =
      Some (?next\<lparr>b_Segments := map (full_segment w ?n) [0 ..< segment_count w ?n]\<rparr>, s')"
    "write_all r ow v b xs s1 = Some s'" "map fst xs = drop (Suc i * w) rows"
    using Suc.hyps(1) [of "Suc i" s1 ?next] s1(3) by auto
  have loop: "import_loop r w rows ow v b (i * w) batch s = import_loop r w rows ow v b (Suc i * w) ?next s1"
    using start Suc.prems(3) s1(1) mark
    by (subst import_loop.simps) (simp add: Let_def add.commute)
  have "drop (i * w) rows = ?rows @ drop (Suc i * w) rows"
  proof (cases "Suc i * w \<le> ?n")
    case True
    then have "?len = w" by simp
    moreover have "drop (Suc i * w) rows = drop w (drop (i * w) rows)" by (simp add: add.commute)
    ultimately show ?thesis by (metis append_take_drop_id)
  qed (simp add: min_def)
  then show ?case
    using loop rest s1(2)
    by (intro exI [of _ s'] exI [of _ "map (\<lambda>row. (row, i)) ?rows @ xs"])
      (simp add: write_all_append comp_def)
qed


definition new_batch :: "string \<Rightarrow> string \<Rightarrow> time \<Rightarrow> nat \<Rightarrow> nat \<Rightarrow> Batch" where
  "new_batch b v now w n =
     \<lparr>b_ID = b, b_VersionID = v, b_Segments = map (full_segment w n) [0 ..< segment_count w n],
      b_Started = now, b_Failed = False\<rparr>"

lemma Import_wf:
  assumes "store_wf r s" and "0 < im_windowSize im" and "b \<noteq> ''''" and "rows \<noteq> []"
    and "Registry_Get reg tid = Some t"
  shows "\<exists>s'. Import r reg b tid rows v now im s =
           Some (Inr (new_batch b v now (im_windowSize im) (length rows)),
             im\<lparr>im_batches := fmupd b (new_batch b v now (im_windowSize im) (length rows)) (im_batches im)\<rparr>, s') \<and>
           imported r (fieldWindow (Some t) rows) v b rows s s' \<and>
           (store_step reg r c)\<^sup>*\<^sup>* (m, s) (m, s')"
proof -
  let ?ow = "fieldWindow (Some t) rows"
  let ?batch = "\<lparr>b_ID = b, b_VersionID = v, b_Segments = [], b_Started = now, b_Failed = False\<rparr>"
  obtain s' xs where loop: "import_loop r (im_windowSize im) rows ?ow v b 0 ?batch s =
      Some (new_batch b v now (im_windowSize im) (length rows), s')"
    "write_all r ?ow v b xs s = Some s'" "map fst xs = rows"
    using import_loop_wf [OF assms(2,1), of 0 rows ?batch ?ow v b] by (auto simp: new_batch_def)
  have "MustGet reg tid = Some t" using assms(5) by (simp add: MustGet_def)
  then show ?thesis
    using assms(3,4) loop write_all_imported [OF assms(1), of ?ow v b xs reg c m]
    by (simp add: Import_def Let_def)
qed

section \<open>Properties\<close>

definition demo_importer :: Importer where
  "demo_importer = NewImporter 2"

definition demo_rows :: "Row list" where
  "demo_rows =
     [\<lparr>row_Entity = demo_user, row_Fields = fmupd ''age'' (IntValue 41) fmempty\<rparr>,
      \<lparr>row_Entity = EntityKey ''user_2'', row_Fields = fmupd ''city'' (StringValue ''x'') fmempty\<rparr>,
      \<lparr>row_Entity = demo_user, row_Fields = fmupd ''age'' (IntValue 42) fmempty\<rparr>]"

lemma demo_importer_window: "im_windowSize demo_importer = 2"
  by (simp add: demo_importer_def NewImporter_def)

lemma demo_window: "set (fieldWindow (Some UserProfileTable) demo_rows) = {''age'', ''city''}"
  by (auto simp: fieldWindow_spec demo_rows_def Table_FieldNames_def UserProfileTable_def)

text \<open>C13: An import of a non-empty file into a known table returns and changes exactly the fields of
  its window, the fields of the file that the table's schema has, on exactly the entities of the
  file: such a field takes the value of the entity's last row and is removed when that row does
  not carry it. Every other field, the fields written online among them, and every other entity
  is preserved.\<close>

theorem Import_preserves_other_fields:
  assumes "store_wf r s" and "0 < im_windowSize im" and "batch \<noteq> ''''" and "rows \<noteq> []"
    and "Registry_Get reg tid = Some t"
  shows "\<exists>res im' s'. Import r reg batch tid rows v now im s = Some (Inr res, im', s') \<and> store_wf r s' \<and>
           (\<forall>k n. field_of r s' k n =
              (case last_row rows k of
                 Some fs \<Rightarrow>
                   if n \<in> set (Table_FieldNames t) \<and> (\<exists>row \<in> set rows. n \<in> fmdom' (row_Fields row))
                   then fmlookup fs n else field_of r s k n
               | None \<Rightarrow> field_of r s k n)) \<and>
           (\<forall>k. k \<notin> row_Entity ` set rows \<longrightarrow> entries r s' k = entries r s k)"
proof -
  obtain res im' s' where i: "Import r reg batch tid rows v now im s = Some (Inr res, im', s')"
    "imported r (fieldWindow (Some t) rows) v batch rows s s'"
    using Import_wf [OF assms] by blast
  note d = importedD [OF i(2)]
  have "n \<in> set (fieldWindow (Some t) rows) \<longleftrightarrow>
      n \<in> set (Table_FieldNames t) \<and> (\<exists>row \<in> set rows. n \<in> fmdom' (row_Fields row))" for n
    by (auto simp: fieldWindow_spec)
  then have fields: "field_of r s' k n =
      (case last_row rows k of
         Some fs \<Rightarrow>
           if n \<in> set (Table_FieldNames t) \<and> (\<exists>row \<in> set rows. n \<in> fmdom' (row_Fields row))
           then fmlookup fs n else field_of r s k n
       | None \<Rightarrow> field_of r s k n)" for k n
    using d(2) [of k n] by (simp only:)
  have "entries r s' k = entries r s k" if "k \<notin> row_Entity ` set rows" for k
    using that d(3) [of k] by (simp add: last_row_None)
  then show ?thesis
    using i(1) d(1) fields by (intro exI [of _ res] exI [of _ im'] exI [of _ s'] conjI allI impI)
qed

lemma Import_preserves_other_fields_witness:
  "\<exists>res im' s'. Import demo_router seeded ''b'' ''user_profile'' demo_rows ''v2'' 0 demo_importer demo_written =
       Some (Inr res, im', s') \<and>
     field_of demo_router s' demo_user ''age'' = Some (IntValue 42) \<and>
     field_of demo_router s' demo_user ''nick'' = Some (StringValue ''ann'')"
proof -
  have "0 < im_windowSize demo_importer" "demo_rows \<noteq> []"
    "Registry_Get seeded ''user_profile'' = Some UserProfileTable"
    by (simp_all add: demo_importer_window demo_rows_def Get_seeded)
  from Import_preserves_other_fields [OF store_wf_demo_written this(1) _ this(2,3), of "''b''" "''v2''" 0]
  obtain res im' s' where i: "Import demo_router seeded ''b'' ''user_profile'' demo_rows ''v2'' 0 demo_importer
      demo_written = Some (Inr res, im', s')"
    "\<And>k n. field_of demo_router s' k n =
       (case last_row demo_rows k of
          Some fs \<Rightarrow>
            if n \<in> set (Table_FieldNames UserProfileTable) \<and>
               (\<exists>row \<in> set demo_rows. n \<in> fmdom' (row_Fields row))
            then fmlookup fs n else field_of demo_router demo_written k n
        | None \<Rightarrow> field_of demo_router demo_written k n)" by auto
  have "last_row demo_rows demo_user = Some (fmupd ''age'' (IntValue 42) fmempty)"
    by (simp add: demo_rows_def last_row_def)
  then have "field_of demo_router s' demo_user ''age'' = Some (IntValue 42)"
    "field_of demo_router s' demo_user ''nick'' = Some (StringValue ''ann'')"
    unfolding i(2) by (simp_all add: demo_rows_def Table_FieldNames_def UserProfileTable_def field_of_def
        entries_demo_written written_def demo_fields_def)
  with i(1) show ?thesis by blast
qed

text \<open>C14: Rolling an import back restores every entity to its state before the batch, whatever the
  number of rows per entity; with records of an earlier import under the same identifier in the
  journal, to the state before that one. The records of the batch are gone afterwards, the batch
  is marked failed.\<close>

theorem Import_then_Rollback:
  assumes "store_wf r s" and "journal_sound s" and "0 < im_windowSize im"
    and "batch \<noteq> ''''" and "rows \<noteq> []" and "Registry_Get reg tid = Some t"
    and "records (undo_log (OpsFor (s_journal s) batch)) base (entries r s)"
  shows "\<exists>res im1 s1 im2 s2. Import r reg batch tid rows v now im s = Some (Inr res, im1, s1) \<and>
           Importer_Rollback r batch im1 s1 = Some (None, im2, s2) \<and>
           entries r s2 = base \<and> OpsFor (s_journal s2) batch = [] \<and>
           map_option b_Failed (Importer_Batch im2 batch) = Some True"
proof -
  obtain s1 where i: "Import r reg batch tid rows v now im s =
      Some (Inr (new_batch batch v now (im_windowSize im) (length rows)),
        im\<lparr>im_batches := fmupd batch (new_batch batch v now (im_windowSize im) (length rows)) (im_batches im)\<rparr>, s1)"
    "imported r (fieldWindow (Some t) rows) v batch rows s s1"
    using Import_wf [OF assms(1,3-6)] by blast
  note d = importedD [OF i(2)]
  have "journal_sound s1" using d(7) assms(2) by blast
  from RollbackBatch_restores [OF d(1) this d(5) [OF assms(7)]]
  obtain s2 where s2: "RollbackBatch r batch s1 = Some s2" "entries r s2 = base" by blast
  have "OpsFor (s_journal s2) batch = []"
    using s2(1) RollbackBatch_eq [OF d(1) \<open>journal_sound s1\<close>] by (auto simp: OpsFor_Clear)
  with i(1) s2 show ?thesis
    by (simp add: Importer_Rollback_def Importer_Batch_def)
qed


lemma journal_sound_demo_written: "journal_sound demo_written"
  by (simp add: journal_sound_def cache_demo_written NewJournal_def)

lemma Import_then_Rollback_witness:
  "\<exists>res im1 s1 im2 s2.
     Import demo_router seeded ''b'' ''user_profile'' demo_rows ''v2'' 0 demo_importer demo_written =
       Some (Inr res, im1, s1) \<and>
     Importer_Rollback demo_router ''b'' im1 s1 = Some (None, im2, s2) \<and>
     entries demo_router s2 = entries demo_router demo_written"
proof -
  have 1: "0 < im_windowSize demo_importer" and 2: "demo_rows \<noteq> []" and 3: "''b'' \<noteq> ''''"
    and 4: "Registry_Get seeded ''user_profile'' = Some UserProfileTable"
    and 5: "records (undo_log (OpsFor (s_journal demo_written) ''b'')) (entries demo_router demo_written)
      (entries demo_router demo_written)"
    by (simp_all add: demo_importer_window demo_rows_def Get_seeded cache_demo_written NewJournal_def
        OpsFor_def undo_log_def)
  from Import_then_Rollback [OF store_wf_demo_written journal_sound_demo_written 1 3 2 4 5]
  show ?thesis by blast
qed

text \<open>C31: With a positive window size, an import of rows into a registered table under a non-empty batch
  identifier returns a batch that is also what the importer then holds under that identifier, not
  failed, with one segment for each window of rows, numbered in order, all of them done, none empty,
  each full but the last, which holds the remainder; no row is left out.\<close>

theorem Import_segments:
  assumes "store_wf r s" and "0 < im_windowSize im" and "batch \<noteq> ''''" and "rows \<noteq> []"
    and "Registry_Get reg tid = Some t"
  shows "\<exists>res im' s'. Import r reg batch tid rows v now im s = Some (Inr res, im', s') \<and>
           Importer_Batch im' batch = Some res \<and> \<not> b_Failed res \<and>
           (\<forall>i < length (b_Segments res).
              b_Segments res ! i =
                \<lparr>seg_Index = i, seg_Done = True,
                 seg_Rows = min (im_windowSize im) (length rows - i * im_windowSize im)\<rparr>) \<and>
           (\<Sum>seg \<leftarrow> b_Segments res. seg_Rows seg) = length rows \<and>
           (\<forall>seg \<in> set (b_Segments res). 0 < seg_Rows seg)"
proof -
  let ?w = "im_windowSize im" and ?n = "length rows"
  have sum: "(\<Sum>i \<leftarrow> [0 ..< k]. min ?w (?n - i * ?w)) = min (k * ?w) ?n" for k
    by (induction k) auto
  have "\<not> segment_count ?w ?n * ?w < ?n" using segment_count_less [OF assms(2)] by blast
  then have "(\<Sum>i \<leftarrow> [0 ..< segment_count ?w ?n]. min ?w (?n - i * ?w)) = ?n"
    unfolding sum by simp
  moreover have "0 < min ?w (?n - i * ?w)" if "i < segment_count ?w ?n" for i
    using that segment_count_less [OF assms(2)] assms(2) by simp
  moreover obtain im' s' where "Import r reg batch tid rows v now im s =
      Some (Inr (new_batch batch v now ?w ?n), im', s')"
    "Importer_Batch im' batch = Some (new_batch batch v now ?w ?n)"
    using Import_wf [OF assms, of v now] by (fastforce simp: Importer_Batch_def)
  ultimately show ?thesis
    by (intro exI [of _ "new_batch batch v now ?w ?n"] exI [of _ im'] exI [of _ s'])
      (auto simp: new_batch_def full_segment_def comp_def)
qed

lemma Import_segments_witness:
  "\<exists>res im' s'. Import demo_router seeded ''b'' ''user_profile'' demo_rows ''v2'' 0 demo_importer demo_written =
       Some (Inr res, im', s') \<and> (\<Sum>seg \<leftarrow> b_Segments res. seg_Rows seg) = 3"
proof -
  have 1: "0 < im_windowSize demo_importer" and 2: "demo_rows \<noteq> []" and 3: "''b'' \<noteq> ''''"
    and 4: "Registry_Get seeded ''user_profile'' = Some UserProfileTable" and 5: "length demo_rows = 3"
    by (simp_all add: demo_importer_window demo_rows_def Get_seeded)
  from Import_segments [OF store_wf_demo_written 1 3 2 4, of "''v2''" 0] 5 show ?thesis by fastforce
qed

text \<open>An empty batch identifier and an empty file are refused with an error and without a change;
  a table that is not registered is not refused but panics.\<close>

theorem Import_refusals:
  "Import r reg '''' tid rows v now im s = Some (Inl EmptyBatchID, im, s) \<and>
   (batch \<noteq> '''' \<longrightarrow> Import r reg batch tid [] v now im s = Some (Inl EmptyImportFile, im, s)) \<and>
   (batch \<noteq> '''' \<and> rows \<noteq> [] \<and> Registry_Get reg tid = None \<longrightarrow>
      Import r reg batch tid rows v now im s = None)"
  by (simp add: Import_def MustGet_def)

lemma Import_refusals_witness:
  "Import demo_router seeded ''b'' ''unknown'' demo_rows ''v2'' 0 demo_importer demo_written = None"
proof -
  have "demo_rows \<noteq> []" "Registry_Get seeded ''unknown'' = None"
    by (simp_all add: demo_rows_def Get_seeded)
  then show ?thesis using Import_refusals [of demo_router seeded "''unknown''" demo_rows "''v2''" 0
        demo_importer demo_written "''b''"] by simp
qed

end
