(* ===== verification/Compute.thy ===== *)
theory Compute
  imports ReadPath
begin

text \<open>
  \<open>internal/compute\<close>: backfill tasks. The results of a batch are rows whose field maps Go shares
  by reference: \<open>writeResult\<close> adds to the counters in place, in the very map the caller's slice
  holds, and a later \<open>resultFor\<close> on the same entity sees it. The rows are therefore threaded
  through, and returned with their final maps. Two rows of one batch are taken to have distinct
  maps, as the handler makes them.

  \<open>Store.CompareAndWrite\<close> returns no error, so the branches that stop a batch on one (and the
  state \<open>TaskPartial\<close> they set) are never taken and have no counterpart here.
\<close>

section \<open>Plans and signatures (plan.go, signature.go)\<close>

record Result =
  res_Entity :: EntityKey
  res_Fields :: Fields

definition zero_Result :: Result where
  "zero_Result = \<lparr>res_Entity = EntityKey '''', res_Fields = fmempty\<rparr>"

record Plan =
  plan_Order :: "EntityKey list"

definition BuildPlan :: "Result list \<Rightarrow> Plan" where
  "BuildPlan rows = \<lparr>plan_Order = sort (map res_Entity rows)\<rparr>"

definition fmtSignature :: "string \<Rightarrow> nat \<Rightarrow> string" where
  "fmtSignature taskID n = taskID @ ''#'' @ itoa n"

text \<open>The sum over a row's map does not depend on the order it is ranged over.\<close>

definition text_size :: "Fields \<Rightarrow> nat" where
  "text_size fs =
     (\<Sum>name \<leftarrow> sorted_keys fs. length name + length (FeatureValue_String (the (fmlookup fs name))))"

definition Signature :: "string \<Rightarrow> Result list \<Rightarrow> string" where
  "Signature taskID rows = fmtSignature taskID (\<Sum>row \<leftarrow> rows. text_size (res_Fields row))"

section \<open>Backfill (compute.go)\<close>

record Backfill =
  bf_tasks :: "(string, Task) fmap"

datatype ComputeError = EmptyTaskID

definition NewBackfill :: Backfill where
  "NewBackfill = \<lparr>bf_tasks = fmempty\<rparr>"

definition Backfill_Task :: "Backfill \<Rightarrow> string \<Rightarrow> Task option" where
  "Backfill_Task b taskID = fmlookup (bf_tasks b) taskID"

fun resultFor :: "Result list \<Rightarrow> EntityKey \<Rightarrow> Result" where
  "resultFor [] key = zero_Result"
| "resultFor (row # rows) key = (if res_Entity row = key then row else resultFor rows key)"

text \<open>The map of the row \<open>resultFor\<close> returned has been changed: so has the row in the slice.\<close>

fun set_result :: "EntityKey \<Rightarrow> Fields \<Rightarrow> Result list \<Rightarrow> Result list" where
  "set_result key fs [] = []"
| "set_result key fs (row # rows) =
     (if res_Entity row = key then row\<lparr>res_Fields := fs\<rparr> # rows
      else row # set_result key fs rows)"

text \<open>Counters add with the wrap-around of \<open>int64\<close>.\<close>

definition add_counter :: "Fields \<Rightarrow> string \<Rightarrow> FeatureValue \<Rightarrow> FeatureValue" where
  "add_counter current name value =
     (if fv_Type value \<noteq> FieldInt then value
      else case fmlookup current name of
             None \<Rightarrow> value
           | Some existing \<Rightarrow>
               if fv_Type existing = FieldInt then IntValue (fv_Int existing + fv_Int value) else value)"

definition add_counters :: "Entry option \<Rightarrow> Fields \<Rightarrow> Fields" where
  "add_counters current fs =
     (case current of None \<Rightarrow> fs | Some e \<Rightarrow> fmmap_keys (add_counter (e_Fields e)) fs)"

text \<open>The result carries the row's map as the call leaves it.\<close>

definition writeResult ::
  "Router \<Rightarrow> Result \<Rightarrow> Version \<Rightarrow> Store \<Rightarrow> (bool \<times> Fields \<times> Store) go" where
  "writeResult r row version s = do {
     current \<leftarrow> EntryFor r (res_Entity row) s;
     let fs = add_counters current (res_Fields row);
     (ok, s) \<leftarrow> CompareAndWrite r (res_Entity row) fs version s;
     Some (ok, fs, s)
   }"

definition bump :: "Task \<Rightarrow> Task" where
  "bump task =
     (let task = task\<lparr>task_Processed := task_Processed task + 1\<rparr>
      in if Task_Completed (Some task) then task\<lparr>task_State := TaskDone\<rparr> else task)"

fun run_loop ::
  "Router \<Rightarrow> Version \<Rightarrow> EntityKey list \<Rightarrow> nat \<Rightarrow> Task \<Rightarrow> Result list \<Rightarrow> Store \<Rightarrow>
   (nat \<times> Task \<times> Result list \<times> Store) go" where
  "run_loop r version [] num task rows s = Some (num, task, rows, s)"
| "run_loop r version (key # keys) num task rows s = do {
     (ok, fs, s) \<leftarrow> writeResult r (resultFor rows key) version s;
     run_loop r version keys (if ok then num + 1 else num) (bump task)
       (set_result key fs rows) s
   }"

text \<open>\<open>t1\<close> and \<open>t2\<close> are the two readings of \<open>time.Now\<close> the task is stamped with.\<close>

definition Run ::
  "Router \<Rightarrow> string \<Rightarrow> Version \<Rightarrow> Result list \<Rightarrow> time \<Rightarrow> time \<Rightarrow> Backfill \<Rightarrow> Store \<Rightarrow>
   ((ComputeError + nat) \<times> Result list \<times> Backfill \<times> Store) go" where
  "Run r taskID version rows t1 t2 b s =
     (if taskID = '''' then Some (Inl EmptyTaskID, rows, b, s)
      else do {
        let task = \<lparr>task_ID = taskID, task_TableID = v_TableID version, task_State = TaskRunning,
                    task_Total = length rows, task_Processed = 0, task_UpdatedAt = t1\<rparr>;
        (num, task, rows, s) \<leftarrow> run_loop r version (plan_Order (BuildPlan rows)) 0 task rows s;
        Some (Inr num, rows,
              b\<lparr>bf_tasks := fmupd taskID (task\<lparr>task_UpdatedAt := t2\<rparr>) (bf_tasks b)\<rparr>, s)
      })"

fun retry_loop ::
  "Router \<Rightarrow> string \<Rightarrow> string \<Rightarrow> Version \<Rightarrow> EntityKey list \<Rightarrow> nat \<Rightarrow> Result list \<Rightarrow> Store \<Rightarrow>
   (nat \<times> Result list \<times> Store) go" where
  "retry_loop r taskID signature version [] num rows s = Some (num, rows, s)"
| "retry_loop r taskID signature version (key # keys) num rows s =
     (let row = resultFor rows key in
      if IsCommitted taskID (res_Entity row) signature (s_results s)
      then retry_loop r taskID signature version keys num rows s
      else do {
        (ok, fs, s) \<leftarrow> writeResult r row version s;
        let rows = set_result key fs rows;
        if ok
        then retry_loop r taskID signature version keys (num + 1) rows
               (s\<lparr>s_results := MarkCommitted taskID (res_Entity row) signature (s_results s)\<rparr>)
        else retry_loop r taskID signature version keys num rows s
      })"

definition Retry ::
  "Router \<Rightarrow> string \<Rightarrow> Version \<Rightarrow> Result list \<Rightarrow> Store \<Rightarrow> (nat \<times> Result list \<times> Store) go" where
  "Retry r taskID version rows s =
     retry_loop r taskID (Signature taskID rows) version (plan_Order (BuildPlan rows)) 0 rows s"


section \<open>One row\<close>

definition accepted :: "Router \<Rightarrow> Version \<Rightarrow> Store \<Rightarrow> EntityKey \<Rightarrow> bool" where
  "accepted r version s k \<longleftrightarrow> \<not> stale_write (entries r s k) (v_ID version)"

definition result_entry :: "Router \<Rightarrow> Version \<Rightarrow> Store \<Rightarrow> Result \<Rightarrow> Entry" where
  "result_entry r version s row =
     written (res_Entity row) (add_counters (entries r s (res_Entity row)) (res_Fields row))
       (v_ID version) (s_now s 0)"

definition after_result :: "Router \<Rightarrow> Version \<Rightarrow> Result \<Rightarrow> Store \<Rightarrow> Store" where
  "after_result r version row s =
     (if accepted r version s (res_Entity row)
      then set_entry r (res_Entity row) (Some (result_entry r version s row)) (s\<lparr>s_now := \<lambda>n. s_now s (Suc n)\<rparr>)
      else s)"

lemma writeResult_wf:
  assumes "store_wf r s"
  shows "writeResult r row version s =
     Some (accepted r version s (res_Entity row),
       add_counters (entries r s (res_Entity row)) (res_Fields row), after_result r version row s)"
  by (simp add: writeResult_def EntryFor_wf [OF assms] CompareAndWrite_eq [OF assms] accepted_def
      after_result_def result_entry_def Let_def)

lemma after_result:
  assumes "store_wf r s"
  shows "store_wf r (after_result r version row s)"
    "entries r (after_result r version row s) =
       (if accepted r version s (res_Entity row)
        then (entries r s)(res_Entity row \<mapsto> result_entry r version s row) else entries r s)"
    "s_results (after_result r version row s) = s_results s"
    "s_journal (after_result r version row s) = s_journal s"
proof -
  let ?s = "s\<lparr>s_now := \<lambda>n. s_now s (Suc n)\<rparr>"
  have wf: "store_wf r ?s" using assms by (simp add: store_wf_frame)
  show "store_wf r (after_result r version row s)"
    unfolding after_result_def using assms
    by (auto intro!: store_wf_set_entry [OF wf] simp: result_entry_def)
  show "entries r (after_result r version row s) =
       (if accepted r version s (res_Entity row)
        then (entries r s)(res_Entity row \<mapsto> result_entry r version s row) else entries r s)"
    unfolding after_result_def using entries_set_entry [OF wf] by simp
  show "s_results (after_result r version row s) = s_results s"
    "s_journal (after_result r version row s) = s_journal s"
    by (simp_all add: after_result_def)
qed

lemma writeResult_step:
  assumes "store_wf r s"
  shows "store_step reg r c (m, s) (m, after_result r version row s)"
proof -
  have "CompareAndWrite r (res_Entity row) (add_counters (entries r s (res_Entity row)) (res_Fields row))
      version s = Some (accepted r version s (res_Entity row), after_result r version row s)"
    by (simp add: CompareAndWrite_eq [OF assms] after_result_def accepted_def result_entry_def)
  then show ?thesis by (rule do_compare)
qed

section \<open>The rows of a batch\<close>

lemma resultFor_set_result:
  "resultFor (set_result key fs rows) k =
     (if k = key \<and> key \<in> res_Entity ` set rows then (resultFor rows key)\<lparr>res_Fields := fs\<rparr>
      else resultFor rows k)"
  by (induction rows) auto

lemma resultFor_Entity: "k \<in> res_Entity ` set rows \<Longrightarrow> res_Entity (resultFor rows k) = k"
  by (induction rows) auto

lemma resultFor_distinct:
  "distinct (map res_Entity rows) \<Longrightarrow> row \<in> set rows \<Longrightarrow> resultFor rows (res_Entity row) = row"
  by (induction rows) (auto simp: image_iff)

lemma plan_keys:
  "set (plan_Order (BuildPlan rows)) = res_Entity ` set rows"
  "length (plan_Order (BuildPlan rows)) = length rows"
  "distinct (plan_Order (BuildPlan rows)) \<longleftrightarrow> distinct (map res_Entity rows)"
  by (simp_all add: BuildPlan_def)

text \<open>What a pass over rows with distinct entities does; \<open>go k\<close> tells which keys it attempts.\<close>

definition pass ::
  "Router \<Rightarrow> Version \<Rightarrow> (EntityKey \<Rightarrow> bool) \<Rightarrow> (EntityKey \<Rightarrow> Result) \<Rightarrow> EntityKey set \<Rightarrow> Store \<Rightarrow> Store \<Rightarrow> bool" where
  "pass r version go row K s s' \<longleftrightarrow>
     store_wf r s' \<and>
     (\<forall>k. (k \<in> K \<and> go k \<and> accepted r version s k \<longrightarrow>
             (\<exists>t. entries r s' k =
                Some (written k (add_counters (entries r s k) (res_Fields (row k))) (v_ID version) t))) \<and>
          (\<not> (k \<in> K \<and> go k \<and> accepted r version s k) \<longrightarrow> entries r s' k = entries r s k))"

lemma passD:
  assumes "pass r version go row K s s'"
  shows "store_wf r s'"
    "k \<in> K \<Longrightarrow> go k \<Longrightarrow> accepted r version s k \<Longrightarrow>
       \<exists>t. entries r s' k = Some (written k (add_counters (entries r s k) (res_Fields (row k))) (v_ID version) t)"
    "\<not> (k \<in> K \<and> go k \<and> accepted r version s k) \<Longrightarrow> entries r s' k = entries r s k"
  using assms unfolding pass_def by simp_all

lemma pass_empty: "store_wf r s \<Longrightarrow> pass r version go row {} s s"
  by (simp add: pass_def)

lemma pass_skip: "pass r version go row K s s' \<Longrightarrow> \<not> go key \<Longrightarrow> pass r version go row (insert key K) s s'"
  unfolding pass_def by (metis insertE insertI2)

lemma pass_first:
  assumes wf: "store_wf r s" and key: "res_Entity (row key) = key" "key \<notin> K" "go key"
    and s1: "store_wf r s1" "entries r s1 = entries r (after_result r version (row key) s)"
    and rest: "pass r version go row K s1 s'"
  shows "pass r version go row (insert key K) s s'"
proof -
  have e1: "entries r s1 k =
      (if k = key \<and> accepted r version s key then Some (result_entry r version s (row key)) else entries r s k)" for k
    unfolding s1(2) after_result(2) [OF wf] using key(1) by simp
  have acc: "accepted r version s1 k \<longleftrightarrow> accepted r version s k" if "k \<noteq> key" for k
    using that e1 [of k] by (simp add: accepted_def)
  have "entries r s' key = entries r s1 key" using passD(3) [OF rest] key(2) by simp
  then have own: "accepted r version s key \<longrightarrow> (\<exists>t. entries r s' key =
      Some (written key (add_counters (entries r s key) (res_Fields (row key))) (v_ID version) t))"
    "\<not> accepted r version s key \<longrightarrow> entries r s' key = entries r s key"
    using e1 [of key] key(1) by (auto simp: result_entry_def)
  have other: "(k \<in> K \<and> go k \<and> accepted r version s k \<longrightarrow>
       (\<exists>t. entries r s' k = Some (written k (add_counters (entries r s k) (res_Fields (row k))) (v_ID version) t))) \<and>
     (\<not> (k \<in> K \<and> go k \<and> accepted r version s k) \<longrightarrow> entries r s' k = entries r s k)" if "k \<noteq> key" for k
    using passD(2,3) [OF rest, of k] acc [OF that] e1 [of k] that by auto
  show ?thesis
    unfolding pass_def
  proof (intro conjI allI)
    show "store_wf r s'" using rest by (rule passD)
    fix k
    show "k \<in> insert key K \<and> go k \<and> accepted r version s k \<longrightarrow>
       (\<exists>t. entries r s' k = Some (written k (add_counters (entries r s k) (res_Fields (row k))) (v_ID version) t))"
      using own(1) other [of k] by (cases "k = key") auto
    show "\<not> (k \<in> insert key K \<and> go k \<and> accepted r version s k) \<longrightarrow> entries r s' k = entries r s k"
      using own(2) other [of k] key(3) by (cases "k = key") auto
  qed
qed

section \<open>Run\<close>

lemma run_loop_task:
  "run_loop r version keys n task rows s = Some (n', task', rows', s') \<Longrightarrow> task' = (bump ^^ length keys) task"
  by (induction r version keys n task rows s rule: run_loop.induct)
    (auto simp: funpow_swap1 split: Option.bind_splits prod.splits)

lemma bump_frame:
  "task_Total (bump t) = task_Total t" "task_Processed (bump t) = Suc (task_Processed t)"
  "task_ID (bump t) = task_ID t" "task_TableID (bump t) = task_TableID t"
  "task_State (bump t) = (if task_Total t \<le> Suc (task_Processed t) then TaskDone else task_State t)"
  by (simp_all add: bump_def Task_Completed_def Let_def)

lemma bump_iter:
  "task_Total ((bump ^^ n) t) = task_Total t \<and> task_Processed ((bump ^^ n) t) = task_Processed t + n \<and>
   task_ID ((bump ^^ n) t) = task_ID t \<and> task_TableID ((bump ^^ n) t) = task_TableID t \<and>
   task_State ((bump ^^ n) t) =
     (if 0 < n \<and> task_Total t \<le> task_Processed t + n then TaskDone else task_State t)"
  by (induction n) (auto simp: bump_frame)

lemma run_loop_wf:
  "store_wf r s \<Longrightarrow> distinct keys \<Longrightarrow> (\<forall>k \<in> set keys. resultFor rows k = row k \<and> res_Entity (row k) = k) \<Longrightarrow>
     \<exists>task' rows' s'. run_loop r version keys n task rows s =
         Some (n + length (filter (accepted r version s) keys), task', rows', s') \<and>
       pass r version (\<lambda>_. True) row (set keys) s s' \<and> s_results s' = s_results s"
proof (induction keys arbitrary: n task rows s)
  case Nil
  then show ?case by (simp add: pass_empty)
next
  case (Cons key keys)
  let ?s = "after_result r version (row key) s" and ?acc = "accepted r version s key"
  let ?fs = "add_counters (entries r s key) (res_Fields (row key))"
  have key: "resultFor rows key = row key" "res_Entity (row key) = key" "key \<notin> set keys"
    using Cons.prems by auto
  note wf = after_result(1) [OF Cons.prems(1), of version "row key"]
  have same: "filter (accepted r version ?s) keys = filter (accepted r version s) keys"
    using key by (intro filter_cong) (auto simp: accepted_def after_result(2) [OF Cons.prems(1)])
  have rows: "\<forall>k \<in> set keys. resultFor (set_result key ?fs rows) k = row k \<and> res_Entity (row k) = k"
    using Cons.prems(3) key(3) by (auto simp: resultFor_set_result)
  obtain task' rows' s' where *:
    "run_loop r version keys (if ?acc then n + 1 else n) (bump task) (set_result key ?fs rows) ?s =
       Some ((if ?acc then n + 1 else n) + length (filter (accepted r version s) keys), task', rows', s')"
    "pass r version (\<lambda>_. True) row (set keys) ?s s'" "s_results s' = s_results ?s"
    using Cons.IH [OF wf _ rows] Cons.prems(2) unfolding same by fastforce
  have "pass r version (\<lambda>_. True) row (insert key (set keys)) s s'"
    using pass_first [OF Cons.prems(1) key(2,3) _ wf refl *(2)] by simp
  then show ?case
    using * key by (simp add: writeResult_wf [OF Cons.prems(1)] after_result(3) [OF Cons.prems(1)])
qed


section \<open>Retry\<close>

definition open_key :: "string \<Rightarrow> string \<Rightarrow> Store \<Rightarrow> EntityKey \<Rightarrow> bool" where
  "open_key taskID signature s k \<longleftrightarrow> \<not> IsCommitted taskID k signature (s_results s)"

lemma entries_results: "entries r (s\<lparr>s_results := c\<rparr>) = entries r s"
  by simp

lemma retry_loop_wf:
  "store_wf r s \<Longrightarrow> distinct keys \<Longrightarrow> (\<forall>k \<in> set keys. resultFor rows k = row k \<and> res_Entity (row k) = k) \<Longrightarrow>
     \<exists>rows' s'. retry_loop r t sig version keys n rows s =
         Some (n + length (filter (\<lambda>k. open_key t sig s k \<and> accepted r version s k) keys), rows', s') \<and>
       pass r version (open_key t sig s) row (set keys) s s' \<and>
       (\<forall>k. open_key t sig s' k \<longleftrightarrow>
          open_key t sig s k \<and> \<not> (k \<in> set keys \<and> accepted r version s k))"
proof (induction keys arbitrary: n rows s)
  case Nil
  then show ?case by (simp add: pass_empty)
next
  case (Cons key keys)
  let ?go = "open_key t sig s" and ?acc = "accepted r version s key"
  let ?fs = "add_counters (entries r s key) (res_Fields (row key))"
  have key: "resultFor rows key = row key" "res_Entity (row key) = key" "key \<notin> set keys"
    using Cons.prems by auto
  show ?case
  proof (cases "?go key")
    case False
    obtain rows' s' where *: "retry_loop r t sig version keys n rows s =
        Some (n + length (filter (\<lambda>k. ?go k \<and> accepted r version s k) keys), rows', s')"
      "pass r version ?go row (set keys) s s'"
      "\<forall>k. open_key t sig s' k \<longleftrightarrow> ?go k \<and> \<not> (k \<in> set keys \<and> accepted r version s k)"
      using Cons.IH [OF Cons.prems(1), of rows n] Cons.prems by auto
    have "pass r version ?go row (insert key (set keys)) s s'"
      using *(2) False by (rule pass_skip)
    moreover have "retry_loop r t sig version (key # keys) n rows s = retry_loop r t sig version keys n rows s"
      using False key by (simp add: open_key_def Let_def)
    ultimately show ?thesis using * False by auto
  next
    case True
    let ?mid = "after_result r version (row key) s"
    let ?s = "if ?acc then ?mid\<lparr>s_results := MarkCommitted t key sig (s_results ?mid)\<rparr> else ?mid"
    have wf: "store_wf r ?s" using after_result(1) [OF Cons.prems(1)] by (simp add: store_wf_frame)
    have ent: "entries r ?s = entries r ?mid" by simp
    have go: "open_key t sig ?s k \<longleftrightarrow> ?go k \<and> \<not> (k = key \<and> ?acc)" for k
      by (auto simp: open_key_def after_result(3) [OF Cons.prems(1)] IsCommitted_Mark)
    have acc: "accepted r version ?s k \<longleftrightarrow> accepted r version s k" if "k \<noteq> key" for k
      unfolding accepted_def ent using that key(2) by (simp add: after_result(2) [OF Cons.prems(1)])
    have same: "filter (\<lambda>k. open_key t sig ?s k \<and> accepted r version ?s k) keys =
        filter (\<lambda>k. ?go k \<and> accepted r version s k) keys"
    proof (rule filter_cong [OF refl])
      fix k
      assume "k \<in> set keys"
      then have "k \<noteq> key" using key(3) by blast
      then show "open_key t sig ?s k \<and> accepted r version ?s k \<longleftrightarrow> ?go k \<and> accepted r version s k"
        using acc go [of k] by blast
    qed
    have rows: "\<forall>k \<in> set keys. resultFor (set_result key ?fs rows) k = row k \<and> res_Entity (row k) = k"
      using Cons.prems(3) key(3) by (auto simp: resultFor_set_result)
    obtain rows' s' where *:
      "retry_loop r t sig version keys (if ?acc then n + 1 else n) (set_result key ?fs rows) ?s =
         Some ((if ?acc then n + 1 else n) + length (filter (\<lambda>k. ?go k \<and> accepted r version s k) keys), rows', s')"
      "pass r version (open_key t sig ?s) row (set keys) ?s s'"
      "\<forall>k. open_key t sig s' k \<longleftrightarrow> open_key t sig ?s k \<and> \<not> (k \<in> set keys \<and> accepted r version ?s k)"
      using Cons.IH [OF wf _ rows] Cons.prems(2) unfolding same by fastforce
    have "pass r version ?go row (set keys) ?s s'"
      using *(2) key(3) go unfolding pass_def by (metis (no_types, lifting))
    then have "pass r version ?go row (insert key (set keys)) s s'"
      using pass_first [where row = row and key = key and go = ?go,
          OF Cons.prems(1) key(2,3) _ wf ent] True by blast
    moreover have "retry_loop r t sig version (key # keys) n rows s =
        retry_loop r t sig version keys (if ?acc then n + 1 else n) (set_result key ?fs rows) ?s"
      using True key by (simp add: open_key_def Let_def writeResult_wf [OF Cons.prems(1)])
    moreover have "open_key t sig s' k \<longleftrightarrow>
        ?go k \<and> \<not> (k \<in> set (key # keys) \<and> accepted r version s k)" for k
      using *(3) go [of k] acc [of k] key(3) by (cases "k = key") auto
    ultimately show ?thesis using *(1) True by auto
  qed
qed

text \<open>A pass that finds every key committed or stale does nothing at all.\<close>

lemma retry_loop_nothing:
  "store_wf r s \<Longrightarrow> (\<forall>k \<in> set keys. k \<in> res_Entity ` set rows) \<Longrightarrow>
     (\<forall>k \<in> set keys. \<not> open_key t sig s k \<or> \<not> accepted r version s k) \<Longrightarrow>
     \<exists>rows'. retry_loop r t sig version keys n rows s = Some (n, rows', s)"
proof (induction keys arbitrary: rows)
  case (Cons key keys)
  have key: "res_Entity (resultFor rows key) = key" using Cons.prems(2) by (simp add: resultFor_Entity)
  show ?case
  proof (cases "open_key t sig s key")
    case False
    with Cons key show ?thesis by (simp add: open_key_def Let_def)
  next
    case True
    let ?rows = "set_result key (add_counters (entries r s key) (res_Fields (resultFor rows key))) rows"
    have "res_Entity ` set ?rows = res_Entity ` set rows"
      by (induction rows) auto
    moreover have "after_result r version (resultFor rows key) s = s" "\<not> accepted r version s key"
      using Cons.prems(3) True key by (simp_all add: after_result_def)
    ultimately show ?thesis
      using Cons.IH [of ?rows] Cons.prems True key
      by (simp add: open_key_def Let_def writeResult_wf [OF Cons.prems(1)])
  qed
qed simp

text \<open>Writing under a version does not make the entity too new for that version.\<close>

lemma accepted_written: "entries r s k = Some (written k fs (v_ID version) t) \<Longrightarrow> accepted r version s k"
  by (simp add: accepted_def stale_write_def versionNewer_def written_def)

lemma pass_accepted:
  assumes "pass r version go row K s s'"
  shows "accepted r version s' k \<longleftrightarrow> accepted r version s k"
proof (cases "k \<in> K \<and> go k \<and> accepted r version s k")
  case True
  then show ?thesis using passD(2) [OF assms] accepted_written by blast
next
  case False
  then show ?thesis using passD(3) [OF assms] by (simp add: accepted_def)
qed

text \<open>The two operations on rows with distinct entities.\<close>

lemma Run_wf:
  assumes "store_wf r s" and "t \<noteq> ''''" and "distinct (map res_Entity rows)"
  shows "\<exists>rows' b' s'. Run r t version rows t1 t2 b s =
           Some (Inr (length (filter (accepted r version s) (plan_Order (BuildPlan rows)))), rows', b', s') \<and>
           pass r version (\<lambda>_. True) (resultFor rows) (res_Entity ` set rows) s s' \<and>
           s_results s' = s_results s"
proof -
  have "\<forall>k \<in> set (plan_Order (BuildPlan rows)). resultFor rows k = resultFor rows k \<and> res_Entity (resultFor rows k) = k"
    by (simp add: plan_keys resultFor_Entity)
  moreover have "distinct (plan_Order (BuildPlan rows))" using assms(3) by (simp add: plan_keys)
  ultimately obtain task' rows' s' where "run_loop r version (plan_Order (BuildPlan rows)) 0
      \<lparr>task_ID = t, task_TableID = v_TableID version, task_State = TaskRunning,
       task_Total = length rows, task_Processed = 0, task_UpdatedAt = t1\<rparr> rows s =
      Some (0 + length (filter (accepted r version s) (plan_Order (BuildPlan rows))), task', rows', s')"
    "pass r version (\<lambda>_. True) (resultFor rows) (set (plan_Order (BuildPlan rows))) s s'"
    "s_results s' = s_results s"
    using run_loop_wf [OF assms(1)] by blast
  with assms(2) show ?thesis by (simp add: Run_def plan_keys Let_def)
qed

lemma Retry_wf:
  assumes "store_wf r s" and "distinct (map res_Entity rows)"
  shows "\<exists>rows' s'. Retry r t version rows s =
           Some (length (filter (\<lambda>k. open_key t (Signature t rows) s k \<and> accepted r version s k)
                   (plan_Order (BuildPlan rows))), rows', s') \<and>
           pass r version (open_key t (Signature t rows) s) (resultFor rows) (res_Entity ` set rows) s s' \<and>
           (\<forall>k. open_key t (Signature t rows) s' k \<longleftrightarrow> open_key t (Signature t rows) s k \<and>
              \<not> (k \<in> res_Entity ` set rows \<and> accepted r version s k))"
proof -
  have "\<forall>k \<in> set (plan_Order (BuildPlan rows)). resultFor rows k = resultFor rows k \<and> res_Entity (resultFor rows k) = k"
    by (simp add: plan_keys resultFor_Entity)
  from retry_loop_wf [OF assms(1) _ this, of t "Signature t rows" version 0] assms(2) show ?thesis
    by (simp add: Retry_def plan_keys)
qed

lemma Retry_nothing:
  assumes "store_wf r s"
    and "\<And>k. k \<in> res_Entity ` set rows \<Longrightarrow> \<not> open_key t (Signature t rows) s k \<or> \<not> accepted r version s k"
  shows "\<exists>rows'. Retry r t version rows s = Some (0, rows', s)"
  unfolding Retry_def by (rule retry_loop_nothing) (use assms in \<open>auto simp: plan_keys\<close>)


section \<open>Passes as sequences of steps\<close>

lemma run_loop_steps:
  "store_wf r s \<Longrightarrow>
     \<exists>n' rows' s'. run_loop r version keys n task rows s = Some (n', (bump ^^ length keys) task, rows', s') \<and>
       (store_step reg r c)\<^sup>*\<^sup>* (m, s) (m, s')"
proof (induction keys arbitrary: n task rows s)
  case (Cons key keys)
  let ?row = "resultFor rows key"
  let ?s = "after_result r version ?row s"
  let ?acc = "accepted r version s (res_Entity ?row)"
  let ?rows = "set_result key (add_counters (entries r s (res_Entity ?row)) (res_Fields ?row)) rows"
  obtain n' rows' s' where *: "run_loop r version keys (if ?acc then n + 1 else n) (bump task) ?rows ?s =
      Some (n', (bump ^^ length keys) (bump task), rows', s')"
    "(store_step reg r c)\<^sup>*\<^sup>* (m, ?s) (m, s')"
    using Cons.IH [OF after_result(1) [OF Cons.prems]] by blast
  have "(store_step reg r c)\<^sup>*\<^sup>* (m, s) (m, s')"
    using writeResult_step [OF Cons.prems] *(2) by (rule converse_rtranclp_into_rtranclp)
  then show ?case using *(1) by (simp add: writeResult_wf [OF Cons.prems] funpow_swap1)
qed simp

lemma retry_loop_steps:
  "store_wf r s \<Longrightarrow>
     \<exists>n' rows' s'. retry_loop r t sig version keys n rows s = Some (n', rows', s') \<and>
       (store_step reg r c)\<^sup>*\<^sup>* (m, s) (m, s')"
proof (induction keys arbitrary: n rows s)
  case (Cons key keys)
  let ?row = "resultFor rows key"
  let ?mid = "after_result r version ?row s"
  let ?acc = "accepted r version s (res_Entity ?row)"
  let ?rows = "set_result key (add_counters (entries r s (res_Entity ?row)) (res_Fields ?row)) rows"
  let ?s = "if ?acc then ?mid\<lparr>s_results := MarkCommitted t (res_Entity ?row) sig (s_results ?mid)\<rparr> else ?mid"
  show ?case
  proof (cases "IsCommitted t (res_Entity ?row) sig (s_results s)")
    case True
    then show ?thesis using Cons.IH [OF Cons.prems, of n rows] by (simp add: Let_def)
  next
    case False
    have wf: "store_wf r ?s" using after_result(1) [OF Cons.prems] by (simp add: store_wf_frame)
    obtain n' rows' s' where *: "retry_loop r t sig version keys (if ?acc then n + 1 else n) ?rows ?s =
        Some (n', rows', s')" "(store_step reg r c)\<^sup>*\<^sup>* (m, ?s) (m, s')"
      using Cons.IH [OF wf] by blast
    have "(store_step reg r c)\<^sup>*\<^sup>* (m, s) (m, ?s)"
    proof -
      have "store_step reg r c (m, s) (m, ?mid)" using Cons.prems by (rule writeResult_step)
      moreover have "(store_step reg r c)\<^sup>*\<^sup>* (m, ?mid) (m, ?s)" using do_commit by auto
      ultimately show ?thesis by (rule converse_rtranclp_into_rtranclp)
    qed
    then have "(store_step reg r c)\<^sup>*\<^sup>* (m, s) (m, s')" using *(2) by (rule rtranclp_trans)
    moreover have "retry_loop r t sig version (key # keys) n rows s =
        retry_loop r t sig version keys (if ?acc then n + 1 else n) ?rows ?s"
      using False by (simp add: Let_def writeResult_wf [OF Cons.prems])
    ultimately show ?thesis using *(1) by auto
  qed
qed simp

section \<open>Properties\<close>

lemma add_counters_lookup:
  "fmlookup (add_counters cur fs) n =
     (case fmlookup fs n of
        None \<Rightarrow> None
      | Some v \<Rightarrow> Some (case cur of None \<Rightarrow> v | Some e \<Rightarrow> add_counter (e_Fields e) n v))"
  by (simp add: add_counters_def split: option.splits)

definition counter :: "Router \<Rightarrow> Store \<Rightarrow> EntityKey \<Rightarrow> string \<Rightarrow> int64 \<Rightarrow> bool" where
  "counter r s k n x \<longleftrightarrow> field_of r s k n = Some (IntValue x)"

lemma add_counter_Int:
  assumes "counter r s k n x" and "fmlookup fs n = Some (IntValue v)"
  shows "fmlookup (add_counters (entries r s k) fs) n = Some (IntValue (x + v))"
proof -
  obtain e where "entries r s k = Some e" "fmlookup (e_Fields e) n = Some (IntValue x)"
    using assms(1) by (auto simp: counter_def field_of_def bind_eq_Some_conv)
  with assms(2) show ?thesis
    by (simp add: add_counters_lookup add_counter_def value_ctor_defs)
qed

lemma pass_counter:
  assumes "pass r version go (resultFor rows) (res_Entity ` set rows) s s'"
    and "distinct (map res_Entity rows)" and row: "row \<in> set rows" "fmlookup (res_Fields row) n = Some (IntValue v)"
    and "counter r s (res_Entity row) n x" and "go (res_Entity row)" and "accepted r version s (res_Entity row)"
  shows "counter r s' (res_Entity row) n (x + v)"
proof -
  let ?k = "res_Entity row"
  have "resultFor rows ?k = row" using assms(2) row(1) by (rule resultFor_distinct)
  moreover have "?k \<in> res_Entity ` set rows" using row(1) by blast
  ultimately obtain t where "entries r s' ?k =
      Some (written ?k (add_counters (entries r s ?k) (res_Fields row)) (v_ID version) t)"
    using passD(2) [OF assms(1), of ?k] assms(6,7) by auto
  then show ?thesis
    using add_counter_Int [OF assms(5) row(2)] by (simp add: counter_def field_of_def written_def)
qed

text \<open>Rows to evaluate on.\<close>

definition demo_result :: "EntityKey \<Rightarrow> int64 \<Rightarrow> Result" where
  "demo_result k v = \<lparr>res_Entity = k, res_Fields = fmupd ''age'' (IntValue v) fmempty\<rparr>"

lemma demo_counter: "counter demo_router demo_written demo_user ''age'' 30"
  by (simp add: counter_def field_of_def entries_demo_written written_def demo_fields_def)

lemma demo_accepted: "accepted demo_router (demo_version 1) demo_written demo_user"
proof -
  have "versionRank (version_id ''t'' 10) = 1"
    using versionRank_times_10 [of 1 "''t''"] by (simp add: versionRank_one_digit)
  then show ?thesis
    by (simp add: accepted_def stale_write_def entries_demo_written written_def versionNewer_def
        demo_version_def versionRank_one_digit)
qed

lemma demo_open: "open_key t sig demo_written k"
  by (simp add: open_key_def IsCommitted_def demo_written_def demo_store_def New_def NewCommittedResults_def)

text \<open>C15: A run over rows with distinct entities writes each row exactly when the version guard lets
  it in, which refuses an entity stored under a version of higher \<open>versionRank\<close> than the task's: the
  entity then holds the row's fields, a counter that was already there added to the row's, under the
  task's version. Refused rows and all other entities are left as they are, and the number of rows
  written is returned. The rank reads the digits of an identifier backwards, so the guard is not the
  publish order (\<open>stale_backfill_accepted\<close>), and rows that share an entity are not covered
  (\<open>Run_duplicate_entity\<close>).\<close>

theorem Run_effect:
  assumes "store_wf r s" and "t \<noteq> ''''" and "distinct (map res_Entity rows)"
  shows "\<exists>n rows' b' s'. Run r t version rows t1 t2 b s = Some (Inr n, rows', b', s') \<and>
           n = card {k \<in> res_Entity ` set rows. \<not> stale_write (entries r s k) (v_ID version)} \<and>
           (\<forall>row \<in> set rows. let k = res_Entity row in
              if stale_write (entries r s k) (v_ID version) then entries r s' k = entries r s k
              else map_option e_VersionID (entries r s' k) = Some (v_ID version) \<and>
                (\<forall>name. field_of r s' k name =
                   (case fmlookup (res_Fields row) name of
                      None \<Rightarrow> None
                    | Some v \<Rightarrow> Some (case field_of r s k name of
                          None \<Rightarrow> v
                        | Some old \<Rightarrow>
                            if fv_Type v = FieldInt \<and> fv_Type old = FieldInt
                            then IntValue (fv_Int old + fv_Int v) else v)))) \<and>
           (\<forall>k. k \<notin> res_Entity ` set rows \<longrightarrow> entries r s' k = entries r s k)"
proof -
  let ?keys = "plan_Order (BuildPlan rows)"
  obtain rows' b' s' where *: "Run r t version rows t1 t2 b s =
      Some (Inr (length (filter (accepted r version s) ?keys)), rows', b', s')"
    "pass r version (\<lambda>_. True) (resultFor rows) (res_Entity ` set rows) s s'"
    using Run_wf [OF assms] by blast
  have "distinct (filter (accepted r version s) ?keys)" using assms(3) by (simp add: plan_keys)
  then have n: "length (filter (accepted r version s) ?keys) =
      card {k \<in> res_Entity ` set rows. \<not> stale_write (entries r s k) (v_ID version)}"
    by (simp add: distinct_card [symmetric] plan_keys accepted_def)
  have each: "let k = res_Entity row in
      if stale_write (entries r s k) (v_ID version) then entries r s' k = entries r s k
      else map_option e_VersionID (entries r s' k) = Some (v_ID version) \<and>
        (\<forall>name. field_of r s' k name =
           (case fmlookup (res_Fields row) name of
              None \<Rightarrow> None
            | Some v \<Rightarrow> Some (case field_of r s k name of
                  None \<Rightarrow> v
                | Some old \<Rightarrow> if fv_Type v = FieldInt \<and> fv_Type old = FieldInt
                    then IntValue (fv_Int old + fv_Int v) else v)))" if row: "row \<in> set rows" for row
  proof (cases "stale_write (entries r s (res_Entity row)) (v_ID version)")
    case True
    then show ?thesis using passD(3) [OF *(2), of "res_Entity row"] by (simp add: accepted_def)
  next
    case False
    have "resultFor rows (res_Entity row) = row" using assms(3) row by (rule resultFor_distinct)
    then obtain t' where "entries r s' (res_Entity row) = Some (written (res_Entity row)
        (add_counters (entries r s (res_Entity row)) (res_Fields row)) (v_ID version) t')"
      using passD(2) [OF *(2), of "res_Entity row"] False row by (auto simp: accepted_def)
    then show ?thesis
      using False
      by (simp add: field_of_def written_def add_counters_lookup add_counter_def
          split: option.splits)
  qed
  show ?thesis
    using *(1) n each passD(3) [OF *(2)]
    by (intro exI [of _ "length (filter (accepted r version s) ?keys)"] exI [of _ rows'] exI [of _ b']
        exI [of _ s'] conjI ballI allI impI) auto
qed

lemma Run_effect_witness:
  "\<exists>rows' b' s'. Run demo_router ''task'' (demo_version 1) [demo_result demo_user 12] 0 0 NewBackfill
       demo_written = Some (Inr 1, rows', b', s') \<and>
     field_of demo_router s' demo_user ''age'' = Some (IntValue 42)"
proof -
  let ?rows = "[demo_result demo_user 12]"
  have d: "distinct (map res_Entity ?rows)" and ne: "''task'' \<noteq> ''''" by simp_all
  have acc: "\<not> stale_write (entries demo_router demo_written demo_user) (v_ID (demo_version 1))"
    using demo_accepted by (simp add: accepted_def)
  obtain n rows' b' s' where *: "Run demo_router ''task'' (demo_version 1) ?rows 0 0 NewBackfill demo_written =
      Some (Inr n, rows', b', s')"
    "n = card {k \<in> res_Entity ` set ?rows. \<not> stale_write (entries demo_router demo_written k) (v_ID (demo_version 1))}"
    "field_of demo_router s' demo_user ''age'' = Some (IntValue (30 + 12))"
    using Run_effect [OF store_wf_demo_written ne d, of "demo_version 1" 0 0 NewBackfill] acc demo_counter
    by (auto simp: demo_result_def counter_def value_ctor_defs Let_def)
  have "{k \<in> res_Entity ` set ?rows. \<not> stale_write (entries demo_router demo_written k) (v_ID (demo_version 1))} =
      {demo_user}" using acc by (auto simp: demo_result_def)
  with * show ?thesis by simp
qed

text \<open>C16: Retrying is idempotent on rows with distinct entities: a second retry of the same task with
  the same rows writes nothing and leaves the whole store as it is.\<close>

theorem Retry_idempotent:
  assumes "store_wf r s" and "distinct (map res_Entity rows)"
  shows "\<exists>n rows1 s1 rows2. Retry r t version rows s = Some (n, rows1, s1) \<and>
           Retry r t version rows s1 = Some (0, rows2, s1)"
proof -
  let ?sig = "Signature t rows"
  obtain n rows1 s1 where *: "Retry r t version rows s = Some (n, rows1, s1)"
    "pass r version (open_key t ?sig s) (resultFor rows) (res_Entity ` set rows) s s1"
    "\<forall>k. open_key t ?sig s1 k \<longleftrightarrow> open_key t ?sig s k \<and>
       \<not> (k \<in> res_Entity ` set rows \<and> accepted r version s k)"
    using Retry_wf [OF assms, of t version] by blast
  have "\<not> open_key t ?sig s1 k \<or> \<not> accepted r version s1 k" if "k \<in> res_Entity ` set rows" for k
    using *(3) that pass_accepted [OF *(2), of k] by blast
  from Retry_nothing [OF passD(1) [OF *(2)] this] *(1) show ?thesis by blast
qed

lemma Retry_idempotent_witness:
  "\<exists>n rows1 s1 rows2.
     Retry demo_router ''task'' (demo_version 1) [demo_result demo_user 12] demo_written = Some (n, rows1, s1) \<and>
     Retry demo_router ''task'' (demo_version 1) [demo_result demo_user 12] s1 = Some (0, rows2, s1)"
  by (rule Retry_idempotent [OF store_wf_demo_written]) simp

text \<open>What a run has written is not recorded as committed, so a retry of the same task with the
  same rows counts every counter a second time.\<close>

theorem Retry_after_Run_counts_twice:
  assumes "store_wf r s" and "t \<noteq> ''''" and "distinct (map res_Entity rows)"
    and row: "row \<in> set rows" "fmlookup (res_Fields row) n = Some (IntValue v)"
    and "counter r s (res_Entity row) n x" and "accepted r version s (res_Entity row)"
    and "open_key t (Signature t rows) s (res_Entity row)"
  shows "\<exists>i rows1 b1 s1 j rows2 s2.
           Run r t version rows t1 t2 b s = Some (Inr i, rows1, b1, s1) \<and> counter r s1 (res_Entity row) n (x + v) \<and>
           Retry r t version rows s1 = Some (j, rows2, s2) \<and> counter r s2 (res_Entity row) n (x + v + v)"
proof -
  obtain i rows1 b1 s1 where run: "Run r t version rows t1 t2 b s = Some (Inr i, rows1, b1, s1)"
    "pass r version (\<lambda>_. True) (resultFor rows) (res_Entity ` set rows) s s1" "s_results s1 = s_results s"
    using Run_wf [OF assms(1-3)] by blast
  have one: "counter r s1 (res_Entity row) n (x + v)"
    using run(2) assms(3) row assms(6) _ assms(7) by (rule pass_counter) simp
  obtain j rows2 s2 where retry: "Retry r t version rows s1 = Some (j, rows2, s2)"
    "pass r version (open_key t (Signature t rows) s1) (resultFor rows) (res_Entity ` set rows) s1 s2"
    using Retry_wf [OF passD(1) [OF run(2)] assms(3)] by blast
  have "counter r s2 (res_Entity row) n (x + v + v)"
    using retry(2) assms(3) row one
  proof (rule pass_counter)
    show "open_key t (Signature t rows) s1 (res_Entity row)" using assms(8) run(3) by (simp add: open_key_def)
    show "accepted r version s1 (res_Entity row)" using pass_accepted [OF run(2)] assms(7) by blast
  qed
  with run(1) one retry(1) show ?thesis by blast
qed

lemma Retry_after_Run_counts_twice_witness:
  "\<exists>i rows1 b1 s1 j rows2 s2.
     Run demo_router ''task'' (demo_version 1) [demo_result demo_user 12] 0 0 NewBackfill demo_written =
       Some (Inr i, rows1, b1, s1) \<and> counter demo_router s1 demo_user ''age'' 42 \<and>
     Retry demo_router ''task'' (demo_version 1) [demo_result demo_user 12] s1 = Some (j, rows2, s2) \<and>
     counter demo_router s2 demo_user ''age'' 54"
proof -
  let ?row = "demo_result demo_user 12"
  have k: "res_Entity ?row = demo_user" by (simp add: demo_result_def)
  have "fmlookup (res_Fields ?row) ''age'' = Some (IntValue 12)" by (simp add: demo_result_def)
  from Retry_after_Run_counts_twice [OF store_wf_demo_written _ _ _ this, of "''task''" "[?row]" 30 "demo_version 1"]
  show ?thesis using demo_counter demo_accepted demo_open k by simp
qed


text \<open>The task of a run ends with as many processed rows as the batch has, also when entities
  repeat; it is done exactly when the batch has a row, and an empty batch leaves it running for
  ever.\<close>

theorem Run_task_accounting:
  assumes "store_wf r s" and "t \<noteq> ''''"
  shows "\<exists>n rows' b' s' task. Run r t version rows t1 t2 b s = Some (Inr n, rows', b', s') \<and>
           Backfill_Task b' t = Some task \<and> task_ID task = t \<and> task_TableID task = v_TableID version \<and>
           task_Total task = length rows \<and> task_Processed task = length rows \<and>
           Task_Completed (Some task) \<and>
           task_State task = (if rows = [] then TaskRunning else TaskDone)"
proof -
  let ?task = "\<lparr>task_ID = t, task_TableID = v_TableID version, task_State = TaskRunning,
      task_Total = length rows, task_Processed = 0, task_UpdatedAt = t1\<rparr>"
  let ?last = "((bump ^^ length rows) ?task)\<lparr>task_UpdatedAt := t2\<rparr>"
  obtain n rows' s' where "run_loop r version (plan_Order (BuildPlan rows)) 0 ?task rows s =
      Some (n, (bump ^^ length rows) ?task, rows', s')"
    using run_loop_steps [OF assms(1), of version "plan_Order (BuildPlan rows)" 0 ?task rows, unfolded plan_keys]
    by blast
  with assms(2) have "Run r t version rows t1 t2 b s =
      Some (Inr n, rows', b\<lparr>bf_tasks := fmupd t ?last (bf_tasks b)\<rparr>, s')"
    by (simp add: Run_def Let_def)
  then show ?thesis
    using bump_iter [of "length rows" ?task]
    by (intro exI [of _ n] exI [of _ rows'] exI [of _ "b\<lparr>bf_tasks := fmupd t ?last (bf_tasks b)\<rparr>"]
        exI [of _ s'] exI [of _ ?last]) (simp add: Backfill_Task_def Task_Completed_def)
qed

lemma Run_task_accounting_witness:
  "\<exists>n rows' b' s' task. Run demo_router ''task'' (demo_version 1) [] 0 0 NewBackfill demo_written =
       Some (Inr n, rows', b', s') \<and> Backfill_Task b' ''task'' = Some task \<and>
     Task_Completed (Some task) \<and> task_State task = TaskRunning"
  using Run_task_accounting [OF store_wf_demo_written, of "''task''" "demo_version 1" "[]" 0 0 NewBackfill]
  by auto

text \<open>When two rows of a batch carry the same entity, the second one is lost and the first is
  applied twice, and as its map was changed in place the second time with the sum of the first:
  a counter \<open>x\<close> that should become \<open>x + v + w\<close> becomes \<open>2 (x + v)\<close>.\<close>

theorem Run_duplicate_entity:
  assumes wf: "store_wf r s" and t: "t \<noteq> ''''"
    and a: "res_Entity a = k" "fmlookup (res_Fields a) n = Some (IntValue v)"
    and b: "res_Entity b = k"
    and x: "counter r s k n x" and acc: "accepted r version s k"
  shows "\<exists>rows' bf' s'. Run r t version [a, b] t1 t2 bf s = Some (Inr 2, rows', bf', s') \<and>
           counter r s' k n (2 * (x + v))"
proof -
  let ?s1 = "after_result r version a s"
  let ?fs = "add_counters (entries r s k) (res_Fields a)"
  let ?a = "a\<lparr>res_Fields := ?fs\<rparr>"
  let ?s2 = "after_result r version ?a ?s1"
  note wf1 = after_result(1) [OF wf, of version a]
  have e1: "entries r ?s1 k = Some (result_entry r version s a)"
    using acc a(1) by (simp add: after_result(2) [OF wf])
  then have acc1: "accepted r version ?s1 k"
    unfolding result_entry_def a(1) by (rule accepted_written)
  have f1: "fmlookup ?fs n = Some (IntValue (x + v))" using x a(2) by (rule add_counter_Int)
  then have x1: "counter r ?s1 k n (x + v)"
    by (simp add: counter_def field_of_def e1 result_entry_def written_def a(1))
  have "entries r ?s2 k = Some (result_entry r version ?s1 ?a)"
    using acc1 a(1) by (simp add: after_result(2) [OF wf1])
  then have x2: "counter r ?s2 k n (x + v + (x + v))"
    using add_counter_Int [OF x1 f1]
    by (simp add: counter_def field_of_def result_entry_def written_def a(1))
  have plan: "plan_Order (BuildPlan [a, b]) = [k, k]" using a(1) b by (simp add: BuildPlan_def)
  let ?task = "\<lparr>task_ID = t, task_TableID = v_TableID version, task_State = TaskRunning,
      task_Total = length [a, b], task_Processed = 0, task_UpdatedAt = t1\<rparr>"
  obtain task rows' where "run_loop r version [k, k] 0 ?task [a, b] s = Some (2, task, rows', ?s2)"
    using a(1) acc acc1 by (simp add: writeResult_wf [OF wf] writeResult_wf [OF wf1])
  then have "Run r t version [a, b] t1 t2 bf s =
      Some (Inr 2, rows', bf\<lparr>bf_tasks := fmupd t (task\<lparr>task_UpdatedAt := t2\<rparr>) (bf_tasks bf)\<rparr>, ?s2)"
    using t unfolding Run_def plan by (simp add: Let_def del: run_loop.simps)
  moreover have "x + v + (x + v) = 2 * (x + v)" by simp
  ultimately show ?thesis using x2 by metis
qed

lemma Run_duplicate_entity_witness:
  "\<exists>rows' bf' s'. Run demo_router ''task'' (demo_version 1) [demo_result demo_user 5, demo_result demo_user 7]
       0 0 NewBackfill demo_written = Some (Inr 2, rows', bf', s') \<and>
     counter demo_router s' demo_user ''age'' 70"
proof -
  have 1: "res_Entity (demo_result demo_user 5) = demo_user" and 2: "res_Entity (demo_result demo_user 7) = demo_user"
    and 3: "fmlookup (res_Fields (demo_result demo_user 5)) ''age'' = Some (IntValue 5)"
    and 4: "''task'' \<noteq> ''''"
    by (simp_all add: demo_result_def)
  from Run_duplicate_entity [OF store_wf_demo_written 4 1 3 2 demo_counter demo_accepted, of 0 0 NewBackfill]
  show ?thesis by simp
qed

text \<open>The signature depends only on the total length of the texts of a batch: after a retry has
  written a batch, a retry of the task with other results of the same length for the same
  entities writes nothing, although its results were never committed.\<close>

theorem Retry_skips_other_results:
  assumes "store_wf r s" and "distinct (map res_Entity rows)"
    and "\<And>k. k \<in> res_Entity ` set rows \<Longrightarrow> accepted r version s k"
    and "res_Entity ` set rows' = res_Entity ` set rows"
    and "(\<Sum>row \<leftarrow> rows'. text_size (res_Fields row)) = (\<Sum>row \<leftarrow> rows. text_size (res_Fields row))"
  shows "\<exists>n rows1 s1 rows2. Retry r t version rows s = Some (n, rows1, s1) \<and>
           Retry r t version rows' s1 = Some (0, rows2, s1)"
proof -
  let ?sig = "Signature t rows"
  have sig: "Signature t rows' = ?sig" using assms(5) by (simp add: Signature_def)
  obtain n rows1 s1 where *: "Retry r t version rows s = Some (n, rows1, s1)"
    "pass r version (open_key t ?sig s) (resultFor rows) (res_Entity ` set rows) s s1"
    "\<forall>k. open_key t ?sig s1 k \<longleftrightarrow> open_key t ?sig s k \<and>
       \<not> (k \<in> res_Entity ` set rows \<and> accepted r version s k)"
    using Retry_wf [OF assms(1,2), of t version] by blast
  have "\<not> open_key t (Signature t rows') s1 k \<or> \<not> accepted r version s1 k" if "k \<in> res_Entity ` set rows'" for k
    using *(3) that assms(3,4) unfolding sig by blast
  from Retry_nothing [OF passD(1) [OF *(2)] this] *(1) show ?thesis by blast
qed

lemma sorted_keys_singleton [simp]: "sorted_keys (fmupd k v fmempty) = [k]"
  by (simp add: sorted_keys_def sorted_list_of_fset.rep_eq)

lemma Retry_skips_other_results_witness:
  "\<exists>n rows1 s1 rows2.
     Retry demo_router ''task'' (demo_version 1) [demo_result demo_user 12] demo_written = Some (n, rows1, s1) \<and>
     Retry demo_router ''task'' (demo_version 1) [demo_result demo_user 99] s1 = Some (0, rows2, s1)"
proof (rule Retry_skips_other_results [OF store_wf_demo_written])
  show "accepted demo_router (demo_version 1) demo_written k"
    if "k \<in> res_Entity ` set [demo_result demo_user 12]" for k
    using that demo_accepted by (simp add: demo_result_def)
  show "(\<Sum>row \<leftarrow> [demo_result demo_user 99]. text_size (res_Fields row)) =
      (\<Sum>row \<leftarrow> [demo_result demo_user 12]. text_size (res_Fields row))"
    by (simp add: demo_result_def text_size_def FeatureValue_String_ctors itoa_int_def
        itoa.simps)
qed (simp_all add: demo_result_def)

text \<open>An empty task identifier is refused by \<open>Run\<close> without a change.\<close>

theorem Run_refuses_empty_task:
  "Run r '''' version rows t1 t2 b s = Some (Inl EmptyTaskID, rows, b, s)"
  by (simp add: Run_def)

end
