(* ===== verification/ShardExpansion.thy ===== *)
theory ShardExpansion
  imports TtlScan
begin

text \<open>
  What an expansion does to a store (\<open>internal/entity/expand.go\<close>, \<open>Store.ExpandShards\<close> in
  \<open>internal/store/store.go\<close>, in the order of \<open>handleExpand\<close>). The router's table is rebuilt and the
  store gets new empty shards; the entries stay where they are. So the entities whose shard
  changes become unreachable, while those whose shard stays keep working.
\<close>

text \<open>The store's slice can be made whenever the router's could.\<close>

lemma store_expands: "Expand lim n r = Some (Inr x, r') \<Longrightarrow> Store_ExpandShards lim n s = Some (grown_store n s)"
  using Expand_Inr [of lim n r x r'] by (simp add: Store_ExpandShards_eq)

text \<open>The shards after both calls: one for each of the new router's shards, the old ones first.\<close>

lemma expanded_shards:
  assumes "store_wf r s" and "Expand lim n r = Some (Inr x, r')"
  shows "s_shards (grown_store n s) =
      s_shards s @ replicate (shard_total r' - length (s_shards s)) fmempty"
    and "length (s_shards (grown_store n s)) = shard_total r'"
    and "s_cache (grown_store n s) = s_cache s"
proof -
  have "shardCount r < n" "shard_total r' = nat n" "0 < shardCount r"
    using Expand_Inr [OF assms(2)] store_wfD(1) [OF assms(1)]
    by (simp_all add: full_router_def shard_total_def router_wf_def)
  moreover have "int (length (s_shards s)) = shardCount r"
    using store_wfD(1,2) [OF assms(1)] by (simp add: shard_total_def router_wf_def)
  ultimately show "s_shards (grown_store n s) =
      s_shards s @ replicate (shard_total r' - length (s_shards s)) fmempty"
    and "length (s_shards (grown_store n s)) = shard_total r'"
    and "s_cache (grown_store n s) = s_cache s"
    by (auto simp: grown_store_def)
qed

lemma expanded_lookup:
  assumes wf: "store_wf r s" and x: "Expand lim n r = Some (Inr x, r')"
  shows "store_lookup r' (grown_store n s) key =
           Some (if shard_of r' key = shard_of r key then entries r s key else None)"
    and "read_entry r' (grown_store n s) key =
           Some (if shard_of r' key = shard_of r key then entries r s key else None)"
proof -
  let ?s = "grown_store n s"
  have r': "router_wf r'" using router_wf_Expand [OF store_wfD(1) [OF wf] x] .
  have less: "shard_of r' key < length (s_shards ?s)"
    using shard_of_less [OF r'] expanded_shards(2) [OF wf x] by simp
  have found: "fmlookup (s_shards ?s ! shard_of r' key) key =
      (if shard_of r' key = shard_of r key then entries r s key else None)"
  proof (cases "shard_of r' key < length (s_shards s)")
    case True
    then show ?thesis
      using shard_lookup [OF wf True, of key] expanded_shards(1) [OF wf x] by (auto simp: nth_append)
  next
    case False
    then have "shard_of r' key \<noteq> shard_of r key" using store_wfD(5) [OF wf, of key] by auto
    with False less show ?thesis
      unfolding expanded_shards(1) [OF wf x] by (simp add: nth_append)
  qed
  show "store_lookup r' ?s key = Some (if shard_of r' key = shard_of r key then entries r s key else None)"
    using less found by (simp add: store_lookup_def shard_index_def Route_wf [OF r'] Let_def)
  show "read_entry r' ?s key = Some (if shard_of r' key = shard_of r key then entries r s key else None)"
    using less found by (simp add: read_entry_def Lookup_wf [OF r'])
qed

section \<open>Properties\<close>

text \<open>C35: After an expansion an entity whose shard changed is lost to every lookup: its entry is not
  found, a read that is not cached returns the empty snapshot, and the TTL scan never expires it,
  although the entry still sits in its old shard.\<close>

theorem Expansion_loses_moved_entities:
  assumes "store_wf r s" and "Expand lim n r = Some (Inr x, r')"
    and "entries r s key = Some e" and "shard_of r' key \<noteq> shard_of r key"
  shows "\<exists>s'. Store_ExpandShards lim n s = Some s' \<and> EntryFor r' key s' = Some None \<and>
         (Cache_Get (s_cache s) key (resolveActiveVersionID m) = None \<longrightarrow>
            map_option fst (Read r' m key s') = Some (EmptySnapshot key (resolveActiveVersionID m))) \<and>
         ExpireKey r' sc key now s' = Some (False, s') \<and>
         key \<in> set (Keys id (int (shard_of r key)) s')"
proof -
  note look = expanded_lookup [OF assms(1,2), of key]
  have less: "shard_of r key < length (s_shards s)" using store_wfD(5) [OF assms(1)] .
  have "fmlookup (s_shards s ! shard_of r key) key = Some e" using assms(3) by (simp add: entries_def)
  then have "key \<in> set (Keys id (int (shard_of r key)) (grown_store n s))"
    using less expanded_shards(1) [OF assms(1,2)] by (auto simp: Keys_def nth_append fmdom'_iff)
  then show ?thesis
    using assms(4) look
    by (simp add: EntryFor_def ExpireKey_def WrittenAt_def Read_def read_cached_def Let_def
        expanded_shards(3) [OF assms(1,2)] store_expands [OF assms(2)])
qed

definition demo_router4 :: Router where
  "demo_router4 = \<lparr>shardCount = 4, routeTable = [0, 1, 2, 3], shardStates = [0, 0, 0, 0]\<rparr>"

lemma Expand_demo:
  "Expand 1024 4 demo_router = Some (Inr \<lparr>exp_Previous = 2, exp_Current = 4, exp_Added = 2\<rparr>, demo_router4)"
  by (simp add: Expand_eq full_router_def demo_router_def demo_router4_def numeral_eq_Suc upt_rec)

lemma hash_demo_user: "uint (HashKey demo_user) mod 2 = 0" "uint (HashKey demo_user) mod 4 = 2"
  by (code_simp)+

lemma shard_demo_user: "shard_of demo_router demo_user = 0" "shard_of demo_router4 demo_user = 2"
  using hash_demo_user by (simp_all add: shard_of_def Slot_def demo_router_def demo_router4_def)

lemma Expansion_loses_moved_entities_witness:
  "EntryFor demo_router demo_user demo_written \<noteq> Some None \<and>
   (\<exists>s'. Store_ExpandShards 1024 4 demo_written = Some s' \<and> EntryFor demo_router4 demo_user s' = Some None)"
proof -
  let ?e = "written demo_user demo_fields (version_id ''t'' 10) 1000"
  have e: "entries demo_router demo_written demo_user = Some ?e" by (simp add: entries_demo_written)
  have "shard_of demo_router4 demo_user \<noteq> shard_of demo_router demo_user" by (simp add: shard_demo_user)
  from Expansion_loses_moved_entities [OF store_wf_demo_written Expand_demo e this]
  have "\<exists>s'. Store_ExpandShards 1024 4 demo_written = Some s' \<and> EntryFor demo_router4 demo_user s' = Some None"
    by blast
  with e show ?thesis by (simp add: EntryFor_wf [OF store_wf_demo_written])
qed

text \<open>An expansion keeps the entities whose shard does not change, and after both of its calls
  every lookup returns; when the new count is a multiple of the old one, a key only ever moves to
  a shard congruent to its old one.\<close>

theorem Expansion_keeps_unmoved_entities:
  assumes "store_wf r s" and "Expand lim n r = Some (Inr x, r')"
  shows "\<exists>s'. Store_ExpandShards lim n s = Some s' \<and>
         (shard_of r' key = shard_of r key \<longrightarrow> EntryFor r' key s' = Some (entries r s key)) \<and>
         EntryFor r' key s' \<noteq> None \<and> Read r' m key s' \<noteq> None \<and>
         (shardCount r dvd n \<longrightarrow> shard_of r' key mod shard_total r = shard_of r key)"
proof -
  note r = store_wfD(1) [OF assms(1)]
  have "shard_of r' key mod shard_total r = shard_of r key" if "shardCount r dvd n"
    using shard_of_dvd [OF r router_wf_Expand [OF r assms(2)]] that Expand_Inr [OF assms(2)] by simp
  then show ?thesis
    using expanded_lookup [OF assms, of key]
    by (simp add: EntryFor_def option.map_ident_strong Read_def read_cached_def Let_def
        store_expands [OF assms(2)] split: option.splits)
qed

lemma Expansion_keeps_unmoved_entities_witness:
  "shard_of demo_router4 demo_user mod 2 = shard_of demo_router demo_user \<and>
   (\<exists>s'. Store_ExpandShards 1024 4 demo_written = Some s' \<and>
      Read demo_router4 demo_published demo_user s' \<noteq> None)"
proof -
  have "shardCount demo_router dvd 4" "shard_total demo_router = 2"
    by (simp_all add: demo_router_def shard_total_def)
  then show ?thesis
    using Expansion_keeps_unmoved_entities [OF store_wf_demo_written Expand_demo, of demo_user demo_published]
    by auto
qed

text \<open>Between the two calls of an expansion, when the router is resized and the store is not, a
  read that is not cached of an entity routed to a new shard panics.\<close>

theorem Read_during_expansion_panics:
  assumes "store_wf r s" and "Expand lim n r = Some (Inr x, r')" and "shard_total r \<le> shard_of r' key"
    and "Cache_Get (s_cache s) key (resolveActiveVersionID m) = None"
  shows "Read r' m key s = None"
proof -
  have "router_wf r'" using router_wf_Expand [OF store_wfD(1) [OF assms(1)] assms(2)] .
  moreover have "length (s_shards s) \<le> shard_of r' key" using store_wfD(2) [OF assms(1)] assms(3) by simp
  ultimately show ?thesis
    using assms(4) by (simp add: Read_def read_cached_def read_entry_def Lookup_wf)
qed

lemma Read_during_expansion_panics_witness:
  "Read demo_router demo_published demo_user demo_written \<noteq> None \<and>
   Read demo_router4 demo_published demo_user demo_written = None"
proof -
  have "shard_total demo_router \<le> shard_of demo_router4 demo_user"
    "Cache_Get (s_cache demo_written) demo_user (resolveActiveVersionID demo_published) = None"
    by (simp_all add: shard_demo_user shard_total_def demo_router_def cache_demo_written Cache_Get_def)
  from Read_during_expansion_panics [OF store_wf_demo_written Expand_demo this]
  show ?thesis using Read_sound [OF sound_demo [of True], of demo_user] by auto
qed

end
