(* ===== verification/Server.thy ===== *)
theory Server
  imports SyncCheck Ingest Compute ShardExpansion
begin

text \<open>
  \<open>cmd/featurestore\<close>: the server's state, its start in \<open>main\<close>, and the HTTP handlers. A handler is
  a function of the decoded request and the state; it returns the status, the payload and the new
  state, or panics (\<open>None\<close>). Decoding is the JSON package's: a body that does not decode into the
  request's struct is \<open>Inl\<close> of its error text, and the values that stay raw are of type \<open>Json\<close>.
  Each request is handled as one step here; \<open>Clients\<close> and \<open>Interleaving\<close> cut the calls behind the
  requests at their locks and run them at the same time.
\<close>

section \<open>JSON values and decodeFields\<close>

text \<open>
  A JSON document; a number is the float64 it parses to, or nothing when it is out of the range of
  float64. Decoding null into a string leaves the empty string and is no error.
\<close>

datatype Json =
    JNull
  | JBool bool
  | JNum "f64 option"
  | JStr string
  | JArr "Json list"
  | JObj "(string \<times> Json) list"

definition Unmarshal_string :: "Json \<Rightarrow> string option" where
  "Unmarshal_string j = (case j of JNull \<Rightarrow> Some '''' | JStr s \<Rightarrow> Some s | _ \<Rightarrow> None)"

definition Unmarshal_float :: "Json \<Rightarrow> f64 option" where
  "Unmarshal_float j = (case j of JNull \<Rightarrow> Some 0 | JNum f \<Rightarrow> f | _ \<Rightarrow> None)"

definition Unmarshal_bool :: "Json \<Rightarrow> bool option" where
  "Unmarshal_bool j = (case j of JNull \<Rightarrow> Some False | JBool b \<Rightarrow> Some b | _ \<Rightarrow> None)"

text \<open>
  \<open>number == float64(int64(number))\<close>: true of an integer in the range of \<open>int64\<close>, false of a number
  that is not an integer. Outside the range Go leaves the conversion to the platform; \<open>outside\<close> is
  the integer the platform gives when converting it back gives the number again.
\<close>

type_synonym platform = "f64 \<Rightarrow> int64 option"

definition whole :: "platform \<Rightarrow> f64 \<Rightarrow> int64 option" where
  "whole outside f =
     (case f64_integer f of
        None \<Rightarrow> None
      | Some i \<Rightarrow> if in_int64 i then Some (word_of_int i) else outside f)"

definition decode_value :: "platform \<Rightarrow> Json \<Rightarrow> FeatureValue option" where
  "decode_value outside data =
     (case Unmarshal_string data of
        Some text \<Rightarrow> Some (StringValue text)
      | None \<Rightarrow>
        (case Unmarshal_float data of
           Some number \<Rightarrow>
             Some (case whole outside number of Some i \<Rightarrow> IntValue i | None \<Rightarrow> FloatValue number)
         | None \<Rightarrow> map_option BoolValue (Unmarshal_bool data)))"

type_synonym raw_fields = "(string, Json) fmap"
type_synonym name_iteration = "string list \<Rightarrow> string list"

fun decode_names ::
  "platform \<Rightarrow> raw_fields \<Rightarrow> string list \<Rightarrow> Fields \<Rightarrow> string + Fields" where
  "decode_names outside raw [] fs = Inr fs"
| "decode_names outside raw (name # names) fs =
     (case Option.bind (fmlookup raw name) (decode_value outside) of
        None \<Rightarrow> Inl name
      | Some v \<Rightarrow> decode_names outside raw names (fmupd name v fs))"

text \<open>The map is ranged over in the run time's order; the error names the first bad field met.\<close>

definition decodeFields ::
  "platform \<Rightarrow> name_iteration \<Rightarrow> raw_fields \<Rightarrow> string + Fields" where
  "decodeFields outside iter raw = decode_names outside raw (iter (sorted_keys raw)) fmempty"

section \<open>The server (server.go, main.go)\<close>

record World =
  w_tables :: Registry
  w_versions :: Manager
  w_router :: Router
  w_store :: Store
  w_importer :: Importer
  w_backfill :: Backfill
  w_checker :: Checker
  w_scanner :: Scanner
  w_startedAt :: time
  w_now :: clock

text \<open>
  What the run time and the platform choose: the order of map iteration, the conversion, and the
  longest slice that can be made, by the size of an address space or of the memory.
\<close>

record Runtime =
  rt_outside :: platform
  rt_names :: name_iteration
  rt_shards :: "nat \<Rightarrow> nat \<Rightarrow> iteration"
  rt_slice :: int

definition world_tick :: "World \<Rightarrow> time \<times> World" where
  "world_tick w = (case tick (w_now w) of (t, c) \<Rightarrow> (t, w\<lparr>w_now := c\<rparr>))"

datatype InitError = SeedFailed TableError | RouterFailed EntityError | VersionFailed VersionError

text \<open>
  \<open>main\<close> up to \<open>ListenAndServe\<close>, on the flags \<open>shards\<close> and \<open>ttl\<close> and the clocks of the manager, the
  store and the server, where the longest slice is \<open>lim\<close>; \<open>Inl\<close> is \<open>log.Fatalf\<close>.
\<close>

definition main_init ::
  "int \<Rightarrow> int \<Rightarrow> duration \<Rightarrow> clock \<Rightarrow> clock \<Rightarrow> clock \<Rightarrow> (InitError + World) go" where
  "main_init lim shards ttl c1 c2 c3 =
     (case SeedRegistry NewRegistry of
        Inl err \<Rightarrow> Some (Inl (SeedFailed err))
      | Inr tables \<Rightarrow> do {
        routed \<leftarrow> NewRouter lim shards;
        Some (case routed of
           Inl err \<Rightarrow> Inl (RouterFailed err)
         | Inr router \<Rightarrow>
             let (store, versions) = New router c2 (NewManager c1);
                 store = SetClock c2 store;
                 importer = NewImporter 32;
                 backfill = NewBackfill;
                 checker = NewChecker (10 * nanos_per_minute);
                 scanner = NewScanner ttl
             in
             (case Create tables ''user_profile'' versions of
                (Inl err, _) \<Rightarrow> Inl (VersionFailed err)
              | (Inr initial, versions) \<Rightarrow>
                (case Publish_store (v_ID initial) (versions, store) of
                   (Inl err, _) \<Rightarrow> Inl (VersionFailed err)
                 | (Inr _, versions, store) \<Rightarrow>
                   (case Create tables ''item_profile'' versions of
                      (Inl err, _) \<Rightarrow> Inl (VersionFailed err)
                    | (Inr _, versions) \<Rightarrow>
                        let (t, c3) = tick c3 in
                        Inr \<lparr>w_tables = tables, w_versions = versions, w_router = router,
                             w_store = store, w_importer = importer, w_backfill = backfill,
                             w_checker = checker, w_scanner = scanner, w_startedAt = t,
                             w_now = c3\<rparr>))))
        })"

section \<open>Requests and responses\<close>

datatype HandlerError =
    BadRequest string
  | MissingKey
  | KeyError EntityError
  | CannotDecode string
  | VersionError VersionError
  | VersionUnknown
  | ImportError IngestError
  | RunError ComputeError
  | ExpandError EntityError
  | RangeError SyncError

datatype Payload =
    PError HandlerError
  | PHealth "string list" int time
  | PRead EntityKey string "(string, string) fmap"
  | PWritten
  | PActive string
  | PImport string nat
  | PCount nat
  | PExpand Expansion "int list"
  | PDiffs "Diff list" nat
  | PExpired nat
  | PVersions "(string \<times> string \<times> VersionState) list"

type_synonym Response = "nat \<times> Payload"

record WriteRequest =
  wr_Key :: string
  wr_VersionID :: string
  wr_Fields :: raw_fields

record importRow =
  ir_Key :: string
  ir_Fields :: raw_fields

record ImportRequest =
  ireq_BatchID :: string
  ireq_TableID :: string
  ireq_VersionID :: string
  ireq_Rows :: "importRow list"

record BackfillRequest =
  breq_TaskID :: string
  breq_VersionID :: string
  breq_Retry :: bool
  breq_Rows :: "importRow list"

section \<open>Handlers (handlers.go)\<close>

definition fieldsAsStrings :: "Snapshot \<Rightarrow> (string, string) fmap" where
  "fieldsAsStrings snapshot = fmmap FeatureValue_String (snap_Fields snapshot)"

definition offlineView :: offline where
  "offlineView key = None"

definition handleHealth :: "World \<Rightarrow> (Response \<times> World) go" where
  "handleHealth w = do {
     tables \<leftarrow> Registry_List (w_tables w);
     Some ((200, PHealth (map t_ID tables) (Router_ShardCount (w_router w)) (w_startedAt w)), w)
   }"

definition handleRead :: "string \<Rightarrow> World \<Rightarrow> (Response \<times> World) go" where
  "handleRead key w =
     (if key = '''' then Some ((400, PError MissingKey), w)
      else case ParseEntity key of
        Inl err \<Rightarrow> Some ((400, PError (KeyError err)), w)
      | Inr key \<Rightarrow> do {
          (snapshot, s) \<leftarrow> Read (w_router w) (w_versions w) key (w_store w);
          Some ((200, PRead (snap_Entity snapshot) (snap_VersionID snapshot) (fieldsAsStrings snapshot)),
                w\<lparr>w_store := s\<rparr>)
        })"

definition handleWrite :: "Runtime \<Rightarrow> string + WriteRequest \<Rightarrow> World \<Rightarrow> (Response \<times> World) go" where
  "handleWrite rt body w =
     (case body of
        Inl err \<Rightarrow> Some ((400, PError (BadRequest err)), w)
      | Inr req \<Rightarrow>
          if wr_Key req = '''' then Some ((400, PError MissingKey), w)
          else case ParseEntity (wr_Key req) of
            Inl err \<Rightarrow> Some ((400, PError (KeyError err)), w)
          | Inr parsed \<Rightarrow>
            (case decodeFields (rt_outside rt) (rt_names rt) (wr_Fields req) of
               Inl name \<Rightarrow> Some ((400, PError (CannotDecode name)), w)
             | Inr fs \<Rightarrow> do {
                 s \<leftarrow> Write (w_router w) parsed fs (wr_VersionID req) (w_store w);
                 Some ((200, PWritten), w\<lparr>w_store := s\<rparr>)
               }))"

definition handlePublish :: "string + string \<Rightarrow> World \<Rightarrow> (Response \<times> World) go" where
  "handlePublish body w =
     (case body of
        Inl err \<Rightarrow> Some ((400, PError (BadRequest err)), w)
      | Inr versionID \<Rightarrow>
        (case Publish_store versionID (w_versions w, w_store w) of
           (res, m, s) \<Rightarrow>
             Some (case res of Inl err \<Rightarrow> (409, PError (VersionError err)) | Inr v \<Rightarrow> (200, PActive (v_ID v)),
                   w\<lparr>w_versions := m, w_store := s\<rparr>)))"

definition handleRollback :: "string + string \<Rightarrow> World \<Rightarrow> (Response \<times> World) go" where
  "handleRollback body w =
     (case body of
        Inl err \<Rightarrow> Some ((400, PError (BadRequest err)), w)
      | Inr versionID \<Rightarrow>
        (case Rollback_store versionID (w_versions w, w_store w) of
           (res, m, s) \<Rightarrow>
             Some (case res of Inl err \<Rightarrow> (409, PError (VersionError err)) | Inr v \<Rightarrow> (200, PActive (v_ID v)),
                   w\<lparr>w_versions := m, w_store := s\<rparr>)))"


fun decode_rows :: "Runtime \<Rightarrow> importRow list \<Rightarrow> string + (EntityKey \<times> Fields) list" where
  "decode_rows rt [] = Inr []"
| "decode_rows rt (row # rows) =
     (case decodeFields (rt_outside rt) (rt_names rt) (ir_Fields row) of
        Inl name \<Rightarrow> Inl name
      | Inr fs \<Rightarrow>
        (case decode_rows rt rows of
           Inl name \<Rightarrow> Inl name
         | Inr decoded \<Rightarrow> Inr ((EntityKey (ir_Key row), fs) # decoded)))"

definition import_row :: "EntityKey \<times> Fields \<Rightarrow> Row" where
  "import_row kf = \<lparr>row_Entity = fst kf, row_Fields = snd kf\<rparr>"

definition result_row :: "EntityKey \<times> Fields \<Rightarrow> Result" where
  "result_row kf = \<lparr>res_Entity = fst kf, res_Fields = snd kf\<rparr>"

text \<open>The clock is read after the checks that refuse an import or a run, so a refusal does not advance it.\<close>

definition handleImport :: "Runtime \<Rightarrow> string + ImportRequest \<Rightarrow> World \<Rightarrow> (Response \<times> World) go" where
  "handleImport rt body w =
     (case body of
        Inl err \<Rightarrow> Some ((400, PError (BadRequest err)), w)
      | Inr req \<Rightarrow>
        (case decode_rows rt (ireq_Rows req) of
           Inl name \<Rightarrow> Some ((400, PError (CannotDecode name)), w)
         | Inr decoded \<Rightarrow> do {
             let (now, clk) = tick (w_now w);
             (res, im, s) \<leftarrow> Import (w_router w) (w_tables w) (ireq_BatchID req) (ireq_TableID req)
                               (map import_row decoded) (ireq_VersionID req) now (w_importer w) (w_store w);
             let w = w\<lparr>w_importer := im, w_store := s\<rparr>;
             Some (case res of
                     Inl err \<Rightarrow> ((500, PError (ImportError err)), w)
                   | Inr batch \<Rightarrow> ((200, PImport (b_ID batch) (length (b_Segments batch))), w\<lparr>w_now := clk\<rparr>))
           }))"

definition handleBackfill :: "Runtime \<Rightarrow> string + BackfillRequest \<Rightarrow> World \<Rightarrow> (Response \<times> World) go" where
  "handleBackfill rt body w =
     (case body of
        Inl err \<Rightarrow> Some ((400, PError (BadRequest err)), w)
      | Inr req \<Rightarrow>
        (case Manager_Get (w_versions w) (breq_VersionID req) of
           None \<Rightarrow> Some ((404, PError VersionUnknown), w)
         | Some version \<Rightarrow>
           (case decode_rows rt (breq_Rows req) of
              Inl name \<Rightarrow> Some ((400, PError (CannotDecode name)), w)
            | Inr decoded \<Rightarrow>
                let rows = map result_row decoded in
                if breq_Retry req
                then do {
                  (n, rows, s) \<leftarrow> Retry (w_router w) (breq_TaskID req) version rows (w_store w);
                  Some ((200, PCount n), w\<lparr>w_store := s\<rparr>)
                }
                else do {
                  let (t1, clk) = tick (w_now w);
                  let (t2, clk) = tick clk;
                  (res, rows, b, s) \<leftarrow> Run (w_router w) (breq_TaskID req) version rows t1 t2
                                         (w_backfill w) (w_store w);
                  let w = w\<lparr>w_backfill := b, w_store := s\<rparr>;
                  Some (case res of
                          Inl err \<Rightarrow> ((500, PError (RunError err)), w)
                        | Inr n \<Rightarrow> ((200, PCount n), w\<lparr>w_now := clk\<rparr>))
                })))"

definition handleExpand :: "Runtime \<Rightarrow> string + int \<Rightarrow> World \<Rightarrow> (Response \<times> World) go" where
  "handleExpand rt body w =
     (case body of
        Inl err \<Rightarrow> Some ((400, PError (BadRequest err)), w)
      | Inr shards \<Rightarrow> do {
        (res, r) \<leftarrow> Expand (rt_slice rt) shards (w_router w);
        (case res of
           Inl err \<Rightarrow> Some ((409, PError (ExpandError err)), w\<lparr>w_router := r\<rparr>)
         | Inr expansion \<Rightarrow> do {
             s \<leftarrow> Store_ExpandShards (rt_slice rt) shards (w_store w);
             let states = map (\<lambda>i. ShardState r (int i)) [0 ..< nat (Router_ShardCount r)];
             Some ((200, PExpand expansion states), w\<lparr>w_router := r, w_store := s\<rparr>)
           })
        })"

text \<open>\<open>time.Parse\<close> gives the zero time when the parameter is missing or does not parse.\<close>

definition handleSyncCheck :: "Runtime \<Rightarrow> time \<Rightarrow> time \<Rightarrow> World \<Rightarrow> (Response \<times> World) go" where
  "handleSyncCheck rt begin until w = do {
     let (until, w) = (if until = 0 then world_tick w else (until, w));
     let begin = (if begin = 0 then until - nanos_per_hour else begin);
     (res, s) \<leftarrow> Check (w_router w) (w_versions w) (w_checker w) (rt_shards rt) begin until offlineView
                   (w_store w);
     Some (case res of
             Inl err \<Rightarrow> (500, PError (RangeError err))
           | Inr diffs \<Rightarrow> (200, PDiffs diffs (length diffs)),
           w\<lparr>w_store := s\<rparr>)
   }"

definition handleTTLScan :: "Runtime \<Rightarrow> World \<Rightarrow> (Response \<times> World) go" where
  "handleTTLScan rt w = do {
     let (now, w) = world_tick w;
     (expired, s) \<leftarrow> Scan (w_router w) (rt_shards rt 0) (w_scanner w) now (w_store w);
     Some ((200, PExpired expired), w\<lparr>w_store := s\<rparr>)
   }"

definition handleVersions :: "World \<Rightarrow> (Response \<times> World) go" where
  "handleVersions w = do {
     versions \<leftarrow> Manager_List (w_versions w);
     Some ((200, PVersions (map (\<lambda>v. (v_ID v, v_TableID v, v_State v)) versions)), w)
   }"

text \<open>The routes of the mux.\<close>

datatype Request =
    ReqHealth
  | ReqRead string
  | ReqWrite "string + WriteRequest"
  | ReqPublish "string + string"
  | ReqRollback "string + string"
  | ReqImport "string + ImportRequest"
  | ReqBackfill "string + BackfillRequest"
  | ReqExpand "string + int"
  | ReqSyncCheck time time
  | ReqTTLScan
  | ReqVersions

definition handle :: "Runtime \<Rightarrow> Request \<Rightarrow> World \<Rightarrow> (Response \<times> World) go" where
  "handle rt req w =
     (case req of
        ReqHealth \<Rightarrow> handleHealth w
      | ReqRead key \<Rightarrow> handleRead key w
      | ReqWrite body \<Rightarrow> handleWrite rt body w
      | ReqPublish body \<Rightarrow> handlePublish body w
      | ReqRollback body \<Rightarrow> handleRollback body w
      | ReqImport body \<Rightarrow> handleImport rt body w
      | ReqBackfill body \<Rightarrow> handleBackfill rt body w
      | ReqExpand body \<Rightarrow> handleExpand rt body w
      | ReqSyncCheck begin until \<Rightarrow> handleSyncCheck rt begin until w
      | ReqTTLScan \<Rightarrow> handleTTLScan rt w
      | ReqVersions \<Rightarrow> handleVersions w)"

section \<open>The invariant of the server\<close>

text \<open>Everything the components ask of each other; it holds as long as the shards are not expanded.\<close>

definition world_ok :: "World \<Rightarrow> bool" where
  "world_ok w \<longleftrightarrow>
     registry_wf (w_tables w) \<and> clean_registry (w_tables w) \<and>
     sound (w_router w) False (w_versions w, w_store w) \<and>
     0 < im_windowSize (w_importer w) \<and> 0 < ck_step (w_checker w)"

definition runtime_ok :: "Runtime \<Rightarrow> bool" where
  "runtime_ok rt \<longleftrightarrow>
     (\<forall>names. mset (rt_names rt names) = mset names) \<and> (\<forall>i j. ranges (rt_shards rt i j))"

definition expands :: "Request \<Rightarrow> bool" where
  "expands req \<longleftrightarrow> (\<exists>n. req = ReqExpand (Inr n))"

text \<open>A request that changes the store does it in steps of the store.\<close>

definition steps :: "World \<Rightarrow> World \<Rightarrow> bool" where
  "steps w w' \<longleftrightarrow>
     w_tables w' = w_tables w \<and> w_router w' = w_router w \<and> w_checker w' = w_checker w \<and>
     w_scanner w' = w_scanner w \<and> im_windowSize (w_importer w') = im_windowSize (w_importer w) \<and>
     (store_step (w_tables w) (w_router w) False)\<^sup>*\<^sup>* (w_versions w, w_store w) (w_versions w', w_store w')"

lemma steps_refl [simp]: "steps w w"
  by (simp add: steps_def)

lemma steps_ok: "world_ok w \<Longrightarrow> steps w w' \<Longrightarrow> world_ok w'"
  by (auto simp: world_ok_def steps_def intro: store_steps_sound)

lemma steps_store:
  assumes "(store_step (w_tables w) (w_router w) False)\<^sup>*\<^sup>* (w_versions w, w_store w) (m, s)"
  shows "steps w (w\<lparr>w_versions := m, w_store := s\<rparr>)"
  using assms by (simp add: steps_def)

lemma steps_store_only:
  assumes "(store_step (w_tables w) (w_router w) False)\<^sup>*\<^sup>* (w_versions w, w_store w) (w_versions w, s)"
  shows "steps w (w\<lparr>w_store := s\<rparr>)"
  using assms by (simp add: steps_def)

lemma world_tick_eq: "world_tick w = (w_now w 0, w\<lparr>w_now := \<lambda>n. w_now w (Suc n)\<rparr>)"
  by (simp add: world_tick_def tick_def)

lemma those_exists: "(\<And>x. x \<in> set xs \<Longrightarrow> f x \<noteq> None) \<Longrightarrow> \<exists>ys. those (map f xs) = Some ys"
  using those_map_Some by blast

lemma Manager_List_returns: "manager_wf m \<Longrightarrow> \<exists>vs. Manager_List m = Some vs"
  using those_exists [of "m_order m" "fmlookup (m_versions m)"]
  by (auto simp: Manager_List_def manager_wf_def fmdom'_iff)

lemma world_okD:
  assumes "world_ok w"
  shows "registry_wf (w_tables w)" "clean_registry (w_tables w)"
    "sound (w_router w) False (w_versions w, w_store w)" "store_wf (w_router w) (w_store w)"
    "0 < im_windowSize (w_importer w)" "0 < ck_step (w_checker w)" "manager_wf (w_versions w)"
  using assms by (simp_all add: world_ok_def sound_def)


section \<open>Each handler returns and keeps the invariant\<close>

lemma handleHealth_ok: "world_ok w \<Longrightarrow> \<exists>resp. handleHealth w = Some (resp, w)"
  using Registry_List_ids [OF world_okD(1)] by (fastforce simp: handleHealth_def)

lemma handleVersions_ok: "world_ok w \<Longrightarrow> \<exists>resp. handleVersions w = Some (resp, w)"
  using Manager_List_returns [OF world_okD(7)] by (fastforce simp: handleVersions_def)

lemma handleRead_ok:
  assumes "world_ok w"
  shows "\<exists>resp w'. handleRead key w = Some (resp, w') \<and> steps w w'"
proof (cases "key = '''' \<or> (\<exists>err. ParseEntity key = Inl err)")
  case False
  then obtain k where k: "ParseEntity key = Inr k" by (cases "ParseEntity key") auto
  obtain snap s where s: "ReadVersion (w_router w) (w_versions w) k '''' (w_store w) = Some (snap, s)"
    "(store_step (w_tables w) (w_router w) False)\<^sup>*\<^sup>* (w_versions w, w_store w) (w_versions w, s)"
    using online_read [OF world_okD(3) [OF assms]] by blast
  then show ?thesis
    using False k steps_store_only [OF s(2)] by (simp add: handleRead_def Read_eq)
qed (auto simp: handleRead_def)

lemma handleWrite_ok:
  assumes "world_ok w"
  shows "\<exists>resp w'. handleWrite rt body w = Some (resp, w') \<and> steps w w'"
proof -
  have writes: "\<exists>s. Write (w_router w) k fs v (w_store w) = Some s \<and> steps w (w\<lparr>w_store := s\<rparr>)" for k fs v
  proof -
    obtain s where s: "Write (w_router w) k fs v (w_store w) = Some s"
      using Write_eq [OF world_okD(4) [OF assms]] by blast
    then have "store_step (w_tables w) (w_router w) False (w_versions w, w_store w) (w_versions w, s)"
      by (rule do_write)
    then have "steps w (w\<lparr>w_store := s\<rparr>)" by (intro steps_store_only r_into_rtranclp)
    with s show ?thesis by blast
  qed
  show ?thesis
  proof (cases body)
    case (Inr req)
    show ?thesis
    proof (cases "ParseEntity (wr_Key req)")
      case (Inl err)
      with Inr show ?thesis by (simp add: handleWrite_def)
    next
      case parsed: (Inr k)
      show ?thesis
      proof (cases "decodeFields (rt_outside rt) (rt_names rt) (wr_Fields req)")
        case (Inl name)
        with Inr parsed show ?thesis by (simp add: handleWrite_def)
      next
        case decoded: (Inr fs)
        obtain s where "Write (w_router w) k fs (wr_VersionID req) (w_store w) = Some s"
          "steps w (w\<lparr>w_store := s\<rparr>)" using writes by blast
        with Inr parsed decoded show ?thesis by (simp add: handleWrite_def)
      qed
    qed
  qed (simp add: handleWrite_def)
qed

lemma handlePublish_ok: "\<exists>resp w'. handlePublish body w = Some (resp, w') \<and> steps w w'"
proof (cases body)
  case (Inr vid)
  obtain res m s where p: "Publish_store vid (w_versions w, w_store w) = (res, m, s)"
    by (metis prod_cases3)
  then have "store_step (w_tables w) (w_router w) False (w_versions w, w_store w) (m, s)"
    by (rule do_publish)
  with Inr p show ?thesis by (auto simp: handlePublish_def intro: steps_store)
qed (simp add: handlePublish_def)

lemma handleRollback_ok: "\<exists>resp w'. handleRollback body w = Some (resp, w') \<and> steps w w'"
proof (cases body)
  case (Inr vid)
  obtain res m s where p: "Rollback_store vid (w_versions w, w_store w) = (res, m, s)"
    by (metis prod_cases3)
  then have "store_step (w_tables w) (w_router w) False (w_versions w, w_store w) (m, s)"
    by (rule do_rollback)
  with Inr p show ?thesis by (auto simp: handleRollback_def intro: steps_store)
qed (simp add: handleRollback_def)

text \<open>The one way an import panics: rows for a table that is not registered.\<close>

definition import_panics :: "Runtime \<Rightarrow> World \<Rightarrow> ImportRequest \<Rightarrow> bool" where
  "import_panics rt w req \<longleftrightarrow>
     ireq_BatchID req \<noteq> '''' \<and> ireq_Rows req \<noteq> [] \<and>
     (\<exists>decoded. decode_rows rt (ireq_Rows req) = Inr decoded) \<and>
     Registry_Get (w_tables w) (ireq_TableID req) = None"

lemma decode_rows_length: "decode_rows rt rows = Inr decoded \<Longrightarrow> length decoded = length rows"
  by (induction rows arbitrary: decoded) (auto split: sum.splits)

lemma handleImport_ok:
  assumes "world_ok w" and "\<And>req. body = Inr req \<Longrightarrow> \<not> import_panics rt w req"
  shows "\<exists>resp w'. handleImport rt body w = Some (resp, w') \<and> steps w w'"
proof (cases body)
  case (Inr req)
  show ?thesis
  proof (cases "decode_rows rt (ireq_Rows req)")
    case (Inl name)
    with Inr show ?thesis by (simp add: handleImport_def)
  next
    case decoded: (Inr decoded)
    let ?rows = "map import_row decoded"
    let ?import = "Import (w_router w) (w_tables w) (ireq_BatchID req) (ireq_TableID req) ?rows
        (ireq_VersionID req) (w_now w 0) (w_importer w) (w_store w)"
    have "\<exists>res im s. ?import = Some (res, im, s) \<and> im_windowSize im = im_windowSize (w_importer w) \<and>
        (store_step (w_tables w) (w_router w) False)\<^sup>*\<^sup>* (w_versions w, w_store w) (w_versions w, s)"
    proof (cases "ireq_BatchID req = '''' \<or> ?rows = []")
      case True
      then show ?thesis by (auto simp: Import_def)
    next
      case False
      then have "ireq_Rows req \<noteq> []" using decode_rows_length [OF decoded] by auto
      with False assms(2) [OF Inr] decoded obtain t where
        "Registry_Get (w_tables w) (ireq_TableID req) = Some t" unfolding import_panics_def by auto
      from Import_wf [OF world_okD(4,5) [OF assms(1)] _ _ this, of "ireq_BatchID req" ?rows] False
      show ?thesis by fastforce
    qed
    then obtain res im s where *: "?import = Some (res, im, s)" "im_windowSize im = im_windowSize (w_importer w)"
      "(store_step (w_tables w) (w_router w) False)\<^sup>*\<^sup>* (w_versions w, w_store w) (w_versions w, s)" by blast
    have "steps w (w\<lparr>w_importer := im, w_store := s\<rparr>)"
      "steps w (w\<lparr>w_importer := im, w_store := s, w_now := \<lambda>n. w_now w (Suc n)\<rparr>)"
      using *(2,3) by (simp_all add: steps_def)
    then show ?thesis
      using Inr decoded *(1) by (cases res) (simp_all add: handleImport_def tick_def Let_def)
  qed
qed (simp add: handleImport_def)

lemma run_returns:
  assumes "store_wf r s"
  shows "\<exists>res rows' b' s'. Run r t v rows t1 t2 b s = Some (res, rows', b', s') \<and>
           (store_step reg r c)\<^sup>*\<^sup>* (m, s) (m, s')"
proof (cases "t = ''''")
  case True
  then show ?thesis by (simp add: Run_def)
next
  case False
  let ?task = "\<lparr>task_ID = t, task_TableID = v_TableID v, task_State = TaskRunning,
      task_Total = length rows, task_Processed = 0, task_UpdatedAt = t1\<rparr>"
  obtain n task rows' s' where "run_loop r v (plan_Order (BuildPlan rows)) 0 ?task rows s = Some (n, task, rows', s')"
    "(store_step reg r c)\<^sup>*\<^sup>* (m, s) (m, s')"
    using run_loop_steps [OF assms] by blast
  with False show ?thesis by (simp add: Run_def Let_def)
qed

lemma handleBackfill_ok:
  assumes "world_ok w"
  shows "\<exists>resp w'. handleBackfill rt body w = Some (resp, w') \<and> steps w w'"
proof -
  note wf = world_okD(4) [OF assms]
  let ?star = "(store_step (w_tables w) (w_router w) False)\<^sup>*\<^sup>* (w_versions w, w_store w)"
  have retry: "\<exists>n rows' s. Retry (w_router w) t v rows (w_store w) = Some (n, rows', s) \<and> ?star (w_versions w, s)"
    for t v rows
    unfolding Retry_def using wf by (rule retry_loop_steps)
  have run: "\<exists>res rows' b s. Run (w_router w) t v rows t1 t2 (w_backfill w) (w_store w) = Some (res, rows', b, s) \<and>
      ?star (w_versions w, s)" for t v rows t1 t2
    using run_returns [OF wf] by blast
  show ?thesis
  proof (cases body)
    case (Inr req)
    show ?thesis
    proof (cases "Manager_Get (w_versions w) (breq_VersionID req)")
      case None
      with Inr show ?thesis by (simp add: handleBackfill_def)
    next
      case (Some v)
      show ?thesis
      proof (cases "decode_rows rt (breq_Rows req)")
        case (Inl name)
        with Inr Some show ?thesis by (simp add: handleBackfill_def)
      next
        case decoded: (Inr decoded)
        let ?rows = "map result_row decoded"
        show ?thesis
        proof (cases "breq_Retry req")
          case True
          obtain n rows' s where "Retry (w_router w) (breq_TaskID req) v ?rows (w_store w) = Some (n, rows', s)"
            "?star (w_versions w, s)" using retry by blast
          with Inr Some decoded True show ?thesis
            by (auto simp: handleBackfill_def Let_def intro: steps_store_only)
        next
          case False
          obtain res rows' b s where *: "Run (w_router w) (breq_TaskID req) v ?rows (w_now w 0) (w_now w (Suc 0))
              (w_backfill w) (w_store w) = Some (res, rows', b, s)" "?star (w_versions w, s)"
            using run by blast
          have "steps w (w\<lparr>w_backfill := b, w_store := s\<rparr>)"
            "steps w (w\<lparr>w_backfill := b, w_store := s, w_now := \<lambda>n. w_now w (Suc (Suc n))\<rparr>)"
            using *(2) by (simp_all add: steps_def)
          with Inr Some decoded False *(1) show ?thesis
            by (cases res) (simp_all add: handleBackfill_def Let_def tick_def)
        qed
      qed
    qed
  qed (simp add: handleBackfill_def)
qed

lemma handleSyncCheck_ok:
  assumes "world_ok w"
  shows "\<exists>resp w'. handleSyncCheck rt begin until w = Some (resp, w') \<and> steps w w'"
proof -
  let ?stop = "if until = 0 then w_now w 0 else until"
  let ?start = "if begin = 0 then ?stop - nanos_per_hour else begin"
  let ?w = "if until = 0 then w\<lparr>w_now := \<lambda>n. w_now w (Suc n)\<rparr> else w"
  obtain res s where s: "Check (w_router w) (w_versions w) (w_checker w) (rt_shards rt) ?start ?stop offlineView
      (w_store w) = Some (res, s)"
    "(store_step (w_tables w) (w_router w) False)\<^sup>*\<^sup>* (w_versions w, w_store w) (w_versions w, s)"
    using Check_returns [OF world_okD(3,6) [OF assms]] by blast
  have "steps w (?w\<lparr>w_store := s\<rparr>)" using s(2) by (simp add: steps_def)
  then show ?thesis using s(1) by (auto simp: handleSyncCheck_def world_tick_eq Let_def)
qed

lemma handleTTLScan_ok:
  assumes "world_ok w" and "runtime_ok rt"
  shows "\<exists>resp w'. handleTTLScan rt w = Some (resp, w') \<and> steps w w'"
proof -
  have iter: "\<And>i. ranges (rt_shards rt 0 i)" using assms(2) by (simp add: runtime_ok_def)
  obtain n s where s: "Scan (w_router w) (rt_shards rt 0) (w_scanner w) (w_now w 0) (w_store w) = Some (n, s)"
    using Scan_wf [of "w_router w" "w_store w" "rt_shards rt 0" "w_scanner w" "w_now w 0"]
      world_okD(4) [OF assms(1)] iter by blast
  have "(store_step (w_tables w) (w_router w) False)\<^sup>*\<^sup>* (w_versions w, w_store w) (w_versions w, s)"
    using world_okD(4) [OF assms(1)] s iter by (rule Scan_steps)
  then have "steps w (w\<lparr>w_now := \<lambda>n. w_now w (Suc n), w_store := s\<rparr>)" by (simp add: steps_def)
  then show ?thesis using s by (simp add: handleTTLScan_def world_tick_eq Let_def)
qed

end
