(* ===== verification/ServerRuns.thy ===== *)
theory ServerRuns
  imports Server
begin

text \<open>
  Runs of the server: what \<open>main\<close> sets up, the worlds that requests reach from there, and what holds
  of every request in every such world. Expansions of the shards are left out of the runs here, as
  they break the invariant of the store: \<open>ShardExpansion\<close> shows what they do to the stored entries,
  \<open>AlwaysAnswers\<close> what is left of the invariant.
\<close>

section \<open>Start\<close>

lemma main_init_starts:
  assumes "0 < shards" and "shards \<le> lim"
  obtains w where "main_init lim shards ttl c1 c2 c3 = Some (Inr w)" and "world_ok w"
    and "w_tables w = seeded" and "Router_ShardCount (w_router w) = shards"
    and "w_scanner w = NewScanner ttl"
    and "resolveActiveVersionID (w_versions w) = ''user_profile-v1''"
    and "allowed_fields (w_versions w) ''user_profile-v1'' = Some (Table_FieldNames UserProfileTable)"
    and "\<And>k. entries (w_router w) (w_store w) k = None"
proof -
  obtain r where r: "NewRouter lim shards = Some (Inr r)" using assms by (simp add: NewRouter_eq)
  have wf: "router_wf r" using r by (rule router_wf_New)
  obtain m0 s0 where ms0: "fresh_state r c1 c2 = (m0, s0)" by (cases "fresh_state r c1 c2")
  then have New: "New r c2 (NewManager c1) = (s0, m0)" by (simp add: fresh_state_def split: prod.splits)
  then have m0: "m_versions m0 = fmempty" "m_active m0 = None" "m_lastByTable m0 = fmempty"
    by (auto simp: New_def SetCacheHook_def NewManager_def)
  let ?s1 = "SetClock c2 s0"
  have sound1: "sound r False (m0, ?s1)"
    using sound_frame(1) [OF sound_fresh_state [OF wf, of False c1 c2, unfolded ms0]]
    by (simp add: SetClock_def)
  obtain v m1 where c1: "Create seeded ''user_profile'' m0 = (Inr v, m1)"
    using Create_ok [of seeded "''user_profile''" m0] by (auto simp: Get_seeded)
  then have v: "v_ID v = ''user_profile-v1''" "v_State v = VersionDraft"
    by (auto simp: Create_Inr_iff m0 version_id_def itoa_1_2)
  have sound2: "sound r False (m1, ?s1)" using clean_seeded sound1 c1 by (rule sound_create)
  note wf1 = soundD(1) [OF sound2]
  have get: "fmlookup (m_versions m1) (v_ID v) = Some v" using Create_wf [OF soundD(1) [OF sound1] c1] by blast
  obtain res m2 s2 where p: "Publish_store (v_ID v) (m1, ?s1) = (res, m2, s2)" by (metis prod_cases3)
  have sound3: "sound r False (m2, s2)" using sound2 p by (rule sound_publish)
  have p': "res = Inr (published_record m1 v)" "m_versions m2 = after_publish (v_ID v) v m1"
    "m_active m2 = Some (v_ID v)"
    using p Publish_wf_eq [OF wf1 get v(2)] by (auto simp: Publish_store_def split: prod.splits)
  have active: "resolveActiveVersionID m2 = v_ID v"
    using p' get v by (simp add: resolveActiveVersionID_def ResolveActive_def active_record_def
        IsActive_def after_publish_lookup published_record_def)
  obtain v' m3 where c2: "Create seeded ''item_profile'' m2 = (Inr v', m3)"
    using Create_ok [of seeded "''item_profile''" m2] by (auto simp: Get_seeded)
  have sound4: "sound r False (m3, s2)" using clean_seeded sound3 c2 by (rule sound_create)
  have "entries r s2 k = None" for k
  proof -
    have "entries r s0 k = None" using entries_New [OF wf New] .
    then show ?thesis using p by (auto simp: Publish_store_def SetClock_def split: prod.splits)
  qed
  moreover have "resolveActiveVersionID m3 = ''user_profile-v1''"
    using resolveActive_Create [OF soundD(1) [OF sound3] c2] active v by simp
  moreover have "allowed_fields m3 ''user_profile-v1'' = Some (Table_FieldNames UserProfileTable)"
    using c2 p' get v c1 Create_wf [OF soundD(1) [OF sound3] c2]
    by (auto simp: allowed_fields_def Manager_Get_def Create_Inr_iff after_publish_lookup
        published_record_def Get_seeded Table_FieldNames_def UserProfileTable_def)
  ultimately show thesis
    using that sound4 New r c1 p p' c2 NewRouter_count [OF r] registry_wf_seeded clean_seeded
    by (simp add: main_init_def SeedRegistry_New Let_def tick_def world_ok_def NewImporter_def
        NewChecker_def Router_ShardCount_def nanos_per_minute_def)
qed


section \<open>Requests\<close>

text \<open>An import panics exactly when it reaches \<open>MustGet\<close> for a table that is not registered.\<close>

lemma handleImport_panics:
  assumes "import_panics rt w req"
  shows "handleImport rt (Inr req) w = None"
proof -
  from assms obtain decoded where d: "decode_rows rt (ireq_Rows req) = Inr decoded" "ireq_BatchID req \<noteq> ''''"
    "ireq_Rows req \<noteq> []" "Registry_Get (w_tables w) (ireq_TableID req) = None"
    unfolding import_panics_def by blast
  then have "decoded \<noteq> []" using decode_rows_length [OF d(1)] by auto
  with d show ?thesis by (simp add: handleImport_def tick_def Import_def MustGet_def Let_def)
qed

text \<open>An expansion panics exactly when the slices for the new shards cannot be made.\<close>

definition expand_panics :: "Runtime \<Rightarrow> World \<Rightarrow> int \<Rightarrow> bool" where
  "expand_panics rt w n \<longleftrightarrow> 0 < n \<and> shardCount (w_router w) < n \<and> rt_slice rt < n"

lemma handleExpand_panics: "expand_panics rt w n \<Longrightarrow> handleExpand rt (Inr n) w = None"
  using Expand_panics [of "rt_slice rt" n "w_router w"] by (simp add: expand_panics_def handleExpand_def)

definition request_panics :: "Runtime \<Rightarrow> Request \<Rightarrow> World \<Rightarrow> bool" where
  "request_panics rt req w \<longleftrightarrow>
     (case req of
        ReqImport (Inr ireq) \<Rightarrow> import_panics rt w ireq
      | ReqExpand (Inr n) \<Rightarrow> expand_panics rt w n
      | _ \<Rightarrow> False)"

lemma handle_ok:
  assumes "world_ok w" and "runtime_ok rt" and "\<not> expands req" and "\<not> request_panics rt req w"
  shows "\<exists>resp w'. handle rt req w = Some (resp, w') \<and> steps w w'"
proof (cases req)
  case ReqHealth
  then show ?thesis using handleHealth_ok [OF assms(1)] by (auto simp: handle_def)
next
  case (ReqImport body)
  with assms(4) have "\<And>ireq. body = Inr ireq \<Longrightarrow> \<not> import_panics rt w ireq"
    by (simp add: request_panics_def)
  from handleImport_ok [OF assms(1) this] ReqImport show ?thesis by (simp add: handle_def)
next
  case (ReqExpand body)
  with assms(3) show ?thesis by (cases body) (auto simp: handle_def handleExpand_def expands_def)
next
  case ReqVersions
  then show ?thesis using handleVersions_ok [OF assms(1)] by (auto simp: handle_def)
qed (use handleRead_ok [OF assms(1)] handleWrite_ok [OF assms(1)] handlePublish_ok handleRollback_ok
    handleBackfill_ok [OF assms(1)] handleSyncCheck_ok [OF assms(1)] handleTTLScan_ok [OF assms(1,2)]
    in \<open>simp_all add: handle_def\<close>)

lemma handle_None:
  assumes "world_ok w" and "runtime_ok rt" and "\<not> expands req"
  shows "handle rt req w = None \<longleftrightarrow> request_panics rt req w"
proof
  assume "handle rt req w = None"
  then show "request_panics rt req w" using handle_ok [OF assms] by fastforce
next
  assume "request_panics rt req w"
  then show "handle rt req w = None"
    by (auto simp: request_panics_def handle_def handleImport_panics handleExpand_panics
        split: Request.splits sum.splits)
qed

lemma handle_steps:
  assumes "world_ok w" and "runtime_ok rt" and "\<not> expands req" and "handle rt req w = Some (resp, w')"
  shows "steps w w'"
proof -
  have "\<not> request_panics rt req w" using handle_None [OF assms(1-3)] assms(4) by simp
  from handle_ok [OF assms(1-3) this] assms(4) show ?thesis by auto
qed

text \<open>The runs: any requests but expansions, the run time choosing anew for each of them.\<close>

inductive serves :: "World \<Rightarrow> World \<Rightarrow> bool" where
  serve: "runtime_ok rt \<Longrightarrow> \<not> expands req \<Longrightarrow> handle rt req w = Some (resp, w') \<Longrightarrow> serves w w'"

definition served :: "int \<Rightarrow> duration \<Rightarrow> World \<Rightarrow> bool" where
  "served shards ttl w \<longleftrightarrow>
     (\<exists>lim c1 c2 c3 w0. main_init lim shards ttl c1 c2 c3 = Some (Inr w0) \<and> serves\<^sup>*\<^sup>* w0 w)"

lemma main_init_cases:
  obtains (fatal) "shards \<le> 0" "main_init lim shards ttl c1 c2 c3 = Some (Inl (RouterFailed NonPositiveShardCount))"
  | (panics) "0 < shards" "lim < shards" "main_init lim shards ttl c1 c2 c3 = None"
  | (up) "0 < shards" "shards \<le> lim"
proof (cases "shards \<le> 0")
  case True
  then show ?thesis using fatal by (simp add: main_init_def SeedRegistry_New NewRouter_eq)
next
  case False
  then show ?thesis
    using panics up by (cases "shards \<le> lim") (simp_all add: main_init_def SeedRegistry_New NewRouter_eq)
qed

lemma served_ok: "served shards ttl w \<Longrightarrow> world_ok w"
proof -
  assume "served shards ttl w"
  then obtain lim c1 c2 c3 w0 where w0: "main_init lim shards ttl c1 c2 c3 = Some (Inr w0)" "serves\<^sup>*\<^sup>* w0 w"
    unfolding served_def by blast
  have "world_ok w0"
  proof (cases rule: main_init_cases [of shards lim ttl c1 c2 c3])
    case up
    from main_init_starts [OF up, of ttl c1 c2 c3] w0(1) show ?thesis by (metis option.inject sum.inject(2))
  qed (use w0 in simp_all)
  from w0(2) this show "world_ok w"
    by induction (auto elim!: serves.cases intro: steps_ok handle_steps)
qed


section \<open>Rejected requests\<close>

lemma run_hook_Nil [simp]: "run_hook [] s = s"
  by (simp add: run_hook_def)

lemma Publish_store_Inl:
  assumes "manager_wf m" and "Publish_store vid (m, s) = (Inl err, m', s')"
  shows "m' = m \<and> s' = s"
  using assms(1)
proof (cases rule: Publish_cases [where vid = vid])
  case (published v)
  then show ?thesis
    using assms(2) Publish_wf_eq [OF assms(1) published] by (auto simp: Publish_store_def)
qed (use assms(2) in \<open>auto simp: Publish_store_def\<close>)

lemma Rollback_store_Inl:
  assumes "manager_wf m" and "Rollback_store vid (m, s) = (Inl err, m', s')"
  shows "m' = m \<and> s' = s"
proof (cases rule: Rollback_cases [where m = m and vid = vid])
  case (rolled t p)
  then show ?thesis
    using assms(2) Rollback_wf_eq [OF assms(1) rolled] by (auto simp: Rollback_store_def)
qed (use assms(2) in \<open>auto simp: Rollback_store_def\<close>)

lemma Import_Inl: "Import r reg b t rows v now im s = Some (Inl err, im', s') \<Longrightarrow> im' = im \<and> s' = s"
  by (auto simp: Import_def Let_def split: if_splits bind_splits prod.splits)

lemma Run_Inl: "Run r t v rows t1 t2 b s = Some (Inl err, rows', b', s') \<Longrightarrow> b' = b \<and> s' = s"
  by (auto simp: Run_def Let_def split: if_splits bind_splits prod.splits)

lemma Check_Inl: "Check r m c iter begin until off s = Some (Inl err, s') \<Longrightarrow> s' = s"
  by (auto simp: Check_def split: if_splits bind_splits prod.splits)


section \<open>Decoded fields\<close>

lemma decode_names_spec:
  "case decode_names outside raw names fs of
     Inl name \<Rightarrow> name \<in> set names \<and> Option.bind (fmlookup raw name) (decode_value outside) = None
   | Inr fs' \<Rightarrow>
       (\<forall>n. fmlookup fs' n =
          (if n \<in> set names then Option.bind (fmlookup raw n) (decode_value outside) else fmlookup fs n)) \<and>
       (\<forall>n \<in> set names. Option.bind (fmlookup raw n) (decode_value outside) \<noteq> None)"
proof (induction names arbitrary: fs)
  case (Cons name names)
  show ?case
  proof (cases "Option.bind (fmlookup raw name) (decode_value outside)")
    case (Some v)
    from Cons.IH [of "fmupd name v fs"] Some show ?thesis
      by (cases "decode_names outside raw names (fmupd name v fs)") auto
  qed simp
qed simp

text \<open>A whole number becomes an integer whatever type the schema gives the field.\<close>

lemma whole_number_decodes_as_int:
  "f64_integer f = Some i \<Longrightarrow> in_int64 i \<Longrightarrow>
     decode_value outside (JNum (Some f)) = Some (IntValue (word_of_int i))"
  by (simp add: decode_value_def Unmarshal_string_def Unmarshal_float_def whole_def)

section \<open>Properties\<close>

definition demo_runtime :: Runtime where
  "demo_runtime = \<lparr>rt_outside = \<lambda>f. None, rt_names = \<lambda>names. names, rt_shards = \<lambda>i j keys. keys,
     rt_slice = 1024\<rparr>"

lemma runtime_ok_demo: "runtime_ok demo_runtime"
  by (simp add: runtime_ok_def demo_runtime_def ranges_def)

lemma served_demo: "\<exists>w. served 2 nanos_per_hour w \<and> w_tables w = seeded \<and> world_ok w \<and>
    allowed_fields (w_versions w) ''user_profile-v1'' = Some (Table_FieldNames UserProfileTable) \<and>
    resolveActiveVersionID (w_versions w) = ''user_profile-v1''"
proof -
  obtain w where w: "main_init 1024 2 nanos_per_hour int int int = Some (Inr w)" "world_ok w" "w_tables w = seeded"
    "allowed_fields (w_versions w) ''user_profile-v1'' = Some (Table_FieldNames UserProfileTable)"
    "resolveActiveVersionID (w_versions w) = ''user_profile-v1''"
    using main_init_starts [of 2 1024 nanos_per_hour int int int] by auto
  then have "served 2 nanos_per_hour w" unfolding served_def by blast
  with w show ?thesis by blast
qed

text \<open>The server comes up exactly when the shard flag is positive and a slice of that length can be
  made: with the two seeded tables, the first profile version published and active, no entries, and
  every invariant the components ask of each other. Otherwise \<open>main\<close> stops or panics at the router.\<close>

theorem main_starts:
  "case main_init lim shards ttl c1 c2 c3 of
     None \<Rightarrow> 0 < shards \<and> lim < shards
   | Some (Inl err) \<Rightarrow> shards \<le> 0 \<and> err = RouterFailed NonPositiveShardCount
   | Some (Inr w) \<Rightarrow> 0 < shards \<and> shards \<le> lim \<and> world_ok w \<and> Router_ShardCount (w_router w) = shards \<and>
       w_tables w = seeded \<and> w_scanner w = NewScanner ttl \<and>
       resolveActiveVersionID (w_versions w) = ''user_profile-v1'' \<and>
       (\<forall>k. entries (w_router w) (w_store w) k = None)"
proof (cases rule: main_init_cases [of shards lim ttl c1 c2 c3])
  case up
  show ?thesis
  proof (rule main_init_starts [OF up, of ttl c1 c2 c3])
    fix w
    assume "main_init lim shards ttl c1 c2 c3 = Some (Inr w)" "world_ok w" "w_tables w = seeded"
      "Router_ShardCount (w_router w) = shards" "w_scanner w = NewScanner ttl"
      "resolveActiveVersionID (w_versions w) = ''user_profile-v1''"
      "allowed_fields (w_versions w) ''user_profile-v1'' = Some (Table_FieldNames UserProfileTable)"
      "\<And>k. entries (w_router w) (w_store w) k = None"
    with up show ?thesis by simp
  qed
qed simp_all


lemmas handler_defs = handleHealth_def handleRead_def handleWrite_def handlePublish_def handleRollback_def
  handleImport_def handleBackfill_def handleExpand_def handleSyncCheck_def handleTTLScan_def
  handleVersions_def world_tick_eq tick_def Let_def

lemmas handler_splits = if_splits bind_splits prod.splits sum.splits option.splits

lemma handle_status:
  assumes "handle rt req w = Some ((status, payload), w')"
  shows "status \<in> {200, 400, 404, 409, 500} \<and> (status = 200 \<longleftrightarrow> (\<forall>err. payload \<noteq> PError err))"
  using assms by (cases req) (auto simp: handle_def handler_defs split: handler_splits)

text \<open>C26: A request that is not answered with 200 changes nothing: no entry, no version, no batch, no task,
  no cached view, no shard; a sync check without an end of its range has read the clock.\<close>

theorem rejected_requests_change_nothing:
  assumes "manager_wf (w_versions w)" and "handle rt req w = Some ((status, payload), w')" and "status \<noteq> 200"
  shows "(\<exists>err. payload = PError err) \<and>
         (w' = w \<or> (\<exists>begin. req = ReqSyncCheck begin 0) \<and> w' = w\<lparr>w_now := \<lambda>n. w_now w (Suc n)\<rparr>)"
proof -
  have "w' = w \<or> (\<exists>begin. req = ReqSyncCheck begin 0) \<and> w' = w\<lparr>w_now := \<lambda>n. w_now w (Suc n)\<rparr>"
    using assms(2,3) Publish_store_Inl [OF assms(1)] Rollback_store_Inl [OF assms(1)] 
    by (cases req) (auto simp: handle_def handler_defs split: handler_splits
        dest!: Import_Inl Run_Inl Check_Inl Expand_Inl)
  with handle_status [OF assms(2)] assms(3) show ?thesis by blast
qed

lemma rejected_requests_change_nothing_witness:
  "\<exists>w w'. served 2 nanos_per_hour w \<and>
     handle demo_runtime (ReqRead '''') w = Some ((400, PError MissingKey), w') \<and>
     w' = w"
proof -
  obtain w where w: "served 2 nanos_per_hour w" "world_ok w" using served_demo by blast
  have "handle demo_runtime (ReqRead '''') w = Some ((400, PError MissingKey), w)"
    by (simp add: handle_def handleRead_def)
  with rejected_requests_change_nothing [OF world_okD(7) [OF w(2)] this] w(1) show ?thesis by auto
qed

text \<open>C30: Over HTTP no read is stale: in every world the server reaches from its start by any requests but
  expansions, a read of an entity answers with what the stored entry gives under the version that is
  active then, printed, whatever is cached, and changes no entry, no version and no table.\<close>

theorem http_read_never_stale:
  assumes "served shards ttl w" and "ParseEntity key = Inr k"
  defines "snap \<equiv> fresh (w_router w) (w_versions w) (w_store w) k (resolveActiveVersionID (w_versions w))"
  shows "\<exists>s'. handleRead key w =
             Some ((200, PRead (snap_Entity snap) (snap_VersionID snap) (fieldsAsStrings snap)), w\<lparr>w_store := s'\<rparr>) \<and>
           entries (w_router w) s' = entries (w_router w) (w_store w)"
proof -
  have "key \<noteq> ''''" using assms(2) by (auto simp: ParseEntity_Inr_iff TrimSpace_Nil)
  moreover obtain s' where "Read (w_router w) (w_versions w) k (w_store w) = Some (snap, s')"
    "entries (w_router w) s' = entries (w_router w) (w_store w)"
    using Read_sound [OF world_okD(3) [OF served_ok [OF assms(1)]], of k] unfolding snap_def by blast
  ultimately show ?thesis
    using assms(2) by (simp add: handleRead_def) blast
qed

lemma http_read_never_stale_witness:
  "\<exists>w w'. served 2 nanos_per_hour w \<and> resolveActiveVersionID (w_versions w) = ''user_profile-v1'' \<and>
     handleRead ''user_1'' w = Some ((200, PRead demo_user ''user_profile-v1'' fmempty), w')"
proof -
  obtain w where w: "main_init 1024 2 nanos_per_hour int int int = Some (Inr w)"
    "resolveActiveVersionID (w_versions w) = ''user_profile-v1''"
    "\<And>k. entries (w_router w) (w_store w) k = None"
    using main_init_starts [of 2 1024 nanos_per_hour int int int] by auto
  then have served: "served 2 nanos_per_hour w" unfolding served_def by blast
  have "ParseEntity ''user_1'' = Inr demo_user" by (simp add: demo_user_def) code_simp
  from http_read_never_stale [OF served this] w(2,3)
  have "\<exists>s'. handleRead ''user_1'' w = Some ((200, PRead demo_user ''user_profile-v1'' fmempty), w\<lparr>w_store := s'\<rparr>)"
    by (auto simp: fresh_def EmptySnapshot_def fieldsAsStrings_def)
  with served w(2) show ?thesis by blast
qed

text \<open>C27: Over HTTP too a write is read back: the answer to a read after an accepted write has the
  written values, printed, for the fields that the layout of the active version admits.\<close>

theorem http_write_then_read:
  assumes "world_ok w" and "ParseEntity (wr_Key req) = Inr k"
    and "decodeFields (rt_outside rt) (rt_names rt) (wr_Fields req) = Inr fs"
  shows "\<exists>w1 out w2. handleWrite rt (Inr req) w = Some ((200, PWritten), w1) \<and>
           handleRead (wr_Key req) w1 = Some ((200, PRead k (wr_VersionID req) out), w2) \<and>
           (\<forall>n. fmlookup out n =
              (case allowed_fields (w_versions w) (resolveActiveVersionID (w_versions w)) of
                 None \<Rightarrow> map_option FeatureValue_String (fmlookup fs n)
               | Some layout \<Rightarrow>
                   if n \<in> set layout then map_option FeatureValue_String (fmlookup fs n) else None))"
proof -
  let ?m = "w_versions w" and ?r = "w_router w" and ?v = "wr_VersionID req"
  let ?snap = "entrySnapshot ?m (written k fs ?v (s_now (w_store w) 0)) (resolveActiveVersionID ?m)"
  obtain s where s: "Write ?r k fs ?v (w_store w) = Some s" "sound ?r False (?m, s)"
    "fresh ?r ?m s k (resolveActiveVersionID ?m) = ?snap"
    using Write_sound [OF world_okD(3) [OF assms(1)]] by blast
  obtain s' where s': "Read ?r ?m k s = Some (?snap, s')" using Read_sound [OF s(2), of k] s(3) by auto
  have key: "wr_Key req \<noteq> ''''" using assms(2) by (auto simp: ParseEntity_Inr_iff)
  have "handleWrite rt (Inr req) w = Some ((200, PWritten), w\<lparr>w_store := s\<rparr>)"
    using key assms(2,3) s(1) by (simp add: handleWrite_def)
  moreover have "handleRead (wr_Key req) (w\<lparr>w_store := s\<rparr>) =
      Some ((200, PRead k ?v (fieldsAsStrings ?snap)), w\<lparr>w_store := s'\<rparr>)"
    using key assms(2) s' by (simp add: handleRead_def written_snapshot)
  moreover have "fmlookup (fieldsAsStrings ?snap) n = (case allowed_fields ?m (resolveActiveVersionID ?m) of
      None \<Rightarrow> map_option FeatureValue_String (fmlookup fs n)
    | Some layout \<Rightarrow> if n \<in> set layout then map_option FeatureValue_String (fmlookup fs n) else None)" for n
    by (simp add: fieldsAsStrings_def written_snapshot split: option.splits)
  ultimately show ?thesis by blast
qed

definition demo_raw :: raw_fields where
  "demo_raw = fmupd ''city'' (JStr ''oslo'') (fmupd ''is_vip'' (JBool True) (fmupd ''nick'' JNull fmempty))"

definition demo_body :: WriteRequest where
  "demo_body = \<lparr>wr_Key = ''user_1'', wr_VersionID = ''user_profile-v1'', wr_Fields = demo_raw\<rparr>"

lemma sorted_keys_demo_raw: "sorted_keys demo_raw = [''city'', ''is_vip'', ''nick'']"
  unfolding demo_raw_def by code_simp

lemma decodeFields_demo:
  "\<exists>fs. decodeFields (rt_outside demo_runtime) (rt_names demo_runtime) demo_raw = Inr fs \<and>
     fmlookup fs ''city'' = Some (StringValue ''oslo'') \<and>
     fmlookup fs ''is_vip'' = Some (BoolValue True) \<and> fmlookup fs ''nick'' = Some (StringValue '''')"
  by (simp add: decodeFields_def sorted_keys_demo_raw demo_runtime_def)
    (simp add: demo_raw_def decode_value_def Unmarshal_string_def Unmarshal_float_def Unmarshal_bool_def)

lemma http_write_then_read_witness:
  "\<exists>w w1 out w2. served 2 nanos_per_hour w \<and>
     handleWrite demo_runtime (Inr demo_body) w = Some ((200, PWritten), w1) \<and>
     handleRead ''user_1'' w1 = Some ((200, PRead demo_user ''user_profile-v1'' out), w2) \<and>
     fmlookup out ''city'' = Some ''oslo'' \<and> fmlookup out ''is_vip'' = Some ''true'' \<and>
     fmlookup out ''nick'' = None"
proof -
  obtain w where w: "served 2 nanos_per_hour w" "world_ok w"
    "allowed_fields (w_versions w) ''user_profile-v1'' = Some (Table_FieldNames UserProfileTable)"
    "resolveActiveVersionID (w_versions w) = ''user_profile-v1''" using served_demo by blast
  obtain fs where fs: "decodeFields (rt_outside demo_runtime) (rt_names demo_runtime) (wr_Fields demo_body) = Inr fs"
    "fmlookup fs ''city'' = Some (StringValue ''oslo'')" "fmlookup fs ''is_vip'' = Some (BoolValue True)"
    using decodeFields_demo by (auto simp: demo_body_def)
  have "ParseEntity (wr_Key demo_body) = Inr demo_user"
    by (simp add: demo_body_def demo_user_def) code_simp
  from http_write_then_read [OF w(2) this fs(1)] w(3,4) obtain w1 out w2 where o:
    "handleWrite demo_runtime (Inr demo_body) w = Some ((200, PWritten), w1)"
    "handleRead ''user_1'' w1 = Some ((200, PRead demo_user ''user_profile-v1'' out), w2)"
    "\<And>n. fmlookup out n = (if n \<in> set (Table_FieldNames UserProfileTable)
       then map_option FeatureValue_String (fmlookup fs n) else None)"
    by (auto simp: demo_body_def)
  have "fmlookup out ''city'' = Some ''oslo''" "fmlookup out ''is_vip'' = Some ''true''"
    "fmlookup out ''nick'' = None"
    using fs(2,3) by (simp_all add: o(3) Table_FieldNames_def UserProfileTable_def FeatureValue_String_ctors)
  with o(1,2) w(1) show ?thesis by blast
qed

text \<open>Decoding the fields of a request takes each named value as a string, else as a number, an
  integer when it is whole, else as a boolean; it succeeds exactly when every value is one of
  these, and the result does not depend on the order in which the map is ranged over.\<close>

theorem decodeFields_spec:
  assumes "mset (iter (sorted_keys raw)) = mset (sorted_keys raw)"
  shows "case decodeFields outside iter raw of
           Inl name \<Rightarrow> (\<exists>j. fmlookup raw name = Some j \<and> decode_value outside j = None)
         | Inr fs \<Rightarrow> (\<forall>n. fmlookup fs n = Option.bind (fmlookup raw n) (decode_value outside)) \<and>
                    fmdom' fs = fmdom' raw"
proof -
  have names: "set (iter (sorted_keys raw)) = fmdom' raw"
    using mset_eq_setD [OF assms] by simp
  then show ?thesis
    using decode_names_spec [where names = "iter (sorted_keys raw)" and fs = fmempty and raw = raw and outside = outside]
    by (auto simp: decodeFields_def fmdom'_iff fmlookup_dom'_iff split: sum.splits option.splits)
qed

lemma decodeFields_spec_witness:
  "case decodeFields (rt_outside demo_runtime) rev demo_raw of
     Inl name \<Rightarrow> False
   | Inr fs \<Rightarrow> fmlookup fs ''nick'' = Some (StringValue '''') \<and> fmlookup fs ''age'' = None"
proof -
  show ?thesis
    using decodeFields_spec [where iter = rev and raw = demo_raw and outside = "rt_outside demo_runtime"]
    by (auto simp: demo_raw_def decode_value_def Unmarshal_string_def Unmarshal_float_def Unmarshal_bool_def
        split: sum.splits if_splits)
qed

end
