(* ===== verification/AlwaysAnswers.thy ===== *)
theory AlwaysAnswers
  imports ServerRuns
begin

text \<open>
  No request makes the service panic but one, expansions of the shards included. After an expansion
  entries may lie in shards their keys are no longer routed to, so the invariant of the store is
  lost; what stays is that the store has as many shards as the router, and that is enough for
  every operation to return. The operations are run through by a small calculus of weakest
  preconditions: \<open>runs Q c\<close> says that the call \<open>c\<close> returns and its result satisfies \<open>Q\<close>.
  The same pass shows that the stored values stay well typed: every field is what the constructor of
  its type tag makes (\<open>well_typed\<close>), which decoding establishes and every operation keeps.
\<close>

section \<open>Calls that return\<close>

definition runs :: "('a \<Rightarrow> bool) \<Rightarrow> 'a go \<Rightarrow> bool" where
  "runs Q c \<longleftrightarrow> (\<exists>x. c = Some x \<and> Q x)"

lemma runs_Some [simp]: "runs Q (Some x) \<longleftrightarrow> Q x"
  by (simp add: runs_def)

lemma runs_bind: "runs Q (Option.bind c f) \<longleftrightarrow> runs (\<lambda>x. runs Q (f x)) c"
  by (cases c) (simp_all add: runs_def)

lemma runs_mono: "runs R c \<Longrightarrow> (\<And>x. R x \<Longrightarrow> Q x) \<Longrightarrow> runs Q c"
  by (auto simp: runs_def)

lemma runs_map: "runs Q (map_option f c) \<longleftrightarrow> runs (\<lambda>x. Q (f x)) c"
  by (cases c) (simp_all add: runs_def)

text \<open>A value is well typed when it is what the constructor of its type makes.\<close>

definition well_typed :: "FeatureValue \<Rightarrow> bool" where
  "well_typed v \<longleftrightarrow>
     (case fv_Type v of
        FieldString \<Rightarrow> v = StringValue (fv_Str v)
      | FieldInt \<Rightarrow> v = IntValue (fv_Int v)
      | FieldFloat \<Rightarrow> v = FloatValue (fv_Float v)
      | FieldBool \<Rightarrow> v = BoolValue (fv_Bool v)
      | FieldOther _ \<Rightarrow> False)"

lemma well_typed_ctors [simp]:
  "well_typed (StringValue t)" "well_typed (IntValue i)" "well_typed (FloatValue f)" "well_typed (BoolValue b)"
  by (simp_all add: well_typed_def value_ctor_defs)

definition fields_typed :: "Fields \<Rightarrow> bool" where
  "fields_typed fs \<longleftrightarrow> (\<forall>n v. fmlookup fs n = Some v \<longrightarrow> well_typed v)"

lemma fields_typed_empty [simp]: "fields_typed fmempty"
  by (simp add: fields_typed_def)

definition shard_typed :: "Shard \<Rightarrow> bool" where
  "shard_typed sh \<longleftrightarrow> (\<forall>k e. fmlookup sh k = Some e \<longrightarrow> fields_typed (e_Fields e))"

lemma shard_typed_empty [simp]: "shard_typed fmempty"
  by (simp add: shard_typed_def)

lemma shard_typed_upd: "shard_typed sh \<Longrightarrow> fields_typed (e_Fields e) \<Longrightarrow> shard_typed (fmupd k e sh)"
  by (simp add: shard_typed_def)

lemma shard_typed_drop: "shard_typed sh \<Longrightarrow> shard_typed (fmdrop k sh)"
  by (auto simp: shard_typed_def)

text \<open>The invariant that survives an expansion.\<close>

definition store_fine :: "Router \<Rightarrow> Store \<Rightarrow> bool" where
  "store_fine r s \<longleftrightarrow>
     router_wf r \<and> length (s_shards s) = shard_total r \<and> list_all shard_typed (s_shards s)"

lemma store_fine_empty:
  assumes "store_wf r s" and "\<And>k. entries r s k = None"
  shows "store_fine r s"
proof -
  have "shard_typed (s_shards s ! i)" if "i < length (s_shards s)" for i
    using shard_lookup [OF assms(1) that] assms(2) by (auto simp: shard_typed_def split: if_splits)
  then show ?thesis using store_wfD(1,2) [OF assms(1)] by (simp add: store_fine_def list_all_length)
qed

lemma store_fine_frame [simp]:
  "store_fine r (s\<lparr>s_now := c\<rparr>) = store_fine r s"
  "store_fine r (s\<lparr>s_results := cr\<rparr>) = store_fine r s"
  "store_fine r (s\<lparr>s_journal := j\<rparr>) = store_fine r s"
  "store_fine r (s\<lparr>s_cache := ca\<rparr>) = store_fine r s"
  "store_fine r (invalidate_entity key s) = store_fine r s"
  "store_fine r (run_hook calls s) = store_fine r s"
  using run_hook_frame by (simp_all add: store_fine_def invalidate_entity_def)

lemma store_fine_shard: "store_fine r s \<Longrightarrow> shard_typed (s_shards s ! shard_of r key)"
  using shard_of_less [of r key] by (simp add: store_fine_def list_all_length)

lemma store_fine_entry:
  "store_fine r s \<Longrightarrow> fmlookup (s_shards s ! shard_of r key) k = Some e \<Longrightarrow> fields_typed (e_Fields e)"
  using store_fine_shard [of r s key] by (simp add: shard_typed_def)

lemma store_fine_put:
  assumes "store_fine r s" and "shard_typed sh"
  shows "store_fine r (store_shard i sh s)"
proof -
  have "set ((s_shards s)[i := sh]) \<subseteq> insert sh (set (s_shards s))" by (rule set_update_subset_insert)
  with assms show ?thesis by (auto simp: store_fine_def store_shard_def list_all_iff)
qed

text \<open>What merging, patching and counting make of well-typed fields.\<close>

lemma fields_typed_merge: "fields_typed patch \<Longrightarrow> fields_typed fs \<Longrightarrow> fields_typed (merge_fields patch names fs)"
  by (simp add: fields_typed_def merge_fields_lookup)

lemma fields_typed_patch: "fields_typed (row_Fields row) \<Longrightarrow> fields_typed (build_patch row names fmempty)"
  by (auto simp: fields_typed_def build_patch_lookup split: if_splits)

lemma fields_typed_add: "fields_typed fs \<Longrightarrow> fields_typed (add_counters cur fs)"
  by (auto simp: fields_typed_def add_counters_lookup add_counter_def split: option.splits)

lemma fields_typed_resultFor:
  "(\<And>row. row \<in> set rows \<Longrightarrow> fields_typed (res_Fields row)) \<Longrightarrow> fields_typed (res_Fields (resultFor rows key))"
  by (induction rows) (simp_all add: zero_Result_def)

lemma fields_typed_set_result:
  "(\<And>row. row \<in> set rows \<Longrightarrow> fields_typed (res_Fields row)) \<Longrightarrow> fields_typed fs \<Longrightarrow>
     row \<in> set (set_result key fs rows) \<Longrightarrow> fields_typed (res_Fields row)"
  by (induction rows) (auto split: if_splits)

section \<open>The operations of the store\<close>

lemma shard_index_match: "store_fine r s \<Longrightarrow> shard_index r s key = Some (shard_of r key)"
  using shard_of_less [of r key] by (simp add: store_fine_def shard_index_def Route_wf)

lemma read_entry_match: "store_fine r s \<Longrightarrow> \<exists>e. read_entry r s key = Some e"
  using shard_of_less [of r key] by (simp add: store_fine_def read_entry_def Lookup_wf)

lemma store_lookup_match: "store_fine r s \<Longrightarrow> \<exists>e. store_lookup r s key = Some e"
  by (simp add: store_lookup_def shard_index_match)

lemma runs_WrittenAt: "store_fine r s \<Longrightarrow> (\<And>t. Q t) \<Longrightarrow> runs Q (WrittenAt r key s)"
  using store_lookup_match [of r s key] by (auto simp: WrittenAt_def)

lemma runs_EntryFor: "store_fine r s \<Longrightarrow> (\<And>e. Q e) \<Longrightarrow> runs Q (EntryFor r key s)"
  using store_lookup_match [of r s key] by (auto simp: EntryFor_def)

lemma runs_ReadVersion:
  "store_fine r s \<Longrightarrow> (\<And>snap s'. store_fine r s' \<Longrightarrow> Q (snap, s')) \<Longrightarrow> runs Q (ReadVersion r m key v s)"
  using read_entry_match [of r s key]
  by (auto simp: ReadVersion_eq read_cached_def Let_def split: option.splits)

lemma runs_Write:
  "store_fine r s \<Longrightarrow> fields_typed fs \<Longrightarrow> (\<And>s'. store_fine r s' \<Longrightarrow> Q s') \<Longrightarrow> runs Q (Write r key fs v s)"
  by (simp add: Write_def tick_def WriteAt_def shard_index_match Let_def store_fine_put shard_typed_upd
      store_fine_shard)

lemma runs_MergeWrite:
  "store_fine r s \<Longrightarrow> fields_typed patch \<Longrightarrow> (\<And>s'. store_fine r s' \<Longrightarrow> Q s') \<Longrightarrow>
     runs Q (MergeWrite r key patch names v s)"
  using store_fine_entry [of r s key key]
  by (cases "fmlookup (s_shards s ! shard_of r key) key")
    (simp_all add: MergeWrite_def tick_def shard_index_match Let_def new_Entry_def store_fine_put
      shard_typed_upd store_fine_shard fields_typed_merge)

lemma runs_CompareAndWrite:
  "store_fine r s \<Longrightarrow> fields_typed fs \<Longrightarrow> (\<And>ok s'. store_fine r s' \<Longrightarrow> Q (ok, s')) \<Longrightarrow>
     runs Q (CompareAndWrite r key fs w s)"
  using store_lookup_match [of r s key]
  by (auto simp: CompareAndWrite_def tick_def shard_index_match Let_def store_fine_put shard_typed_upd
      store_fine_shard)

lemma runs_Delete:
  "store_fine r s \<Longrightarrow> (\<And>s'. store_fine r s' \<Longrightarrow> Q s') \<Longrightarrow> runs Q (Delete r key s)"
  by (simp add: Delete_def shard_index_match Let_def store_fine_put shard_typed_drop store_fine_shard)

section \<open>The clients of the store\<close>

lemma runs_scan_keys:
  "store_fine r s \<Longrightarrow> (\<And>n' s'. store_fine r s' \<Longrightarrow> Q (n', s')) \<Longrightarrow> runs Q (scan_keys r sc now keys n s)"
proof (induction keys arbitrary: n s)
  case (Cons key keys)
  have "runs (\<lambda>(hit, s). store_fine r s) (ExpireKey r sc key now s)"
    unfolding ExpireKey_def runs_bind using Cons.prems(1)
    by (auto intro!: runs_WrittenAt runs_Delete simp: runs_bind split: option.splits)
  then show ?case
    using Cons.IH [OF _ Cons.prems(2)] by (auto simp: runs_bind elim!: runs_mono)
qed simp

lemma runs_scan_shards:
  "store_fine r s \<Longrightarrow> (\<And>n' s'. store_fine r s' \<Longrightarrow> Q (n', s')) \<Longrightarrow> runs Q (scan_shards r iter sc now shards n s)"
proof (induction shards arbitrary: n s)
  case (Cons shard shards)
  then show ?case by (simp add: runs_bind) (rule runs_scan_keys, simp_all)
qed simp

lemma runs_compare_keys:
  "store_fine r s \<Longrightarrow> (\<And>ds' s'. store_fine r s' \<Longrightarrow> Q (ds', s')) \<Longrightarrow>
     runs Q (compare_keys r m w off keys ds s)"
proof (induction keys arbitrary: ds s)
  case (Cons key keys)
  note IH = Cons.IH [OF _ Cons.prems(2)]
  show ?case
    unfolding compare_keys.simps runs_bind
    by (rule runs_WrittenAt [OF Cons.prems(1)])
      (auto simp: runs_bind IH Cons.prems(1) intro!: runs_ReadVersion split: option.splits)
qed simp

lemma runs_compare_shards:
  "store_fine r s \<Longrightarrow> (\<And>ds' s'. store_fine r s' \<Longrightarrow> Q (ds', s')) \<Longrightarrow>
     runs Q (compare_shards r m iter w off shards ds s)"
proof (induction shards arbitrary: ds s)
  case (Cons shard shards)
  then show ?case by (simp add: runs_bind) (rule runs_compare_keys, simp_all)
qed simp

lemma runs_compare_windows:
  "store_fine r s \<Longrightarrow> (\<And>ds' s'. store_fine r s' \<Longrightarrow> Q (ds', s')) \<Longrightarrow>
     runs Q (compare_windows r m iter off ws ds s)"
proof (induction ws arbitrary: ds s)
  case (Cons w ws)
  then show ?case by (simp add: runs_bind compareWindow_def) (rule runs_compare_shards, simp_all)
qed simp

lemma runs_Check:
  assumes "store_fine r s" and "0 < ck_step c" and "\<And>res s'. store_fine r s' \<Longrightarrow> Q (res, s')"
  shows "runs Q (Check r m c iter begin until off s)"
proof (cases "begin < until")
  case True
  have "\<exists>ws. check_windows m c begin until = Some ws"
    by (simp add: check_windows_def Let_def Partition_positive [OF assms(2)])
  with True show ?thesis
    by (auto simp: Check_def runs_bind assms(3) intro!: runs_compare_windows [OF assms(1)])
qed (use assms in \<open>simp add: Check_def\<close>)

lemma runs_import_rows:
  "store_fine r s \<Longrightarrow> (\<And>row. row \<in> set rows \<Longrightarrow> fields_typed (row_Fields row)) \<Longrightarrow> (\<And>b' s'. store_fine r s' \<Longrightarrow> Q (b', s')) \<Longrightarrow>
     runs Q (import_rows r ow v b rows seg batch s)"
proof (induction rows arbitrary: seg batch s)
  case (Cons row rows)
  then show ?case
    by (simp add: runs_bind writeRow_def Let_def)
      (rule runs_EntryFor, simp, rule runs_MergeWrite, simp_all add: fields_typed_patch)
qed simp

lemma runs_import_loop:
  assumes "0 < w" and typed: "\<And>row. row \<in> set rows \<Longrightarrow> fields_typed (row_Fields row)"
    and Q: "\<And>b' s'. store_fine r s' \<Longrightarrow> Q (b', s')"
  shows "store_fine r s \<Longrightarrow> runs Q (import_loop r w rows ow v b start batch s)"
proof (induction "length rows - start" arbitrary: start batch s rule: less_induct)
  case less
  show ?case
  proof (cases "start < length rows")
    case True
    with assms(1) have "length rows - (start + w) < length rows - start" by simp
    note IH = less.hyps [OF this]
    show ?thesis
      by (subst import_loop.simps)
        (auto simp: True runs_bind Let_def IH intro!: runs_import_rows [OF less.prems] typed
          dest: in_set_takeD in_set_dropD)
  qed (use less.prems Q in \<open>simp add: import_loop.simps\<close>)
qed

lemma runs_Import:
  assumes "store_fine r s" and "0 < im_windowSize im"
    and "\<And>row. row \<in> set rows \<Longrightarrow> fields_typed (row_Fields row)"
    and "b \<noteq> '''' \<Longrightarrow> rows \<noteq> [] \<Longrightarrow> Registry_Get reg tid \<noteq> None"
    and "\<And>res im' s'. store_fine r s' \<Longrightarrow> im_windowSize im' = im_windowSize im \<Longrightarrow> Q (res, im', s')"
  shows "runs Q (Import r reg b tid rows v now im s)"
proof (cases "b = '''' \<or> rows = []")
  case True
  then show ?thesis using assms(1,5) by (auto simp: Import_def)
next
  case False
  then obtain t where "Registry_Get reg tid = Some t" using assms(4) by auto
  with False show ?thesis
    by (simp add: Import_def MustGet_def runs_bind Let_def)
      (rule runs_import_loop [OF assms(2,3) _ assms(1)], simp_all add: assms(5))
qed

lemma runs_writeResult:
  "store_fine r s \<Longrightarrow> fields_typed (res_Fields row) \<Longrightarrow>
     (\<And>ok fs s'. store_fine r s' \<Longrightarrow> fields_typed fs \<Longrightarrow> Q (ok, fs, s')) \<Longrightarrow> runs Q (writeResult r row v s)"
  by (simp add: writeResult_def runs_bind Let_def)
    (rule runs_EntryFor, simp, rule runs_CompareAndWrite, simp_all add: fields_typed_add)

lemma runs_run_loop:
  "store_fine r s \<Longrightarrow> (\<And>row. row \<in> set rows \<Longrightarrow> fields_typed (res_Fields row)) \<Longrightarrow> (\<And>n' t' rows' s'. store_fine r s' \<Longrightarrow> Q (n', t', rows', s')) \<Longrightarrow>
     runs Q (run_loop r v keys n task rows s)"
proof (induction keys arbitrary: n task rows s)
  case (Cons key keys)
  note IH = Cons.IH [OF _ _ Cons.prems(3)]
  show ?case
    by (auto simp: runs_bind Cons.prems(1,2) intro!: runs_writeResult fields_typed_resultFor IH
        intro: fields_typed_set_result [OF Cons.prems(2)])
qed simp

lemma runs_retry_loop:
  "store_fine r s \<Longrightarrow> (\<And>row. row \<in> set rows \<Longrightarrow> fields_typed (res_Fields row)) \<Longrightarrow> (\<And>n' rows' s'. store_fine r s' \<Longrightarrow> Q (n', rows', s')) \<Longrightarrow>
     runs Q (retry_loop r t sig v keys n rows s)"
proof (induction keys arbitrary: n rows s)
  case (Cons key keys)
  note IH = Cons.IH [OF _ _ Cons.prems(3)]
  show ?case
    by (auto simp: runs_bind Let_def Cons.prems(1,2) intro!: runs_writeResult fields_typed_resultFor IH
        intro: fields_typed_set_result [OF Cons.prems(2)])
qed simp

lemma runs_Run:
  assumes "store_fine r s" and "\<And>row. row \<in> set rows \<Longrightarrow> fields_typed (res_Fields row)"
    and "\<And>res rows' b' s'. store_fine r s' \<Longrightarrow> Q (res, rows', b', s')"
  shows "runs Q (Run r t v rows t1 t2 b s)"
  using assms by (auto simp: Run_def runs_bind Let_def intro!: runs_run_loop)

section \<open>The handlers\<close>

definition world_runs :: "World \<Rightarrow> bool" where
  "world_runs w \<longleftrightarrow>
     registry_wf (w_tables w) \<and> manager_wf (w_versions w) \<and> store_fine (w_router w) (w_store w) \<and>
     0 < im_windowSize (w_importer w) \<and> 0 < ck_step (w_checker w)"

lemma world_ok_runs:
  assumes "world_ok w" and "\<And>k. entries (w_router w) (w_store w) k = None"
  shows "world_runs w"
  using world_okD [OF assms(1)] store_fine_empty [OF _ assms(2)] by (simp add: world_runs_def)

text \<open>Whatever a body decodes to is well typed.\<close>

lemma decode_value_typed: "decode_value outside j = Some v \<Longrightarrow> well_typed v"
  by (auto simp: decode_value_def split: option.splits)

lemma decode_names_typed:
  "decode_names outside raw names fs = Inr fs' \<Longrightarrow> fields_typed fs \<Longrightarrow> fields_typed fs'"
proof (induction names arbitrary: fs)
  case (Cons name names)
  then obtain j v where "fmlookup raw name = Some j" "decode_value outside j = Some v"
    "decode_names outside raw names (fmupd name v fs) = Inr fs'"
    by (auto split: option.splits simp: bind_eq_Some_conv)
  moreover from this(2) have "fields_typed (fmupd name v fs)"
    using Cons.prems(2) decode_value_typed by (simp add: fields_typed_def)
  ultimately show ?case using Cons.IH by blast
qed simp

lemma decodeFields_typed: "decodeFields outside iter raw = Inr fs \<Longrightarrow> fields_typed fs"
  unfolding decodeFields_def by (erule decode_names_typed) simp

lemma decode_rows_typed: "decode_rows rt rows = Inr decoded \<Longrightarrow> kf \<in> set decoded \<Longrightarrow> fields_typed (snd kf)"
proof (induction rows arbitrary: decoded)
  case (Cons a rows)
  then obtain fs rest where "decodeFields (rt_outside rt) (rt_names rt) (ir_Fields a) = Inr fs"
    "decode_rows rt rows = Inr rest" "decoded = (EntityKey (ir_Key a), fs) # rest"
    by (auto split: sum.splits)
  with Cons.IH Cons.prems(2) decodeFields_typed show ?case by auto
qed simp

lemma decoded_rows_typed:
  "decode_rows rt rows = Inr decoded \<Longrightarrow> row \<in> set (map import_row decoded) \<Longrightarrow> fields_typed (row_Fields row)"
  "decode_rows rt rows = Inr decoded \<Longrightarrow> res \<in> set (map result_row decoded) \<Longrightarrow> fields_typed (res_Fields res)"
  by (auto simp: import_row_def result_row_def dest: decode_rows_typed)

text \<open>What a request leaves in place.\<close>

definition answered :: "World \<Rightarrow> Response \<times> World \<Rightarrow> bool" where
  "answered w out \<longleftrightarrow> world_runs (snd out) \<and> w_tables (snd out) = w_tables w"

lemma answered_store:
  "world_runs w \<Longrightarrow> store_fine (w_router w) s \<Longrightarrow> answered w (resp, w\<lparr>w_store := s\<rparr>)"
  "world_runs w \<Longrightarrow> store_fine (w_router w) s \<Longrightarrow> answered w (resp, w\<lparr>w_store := s, w_now := c\<rparr>)"
  "world_runs w \<Longrightarrow> store_fine (w_router w) s \<Longrightarrow> answered w (resp, w\<lparr>w_now := c, w_store := s\<rparr>)"
  "world_runs w \<Longrightarrow> store_fine (w_router w) s \<Longrightarrow> im_windowSize im = im_windowSize (w_importer w) \<Longrightarrow>
     answered w (resp, w\<lparr>w_importer := im, w_store := s\<rparr>)"
  "world_runs w \<Longrightarrow> store_fine (w_router w) s \<Longrightarrow> im_windowSize im = im_windowSize (w_importer w) \<Longrightarrow>
     answered w (resp, w\<lparr>w_importer := im, w_store := s, w_now := c\<rparr>)"
  "world_runs w \<Longrightarrow> store_fine (w_router w) s \<Longrightarrow> answered w (resp, w\<lparr>w_backfill := b, w_store := s\<rparr>)"
  "world_runs w \<Longrightarrow> store_fine (w_router w) s \<Longrightarrow>
     answered w (resp, w\<lparr>w_backfill := b, w_store := s, w_now := c\<rparr>)"
  "world_runs w \<Longrightarrow> manager_wf m \<Longrightarrow> store_fine (w_router w) s \<Longrightarrow>
     answered w (resp, w\<lparr>w_versions := m, w_store := s\<rparr>)"
  "world_runs w \<Longrightarrow> answered w (resp, w)"
  by (simp_all add: answered_def world_runs_def)

lemma world_runsD:
  assumes "world_runs w"
  shows "registry_wf (w_tables w)" "manager_wf (w_versions w)" "store_fine (w_router w) (w_store w)"
    "0 < im_windowSize (w_importer w)" "0 < ck_step (w_checker w)"
  using assms by (simp_all add: world_runs_def)

lemma store_fine_expand:
  assumes "store_fine r s" and "Expand lim n r = Some (Inr x, r')"
  shows "store_fine r' (grown_store n s)"
proof -
  have "shardCount r < n" "shardCount r' = n" "router_wf r'"
    using Expand_Inr [OF assms(2)] router_wf_Expand [OF _ assms(2)] assms(1) by (auto simp: store_fine_def)
  moreover have "int (length (s_shards s)) = shardCount r"
    using assms(1) by (simp add: store_fine_def shard_total_def router_wf_def)
  ultimately show ?thesis
    using assms(1) by (auto simp: store_fine_def shard_total_def grown_store_def list_all_iff)
qed

lemma handleExpand_runs:
  assumes w: "world_runs w" and "\<And>n. body = Inr n \<Longrightarrow> \<not> expand_panics rt w n"
  shows "runs (answered w) (handleExpand rt body w)"
proof (cases body)
  case (Inl err)
  then show ?thesis using answered_store(9) [OF w] by (simp add: handleExpand_def)
next
  case (Inr n)
  then obtain res r where x: "Expand (rt_slice rt) n (w_router w) = Some (res, r)"
    using assms(2) Expand_panics [of "rt_slice rt" n "w_router w"] by (fastforce simp: expand_panics_def)
  show ?thesis
  proof (cases res)
    case (Inl err)
    then have "r = w_router w" using x Expand_Inl by blast
    then show ?thesis using x Inr Inl answered_store(9) [OF w] by (simp add: handleExpand_def)
  next
    case e: (Inr e)
    then have x: "Expand (rt_slice rt) n (w_router w) = Some (Inr e, r)" using x by simp
    note fine = store_fine_expand [OF world_runsD(3) [OF w] x]
    have "Store_ExpandShards (rt_slice rt) n (w_store w) = Some (grown_store n (w_store w))"
      using Expand_Inr [OF x] by (simp add: Store_ExpandShards_eq)
    then show ?thesis
      using x Inr fine w by (simp add: handleExpand_def Let_def answered_def world_runs_def)
  qed
qed

lemma handle_runs:
  assumes w: "world_runs w" and panics: "\<not> request_panics rt req w"
  shows "runs (answered w) (handle rt req w)"
proof -
  note ok = world_runsD [OF w] and stays = answered_store [OF w]
  show ?thesis
  proof (cases req)
    case ReqHealth
    then show ?thesis
      using Registry_List_ids [OF ok(1)] by (auto simp: handle_def handleHealth_def runs_bind stays)
  next
    case (ReqRead key)
    then show ?thesis
      by (auto simp: handle_def handleRead_def Read_eq runs_bind stays split: sum.splits
          intro!: runs_ReadVersion ok)
  next
    case (ReqWrite body)
    then show ?thesis
      by (auto simp: handle_def handleWrite_def runs_bind stays split: sum.splits intro!: runs_Write ok
          intro: decodeFields_typed)
  next
    case (ReqPublish body)
    then show ?thesis
      using Publish_wf [OF ok(2)] ok(3)
      by (auto simp: handle_def handlePublish_def Publish_store_def stays split: sum.splits prod.splits)
  next
    case (ReqRollback body)
    then show ?thesis
      using Rollback_wf [OF ok(2)] ok(3)
      by (auto simp: handle_def handleRollback_def Rollback_store_def stays split: sum.splits prod.splits)
  next
    case (ReqExpand body)
    then show ?thesis
      using panics by (auto simp: handle_def request_panics_def intro!: handleExpand_runs [OF w])
  next
    case (ReqSyncCheck start stop)
    then show ?thesis
      by (auto simp: handle_def handleSyncCheck_def world_tick_eq Let_def runs_bind stays
          intro!: runs_Check ok)
  next
    case ReqTTLScan
    then show ?thesis
      by (auto simp: handle_def handleTTLScan_def world_tick_eq Let_def runs_bind stays Scan_def
          intro!: runs_scan_shards ok)
  next
    case ReqVersions
    then show ?thesis
      using Manager_List_returns [OF ok(2)] by (auto simp: handle_def handleVersions_def runs_bind stays)
  next
    case (ReqImport body)
    show ?thesis
    proof (cases "\<exists>ireq rows. body = Inr ireq \<and> decode_rows rt (ireq_Rows ireq) = Inr rows")
      case True
      then obtain ireq rows where body: "body = Inr ireq" and rows: "decode_rows rt (ireq_Rows ireq) = Inr rows"
        by blast
      have "ireq_BatchID ireq \<noteq> '''' \<Longrightarrow> map import_row rows \<noteq> [] \<Longrightarrow>
          Registry_Get (w_tables w) (ireq_TableID ireq) \<noteq> None"
        using panics ReqImport body rows decode_rows_length [OF rows]
        by (auto simp: request_panics_def import_panics_def)
      with ReqImport body rows show ?thesis
        by (auto simp: handle_def handleImport_def tick_def Let_def runs_bind stays split: sum.split
            intro!: runs_Import ok decoded_rows_typed(1) [OF rows])
    qed (use ReqImport in \<open>auto simp: handle_def handleImport_def stays split: sum.splits\<close>)
  next
    case (ReqBackfill body)
    show ?thesis
    proof (cases "\<exists>breq rows. body = Inr breq \<and> decode_rows rt (breq_Rows breq) = Inr rows")
      case True
      then obtain breq rows where body: "body = Inr breq" and rows: "decode_rows rt (breq_Rows breq) = Inr rows"
        by blast
      with ReqBackfill show ?thesis
        by (auto simp: handle_def handleBackfill_def Retry_def tick_def Let_def runs_bind stays
            split: sum.split option.split
            intro!: runs_retry_loop runs_Run ok decoded_rows_typed(2) [OF rows])
    qed (use ReqBackfill in \<open>auto simp: handle_def handleBackfill_def stays split: sum.splits option.splits\<close>)
  qed
qed

section \<open>The runs of the service\<close>

inductive answers :: "World \<Rightarrow> World \<Rightarrow> bool" where
  answer: "handle rt req w = Some (resp, w') \<Longrightarrow> answers w w'"

definition in_service :: "int \<Rightarrow> duration \<Rightarrow> World \<Rightarrow> bool" where
  "in_service shards ttl w \<longleftrightarrow>
     (\<exists>lim c1 c2 c3 w0. main_init lim shards ttl c1 c2 c3 = Some (Inr w0) \<and> answers\<^sup>*\<^sup>* w0 w)"

lemma answers_runs:
  assumes "answers w w'" and "world_runs w"
  shows "world_runs w' \<and> w_tables w' = w_tables w"
  using assms(1)
proof cases
  case (answer rt req resp)
  have "\<not> request_panics rt req w"
    using answer
    by (auto simp: request_panics_def handle_def handleImport_panics handleExpand_panics
        split: Request.splits sum.splits)
  from handle_runs [OF assms(2) this] answer show ?thesis by (simp add: answered_def)
qed

lemma in_service_runs:
  assumes "in_service shards ttl w"
  shows "world_runs w \<and> w_tables w = seeded"
proof -
  from assms obtain lim c1 c2 c3 w0 where w0: "main_init lim shards ttl c1 c2 c3 = Some (Inr w0)" "answers\<^sup>*\<^sup>* w0 w"
    unfolding in_service_def by blast
  have "world_runs w0 \<and> w_tables w0 = seeded"
  proof (cases rule: main_init_cases [of shards lim ttl c1 c2 c3])
    case up
    show ?thesis
    proof (rule main_init_starts [OF up, of ttl c1 c2 c3])
      fix w
      assume "main_init lim shards ttl c1 c2 c3 = Some (Inr w)" "world_ok w" "w_tables w = seeded"
        "\<And>k. entries (w_router w) (w_store w) k = None"
      with w0(1) show ?thesis using world_ok_runs by auto
    qed
  qed (use w0 in simp_all)
  with w0(2) show ?thesis
    by (induction rule: rtranclp_induct) (auto dest: answers_runs)
qed

text \<open>C19: In every world the service reaches from its start, by any requests, expansions among them, every
  request is answered, with one of the statuses of the interface, and leads to a world reached
  again, but for two panics: an import of rows, under a batch identifier, into a table that is none
  of the two registered ones, and an expansion to more shards than the longest slice that can be
  made has elements. The handler is left before it has changed anything in both cases, and
  \<open>net/http\<close> recovers the panic, so that the server goes on from the world it was in.\<close>

theorem every_request_answered:
  assumes "in_service shards ttl w"
  shows "case handle rt req w of
           None \<Rightarrow>
             (\<exists>ireq. req = ReqImport (Inr ireq) \<and> ireq_BatchID ireq \<noteq> '''' \<and> ireq_Rows ireq \<noteq> [] \<and>
                ireq_TableID ireq \<notin> {''user_profile'', ''item_profile''}) \<or>
             (\<exists>n. req = ReqExpand (Inr n) \<and> Router_ShardCount (w_router w) < n \<and> rt_slice rt < n)
         | Some ((status, payload), w') \<Rightarrow>
             in_service shards ttl w' \<and> status \<in> {200, 400, 404, 409, 500} \<and>
             (status = 200 \<longleftrightarrow> (\<forall>err. payload \<noteq> PError err))"
proof (cases "handle rt req w")
  case None
  have "request_panics rt req w"
    using handle_runs [of w rt req] in_service_runs [OF assms] None by (auto simp: runs_def)
  with None show ?thesis
    using in_service_runs [OF assms]
    by (auto simp: request_panics_def import_panics_def expand_panics_def Router_ShardCount_def Get_seeded
        split: Request.splits sum.splits if_splits)
next
  case (Some out)
  obtain status payload w' where out: "out = ((status, payload), w')" by (metis prod.exhaust)
  then have "in_service shards ttl w'"
    using assms answer Some unfolding in_service_def by (metis rtranclp.rtrancl_into_rtrancl)
  with handle_status [of rt req w status payload w'] Some out show ?thesis by auto
qed

lemma every_request_answered_witness:
  "\<exists>w w'. in_service 2 nanos_per_hour w \<and> handle demo_runtime (ReqExpand (Inr 4)) w = Some ((200, PExpand
       \<lparr>exp_Previous = 2, exp_Current = 4, exp_Added = 2\<rparr> [0, 0, 0, 0]), w') \<and>
     handle demo_runtime ReqTTLScan w' \<noteq> None"
proof -
  obtain w where w: "main_init 1024 2 nanos_per_hour int int int = Some (Inr w)" "Router_ShardCount (w_router w) = 2"
    using main_init_starts [of 2 1024 nanos_per_hour int int int] by auto
  then have served: "in_service 2 nanos_per_hour w" unfolding in_service_def by blast
  obtain w' where w': "handle demo_runtime (ReqExpand (Inr 4)) w =
      Some ((200, PExpand \<lparr>exp_Previous = 2, exp_Current = 4, exp_Added = 2\<rparr> [0, 0, 0, 0]), w')"
    using w(2) by (auto simp: handle_def handleExpand_def Expand_eq Store_ExpandShards_eq demo_runtime_def
        full_router_def Router_ShardCount_def ShardState_def Let_def upt_rec numeral_nat)
  then have "in_service 2 nanos_per_hour w'"
    using every_request_answered [OF served, where rt = demo_runtime and req = "ReqExpand (Inr 4)"] by simp
  from every_request_answered [OF this, where rt = demo_runtime and req = ReqTTLScan] served w' show ?thesis
    by (auto split: option.splits)
qed

text \<open>C28: In every world the service reaches, by any requests, every stored value is well typed: exactly what
  the constructor of its type tag makes, no field of another type set. So whatever clients send,
  the printed form of a value and the counter arithmetic meet values of the shape they expect.\<close>

theorem stored_values_well_typed:
  assumes "in_service shards ttl w" and "i < length (s_shards (w_store w))"
    and "fmlookup (s_shards (w_store w) ! i) k = Some e" and "fmlookup (e_Fields e) n = Some v"
  shows "v = StringValue (fv_Str v) \<or> v = IntValue (fv_Int v) \<or> v = FloatValue (fv_Float v) \<or>
         v = BoolValue (fv_Bool v)"
proof -
  have "store_fine (w_router w) (w_store w)" using in_service_runs [OF assms(1)] world_runsD(3) by blast
  then have "well_typed v"
    using assms(2-4) by (auto simp: store_fine_def list_all_length shard_typed_def fields_typed_def)
  then show ?thesis by (auto simp: well_typed_def split: FieldType.splits)
qed

lemma stored_values_well_typed_witness:
  "\<exists>w i e v. in_service 2 nanos_per_hour w \<and> i < length (s_shards (w_store w)) \<and>
     fmlookup (s_shards (w_store w) ! i) demo_user = Some e \<and> fmlookup (e_Fields e) ''city'' = Some v \<and>
     v = StringValue ''oslo'' \<and>
     (v = StringValue (fv_Str v) \<or> v = IntValue (fv_Int v) \<or> v = FloatValue (fv_Float v) \<or> v = BoolValue (fv_Bool v))"
proof -
  obtain w0 where w0: "main_init 1024 2 nanos_per_hour int int int = Some (Inr w0)" "world_ok w0"
    using main_init_starts [of 2 1024 nanos_per_hour int int int] by auto
  obtain fs where fs: "decodeFields (rt_outside demo_runtime) (rt_names demo_runtime) (wr_Fields demo_body) = Inr fs"
    "fmlookup fs ''city'' = Some (StringValue ''oslo'')"
    using decodeFields_demo by (auto simp: demo_body_def)
  have key: "ParseEntity (wr_Key demo_body) = Inr demo_user" "wr_Key demo_body \<noteq> ''''"
    by (simp_all add: demo_body_def demo_user_def) code_simp
  note wf = world_okD(4) [OF w0(2)]
  let ?e = "written demo_user fs (wr_VersionID demo_body) (s_now (w_store w0) 0)"
  let ?s = "set_entry (w_router w0) demo_user (Some ?e)
      ((w_store w0)\<lparr>s_now := \<lambda>n. s_now (w_store w0) (Suc n)\<rparr>)"
  let ?w = "w0\<lparr>w_store := ?s\<rparr>" and ?i = "shard_of (w_router w0) demo_user"
  have "handle demo_runtime (ReqWrite (Inr demo_body)) w0 = Some ((200, PWritten), ?w)"
    using key fs Write_eq [OF wf] by (simp add: handle_def handleWrite_def)
  then have "answers w0 ?w" by (rule answer)
  then have served: "in_service 2 nanos_per_hour ?w" unfolding in_service_def using w0(1) by blast
  have wf': "store_wf (w_router w0) ((w_store w0)\<lparr>s_now := \<lambda>n. s_now (w_store w0) (Suc n)\<rparr>)"
    using wf by (simp add: store_wf_frame)
  then have "entries (w_router w0) ?s demo_user = Some ?e" by (simp add: entries_set_entry)
  then have e: "fmlookup (s_shards (w_store ?w) ! ?i) demo_user = Some ?e" by (simp add: entries_def)
  have "store_wf (w_router w0) ?s" using wf' by (rule store_wf_set_entry) auto
  then have i: "?i < length (s_shards (w_store ?w))"
    using store_wfD(2) [of "w_router w0" ?s] shard_of_less [OF store_wfD(1) [OF wf]] by simp
  have n: "fmlookup (e_Fields ?e) ''city'' = Some (StringValue ''oslo'')" using fs(2) by (simp add: written_def)
  from stored_values_well_typed [OF served i e n] served i e n show ?thesis by blast
qed

end
