(* ===== verification/AbstractStore.thy ===== *)
theory AbstractStore
  imports ReadPath
begin

text \<open>
  What a client of the store may rely on, without shards and without a cache: a map from entity
  keys to entries, the manager's versions, a list of undo records and a clock. \<open>exec\<close> runs a client
  operation on the model of the code, \<open>spec\<close> on the abstract store; the refinement says that any
  sequence of operations whose explicit reads name existing versions answers the same on both. The
  abstract store has neither shards nor a cache, so such a client observes neither.
\<close>

section \<open>Client operations\<close>

datatype StoreOp =
    OpRead EntityKey
  | OpReadVersion EntityKey string
  | OpWrite EntityKey Fields string
  | OpWriteAt EntityKey Fields string time
  | OpMerge EntityKey Fields "string list" string
  | OpCompare EntityKey Fields Version
  | OpDelete EntityKey
  | OpWrittenAt EntityKey
  | OpRecord string nat EntityKey
  | OpUndo string
  | OpCreate string
  | OpPublish string
  | OpRollback string

datatype Answer =
    Done
  | Answered Snapshot
  | Accepted bool
  | At "time option"
  | Ruled "VersionError + Version"

text \<open>The operations on the model of the code.\<close>

definition record_op :: "string \<Rightarrow> nat \<Rightarrow> EntityKey \<Rightarrow> Entry option \<Rightarrow> Store \<Rightarrow> Store" where
  "record_op batch seg key e s =
     s\<lparr>s_journal := Journal_Append \<lparr>op_BatchID = batch, op_Segment = seg, op_Key = key, op_Before = e\<rparr>
                      (s_journal s)\<rparr>"

fun exec :: "Registry \<Rightarrow> Router \<Rightarrow> StoreOp \<Rightarrow> Manager \<times> Store \<Rightarrow> (Answer \<times> Manager \<times> Store) go" where
  "exec reg r (OpRead key) (m, s) =
     map_option (\<lambda>(snap, s). (Answered snap, m, s)) (Read r m key s)"
| "exec reg r (OpReadVersion key v) (m, s) =
     map_option (\<lambda>(snap, s). (Answered snap, m, s)) (ReadVersion r m key v s)"
| "exec reg r (OpWrite key fs v) (m, s) = map_option (\<lambda>s. (Done, m, s)) (Write r key fs v s)"
| "exec reg r (OpWriteAt key fs v at) (m, s) = map_option (\<lambda>s. (Done, m, s)) (WriteAt r key fs v at s)"
| "exec reg r (OpMerge key patch names v) (m, s) =
     map_option (\<lambda>s. (Done, m, s)) (MergeWrite r key patch names v s)"
| "exec reg r (OpCompare key fs w) (m, s) =
     map_option (\<lambda>(ok, s). (Accepted ok, m, s)) (CompareAndWrite r key fs w s)"
| "exec reg r (OpDelete key) (m, s) = map_option (\<lambda>s. (Done, m, s)) (Delete r key s)"
| "exec reg r (OpWrittenAt key) (m, s) = map_option (\<lambda>t. (At t, m, s)) (WrittenAt r key s)"
| "exec reg r (OpRecord batch seg key) (m, s) =
     map_option (\<lambda>e. (Done, m, record_op batch seg key e s)) (EntryFor r key s)"
| "exec reg r (OpUndo batch) (m, s) = map_option (\<lambda>s. (Done, m, s)) (RollbackBatch r batch s)"
| "exec reg r (OpCreate t) (m, s) = (case Create reg t m of (res, m) \<Rightarrow> Some (Ruled res, m, s))"
| "exec reg r (OpPublish v) ms = (case Publish_store v ms of (res, ms) \<Rightarrow> Some (Ruled res, ms))"
| "exec reg r (OpRollback v) ms = (case Rollback_store v ms of (res, ms) \<Rightarrow> Some (Ruled res, ms))"

fun exec_all :: "Registry \<Rightarrow> Router \<Rightarrow> StoreOp list \<Rightarrow> Manager \<times> Store \<Rightarrow> (Answer list \<times> Manager \<times> Store) go" where
  "exec_all reg r [] ms = Some ([], ms)"
| "exec_all reg r (op # ops) ms = do {
     (ans, ms) \<leftarrow> exec reg r op ms;
     (answers, ms) \<leftarrow> exec_all reg r ops ms;
     Some (ans # answers, ms)
   }"

section \<open>The abstract store\<close>

record Spec =
  sp_versions :: Manager
  sp_entries :: "EntityKey \<Rightarrow> Entry option"
  sp_log :: "(string \<times> EntityKey \<times> Entry option) list"
  sp_clock :: clock

definition put :: "EntityKey \<Rightarrow> Fields \<Rightarrow> string \<Rightarrow> time \<Rightarrow> Spec \<Rightarrow> Spec" where
  "put key fs v t sp = sp\<lparr>sp_entries := (sp_entries sp)(key \<mapsto> written key fs v t)\<rparr>"

definition put_now :: "EntityKey \<Rightarrow> Fields \<Rightarrow> string \<Rightarrow> Spec \<Rightarrow> Spec" where
  "put_now key fs v sp = put key fs v (sp_clock sp 0) (sp\<lparr>sp_clock := \<lambda>n. sp_clock sp (Suc n)\<rparr>)"

definition view :: "Spec \<Rightarrow> EntityKey \<Rightarrow> string \<Rightarrow> Snapshot" where
  "view sp key v =
     (case sp_entries sp key of
        None \<Rightarrow> EmptySnapshot key v
      | Some e \<Rightarrow> entrySnapshot (sp_versions sp) e v)"

definition undo :: "string \<Rightarrow> Spec \<Rightarrow> Spec" where
  "undo batch sp =
     sp\<lparr>sp_entries := \<lambda>key. case map_of (map snd (filter (\<lambda>op. fst op = batch) (sp_log sp))) key of
            None \<Rightarrow> sp_entries sp key
          | Some before \<Rightarrow> before,
        sp_log := filter (\<lambda>op. fst op \<noteq> batch) (sp_log sp)\<rparr>"

fun spec :: "Registry \<Rightarrow> StoreOp \<Rightarrow> Spec \<Rightarrow> Answer \<times> Spec" where
  "spec reg (OpRead key) sp = (Answered (view sp key (resolveActiveVersionID (sp_versions sp))), sp)"
| "spec reg (OpReadVersion key v) sp =
     (Answered (view sp key (read_version (sp_versions sp) v)), sp)"
| "spec reg (OpWrite key fs v) sp = (Done, put_now key fs v sp)"
| "spec reg (OpWriteAt key fs v at) sp = (Done, put key fs v at sp)"
| "spec reg (OpMerge key patch names v) sp =
     (Done, put_now key (merge_fields patch names (old_fields (sp_entries sp key))) v sp)"
| "spec reg (OpCompare key fs w) sp =
     (if stale_write (sp_entries sp key) (v_ID w) then (Accepted False, sp)
      else (Accepted True, put_now key fs (v_ID w) sp))"
| "spec reg (OpDelete key) sp = (Done, sp\<lparr>sp_entries := (sp_entries sp)(key := None)\<rparr>)"
| "spec reg (OpWrittenAt key) sp = (At (map_option e_WrittenAt (sp_entries sp key)), sp)"
| "spec reg (OpRecord batch seg key) sp =
     (Done, sp\<lparr>sp_log := sp_log sp @ [(batch, key, sp_entries sp key)]\<rparr>)"
| "spec reg (OpUndo batch) sp = (Done, undo batch sp)"
| "spec reg (OpCreate t) sp =
     (case Create reg t (sp_versions sp) of (res, m) \<Rightarrow> (Ruled res, sp\<lparr>sp_versions := m\<rparr>))"
| "spec reg (OpPublish v) sp =
     (case Publish v (sp_versions sp) of (res, m, calls) \<Rightarrow> (Ruled res, sp\<lparr>sp_versions := m\<rparr>))"
| "spec reg (OpRollback v) sp =
     (case Rollback v (sp_versions sp) of (res, m, calls) \<Rightarrow> (Ruled res, sp\<lparr>sp_versions := m\<rparr>))"

fun spec_all :: "Registry \<Rightarrow> StoreOp list \<Rightarrow> Spec \<Rightarrow> Answer list \<times> Spec" where
  "spec_all reg [] sp = ([], sp)"
| "spec_all reg (op # ops) sp =
     (case spec reg op sp of (ans, sp) \<Rightarrow>
      case spec_all reg ops sp of (answers, sp) \<Rightarrow> (ans # answers, sp))"

text \<open>An explicit read names a version that exists; the other operations are free.\<close>

definition legal_op :: "StoreOp \<Rightarrow> Spec \<Rightarrow> bool" where
  "legal_op op sp \<longleftrightarrow> (\<forall>key v. op = OpReadVersion key v \<longrightarrow> known (sp_versions sp) v)"

fun legal :: "Registry \<Rightarrow> StoreOp list \<Rightarrow> Spec \<Rightarrow> bool" where
  "legal reg [] sp \<longleftrightarrow> True"
| "legal reg (op # ops) sp \<longleftrightarrow> legal_op op sp \<and> legal reg ops (snd (spec reg op sp))"

section \<open>The refinement\<close>

definition log_of :: "Journal \<Rightarrow> (string \<times> EntityKey \<times> Entry option) list" where
  "log_of j = map (\<lambda>op. (op_BatchID op, op_Key op, op_Before op)) (j_ops j)"

definition abs_store :: "Router \<Rightarrow> Manager \<times> Store \<Rightarrow> Spec" where
  "abs_store r ms =
     \<lparr>sp_versions = fst ms, sp_entries = entries r (snd ms), sp_log = log_of (s_journal (snd ms)),
      sp_clock = s_now (snd ms)\<rparr>"

lemma abs_store_simps [simp]:
  "sp_versions (abs_store r (m, s)) = m"
  "sp_entries (abs_store r (m, s)) = entries r s"
  "sp_log (abs_store r (m, s)) = log_of (s_journal s)"
  "sp_clock (abs_store r (m, s)) = s_now s"
  by (simp_all add: abs_store_def)

lemma view_abs: "view (abs_store r (m, s)) key v = fresh r m s key v"
  by (simp add: view_def fresh_def split: option.splits)

lemma put_abs: "store_wf r s \<Longrightarrow> put key fs v t (abs_store r (m, s)) = abs_store r (m, set_entry r key (Some (written key fs v t)) s)"
  by (simp add: put_def abs_store_def entries_set_entry)

lemma put_now_abs:
  assumes "store_wf r s"
  shows "put_now key fs v (abs_store r (m, s)) =
     abs_store r (m, set_entry r key (Some (written key fs v (s_now s 0))) (s\<lparr>s_now := \<lambda>n. s_now s (Suc n)\<rparr>))"
proof -
  have eq: "(abs_store r (m, s))\<lparr>sp_clock := \<lambda>n. s_now s (Suc n)\<rparr> = abs_store r (m, s\<lparr>s_now := \<lambda>n. s_now s (Suc n)\<rparr>)"
    by (simp add: abs_store_def)
  show ?thesis
    unfolding put_now_def abs_store_simps eq using assms by (simp add: put_abs store_wf_frame)
qed

lemma log_of_Append: "log_of (Journal_Append op j) = log_of j @ [(op_BatchID op, op_Key op, op_Before op)]"
  by (simp add: log_of_def Journal_Append_def)

lemma log_of_Clear: "log_of (Journal_Clear batch j) = filter (\<lambda>op. fst op \<noteq> batch) (log_of j)"
  by (simp add: log_of_def ops_Journal_Clear filter_map o_def)

lemma undo_log_of: "undo_log (OpsFor j batch) = map snd (filter (\<lambda>op. fst op = batch) (log_of j))"
  by (simp add: undo_log_def OpsFor_def log_of_def filter_map o_def)

lemma undo_abs:
  assumes "store_wf r s" and "journal_sound s"
  shows "\<exists>s'. RollbackBatch r batch s = Some s' \<and> undo batch (abs_store r (m, s)) = abs_store r (m, s')"
proof -
  let ?log = "undo_log (OpsFor (s_journal s) batch)"
  have frame: "s_journal (restore (set_entry r) ops seen s) = s_journal s \<and>
      s_now (restore (set_entry r) ops seen s) = s_now s" for ops seen
    by (induction "set_entry r" ops seen s rule: restore.induct) simp_all
  have "store_entries.fit_ops ?log" using assms(2) by (intro fit_undo_log OpsFor_fits)
  from store_entries.look_restore [OF assms(1) this, of "{}"] frame show ?thesis
    using RollbackBatch_eq [OF assms]
    by (simp add: undo_def abs_store_def log_of_Clear undo_log_of fun_eq_iff split: option.splits)
qed

lemma map_option_Clone [simp]: "map_option Entry_Clone e = e"
  by (cases e) simp_all

lemma abs_store_frame:
  assumes "entries r s' = entries r s" and "s_journal s' = s_journal s" and "s_now s' = s_now s"
  shows "(abs_store r (m, s))\<lparr>sp_versions := m'\<rparr> = abs_store r (m', s')"
  using assms by (simp add: abs_store_def)

lemma read_simulates:
  assumes "sound r True (m, s)" and "known m v"
  shows "\<exists>s'. ReadVersion r m key v s = Some (view (abs_store r (m, s)) key (read_version m v), s') \<and>
           abs_store r (m, s) = abs_store r (m, s') \<and> store_step reg r True (m, s) (m, s')"
proof -
  note wf = soundD(4) [OF assms(1)]
  have "visible True m (read_version m v)"
    using assms(2) known_active [OF soundD(1) [OF assms(1)]] by (simp add: visible_def read_version_def)
  with assms(1) obtain s' where s': "ReadVersion r m key v s = Some (fresh r m s key (read_version m v), s')"
    "entries r s' = entries r s" using ReadVersion_sound by blast
  have "no_at v" using assms(2) soundD(3) [OF assms(1)] known_no_at by blast
  then have "store_step reg r True (m, s) (m, s')" using assms(2) s'(1) by (rule do_read)
  moreover have frame: "s_journal s' = s_journal s \<and> s_now s' = s_now s"
    by (rule read_cached_state [OF wf s'(1) [unfolded ReadVersion_eq]]) simp_all
  moreover have "abs_store r (m, s) = abs_store r (m, s')"
    using s'(2) frame by (simp add: abs_store_def)
  ultimately show ?thesis using s'(1) unfolding view_abs by blast
qed

lemma exec_simulates:
  assumes reg: "clean_registry reg" and sound: "sound r True (m, s)" and legal: "legal_op op (abs_store r (m, s))"
  shows "\<exists>ans m' s'. exec reg r op (m, s) = Some (ans, m', s') \<and> spec reg op (abs_store r (m, s)) = (ans, abs_store r (m', s')) \<and>
           store_step reg r True (m, s) (m', s')"
proof -
  note wf = soundD(4) [OF sound] and js = soundD(5) [OF sound] and m = soundD(1) [OF sound]
  show ?thesis
  proof (cases op)
    case (OpWrite key fs v)
    then show ?thesis using Write_eq [OF wf, of key fs v]
      by (auto simp: put_now_abs [OF wf] intro: do_write)
  next
    case (OpWriteAt key fs v t)
    then show ?thesis using WriteAt_eq [OF wf, of key fs v t]
      by (auto simp: put_abs [OF wf] intro: do_write_at)
  next
    case (OpMerge key patch names v)
    then show ?thesis using MergeWrite_eq [OF wf, of key patch names v]
      by (auto simp: put_now_abs [OF wf] intro: do_merge)
  next
    case (OpCompare key fs w)
    then show ?thesis using CompareAndWrite_eq [OF wf, of key fs w]
      by (auto simp: put_now_abs [OF wf] intro: do_compare)
  next
    case (OpDelete key)
    then show ?thesis using Delete_eq [OF wf, of key]
      by (auto simp: abs_store_def entries_set_entry [OF wf] intro: do_delete)
  next
    case (OpUndo batch)
    then show ?thesis using undo_abs [OF wf js, of batch m] by (auto intro: do_rollback_batch)
  next
    case (OpCreate t)
    then show ?thesis by (auto simp: abs_store_def intro: do_create split: prod.splits)
  next
    case (OpRecord batch seg key)
    then show ?thesis
      by (auto simp: EntryFor_def store_lookup_wf [OF wf] record_op_def abs_store_def log_of_Append
          intro!: do_journal)
  next
    case (OpPublish v)
    obtain res m' calls where p: "Publish v m = (res, m', calls)" by (metis prod_cases3)
    then have eq: "Publish_store v (m, s) = (res, m', run_hook calls s)" by (simp add: Publish_store_def)
    then have "store_step reg r True (m, s) (m', run_hook calls s)" by (rule do_publish)
    with OpPublish p eq show ?thesis
      using run_hook_frame [of calls s] abs_store_frame [of r "run_hook calls s" s m m'] by auto
  next
    case (OpRollback v)
    obtain res m' calls where p: "Rollback v m = (res, m', calls)" by (metis prod_cases3)
    then have eq: "Rollback_store v (m, s) = (res, m', run_hook calls s)" by (simp add: Rollback_store_def)
    then have "store_step reg r True (m, s) (m', run_hook calls s)" by (rule do_rollback)
    with OpRollback p eq show ?thesis
      using run_hook_frame [of calls s] abs_store_frame [of r "run_hook calls s" s m m'] by auto
  next
    case (OpRead key)
    have "known m ''''" "read_version m '''' = resolveActiveVersionID m"
      by (simp_all add: known_def read_version_def)
    with OpRead show ?thesis
      using read_simulates [OF sound, of "''''" key reg] by (auto simp: Read_eq)
  next
    case (OpReadVersion key v)
    then have "known m v" using legal by (simp add: legal_op_def)
    from read_simulates [OF sound this, of key reg] OpReadVersion show ?thesis by auto
  next
    case (OpWrittenAt key)
    moreover have "store_step reg r True (m, s) (m, SetClock (s_now s) s)" by (rule do_clock)
    ultimately show ?thesis by (auto simp: WrittenAt_def store_lookup_wf [OF wf] SetClock_def)
  qed
qed

text \<open>By induction on the operations.\<close>

lemma exec_all_simulates:
  "clean_registry reg \<Longrightarrow> sound r True ms \<Longrightarrow> legal reg ops (abs_store r ms) \<Longrightarrow>
     \<exists>ms'. exec_all reg r ops ms = Some (fst (spec_all reg ops (abs_store r ms)), ms') \<and>
       snd (spec_all reg ops (abs_store r ms)) = abs_store r ms' \<and> sound r True ms'"
proof (induction ops arbitrary: ms)
  case (Cons op ops)
  obtain m s where ms: "ms = (m, s)" by (cases ms)
  have ok: "sound r True (m, s)" "legal_op op (abs_store r (m, s))"
    "legal reg ops (snd (spec reg op (abs_store r (m, s))))"
    using Cons.prems(2,3) unfolding ms by simp_all
  obtain ans m' s' where step: "exec reg r op (m, s) = Some (ans, m', s')"
    "spec reg op (abs_store r (m, s)) = (ans, abs_store r (m', s'))" "store_step reg r True (m, s) (m', s')"
    using exec_simulates [OF Cons.prems(1) ok(1,2)] by blast
  have "sound r True (m', s')" using store_step_sound [OF Cons.prems(1) step(3) ok(1)] .
  moreover have "legal reg ops (abs_store r (m', s'))" using ok(3) step(2) by simp
  ultimately show ?case
    using Cons.IH [OF Cons.prems(1), of "(m', s')"] step unfolding ms by (auto split: prod.splits)
qed simp

text \<open>The abstract store a service starts with; it does not depend on the router.\<close>

definition spec_init :: "clock \<Rightarrow> clock \<Rightarrow> Spec" where
  "spec_init c1 c2 =
     \<lparr>sp_versions = SetCacheHook \<lparr>hook_has_InvalidateAll = True\<rparr> (NewManager c1),
      sp_entries = \<lambda>key. None, sp_log = [], sp_clock = c2\<rparr>"

lemma abs_store_fresh:
  assumes "router_wf r"
  shows "abs_store r (fresh_state r c1 c2) = spec_init c1 c2"
proof -
  obtain s m where new: "New r c2 (NewManager c1) = (s, m)" by fastforce
  have "entries r s = (\<lambda>key. None)" using entries_New [OF assms new] by (simp add: fun_eq_iff)
  with new show ?thesis
    by (auto simp: fresh_state_def abs_store_def spec_init_def New_def NewJournal_def log_of_def)
qed

section \<open>Properties\<close>

text \<open>C2: The sharded, cached, journaled store refines the abstract one: a store that has just been
  made answers any sequence of reads, writes, merges, guarded writes, deletions, recorded and
  undone batches, and version operations as the plain map does, never panicking on the way, and
  ends in a state whose abstraction is the abstract store's, provided that each explicit read names
  a version that exists at that moment (\<open>legal\<close>) and no table has an at sign in its identifier
  (\<open>clean_registry\<close>). Without these conditions the cache shows through
  (\<open>read_before_create_stays_stale\<close>, \<open>cache_key_collision\<close>); the service itself makes no explicit
  reads.\<close>

theorem store_refines_spec:
  assumes "clean_registry reg" and "router_wf r" and "legal reg ops (spec_init c1 c2)"
  shows "\<exists>answers ms sp. exec_all reg r ops (fresh_state r c1 c2) = Some (answers, ms) \<and>
           spec_all reg ops (spec_init c1 c2) = (answers, sp) \<and> sp = abs_store r ms"
  using exec_all_simulates [OF assms(1) sound_fresh_state [OF assms(2)], of ops c1 c2] assms(2,3)
  by (force simp: abs_store_fresh prod_eq_iff)

definition demo_ops :: "StoreOp list" where
  "demo_ops =
     [OpRead demo_user, OpRecord ''b'' 0 demo_user, OpWrite demo_user demo_fields ''w'', OpRead demo_user,
      OpUndo ''b'', OpRead demo_user]"

definition demo_answers :: "Answer list" where
  "demo_answers =
     [Answered (EmptySnapshot demo_user ''''), Done, Done,
      Answered \<lparr>snap_Entity = demo_user, snap_VersionID = ''w'', snap_Fields = demo_fields, snap_WrittenAt = 0\<rparr>,
      Done, Answered (EmptySnapshot demo_user '''')]"

lemma active_init [simp]: "resolveActiveVersionID (SetCacheHook h (NewManager c)) = ''''"
  by (simp add: SetCacheHook_def NewManager_def resolveActiveVersionID_def ResolveActive_def active_record_def)

lemma legal_demo: "legal seeded demo_ops (spec_init int int)"
  by (simp add: demo_ops_def legal_op_def)

lemma spec_demo: "fst (spec_all seeded demo_ops (spec_init int int)) = demo_answers"
  by (simp add: demo_ops_def demo_answers_def view_def put_now_def put_def undo_def
      spec_init_def written_def entrySnapshot_def Entry_Snapshot_def allowed_fields_def)

lemma store_refines_spec_witness:
  "\<exists>ms. exec_all seeded demo_router demo_ops (fresh_state demo_router int int) = Some (demo_answers, ms)"
  using store_refines_spec [OF clean_seeded router_wf_demo legal_demo] spec_demo by fastforce

end
