(* ===== verification/XXDigest.thy ===== *)
theory XXDigest
  imports XXHash
begin

text \<open>
  The streaming form of the vendored xxHash (\<open>vendor/.../xxhash.go\<close>, \<open>writeBlocks\<close> of
  \<open>xxhash_other.go\<close>): the digest's lanes, its buffer of one block, \<open>Write\<close>, \<open>Sum64\<close> and the
  serialisation of the state. The router uses the one-shot \<open>Sum64\<close> only; the lemmas here tie the two
  forms together.
\<close>

section \<open>The digest\<close>

record Digest =
  d_lanes :: lanes
  d_total :: u64
  d_mem :: "byte list"
  d_n :: nat

definition ResetWithSeed :: "u64 \<Rightarrow> Digest \<Rightarrow> Digest" where
  "ResetWithSeed seed d =
     d\<lparr>d_lanes := \<lparr>lane1 = seed + prime1 + prime2, lane2 = seed + prime2, lane3 = seed,
                   lane4 = seed - prime1\<rparr>,
       d_total := 0, d_n := 0\<rparr>"

definition Digest_Reset :: "Digest \<Rightarrow> Digest" where
  "Digest_Reset d = ResetWithSeed 0 d"

definition zero_Digest :: Digest where
  "zero_Digest =
     \<lparr>d_lanes = \<lparr>lane1 = 0, lane2 = 0, lane3 = 0, lane4 = 0\<rparr>, d_total = 0, d_mem = replicate 32 0, d_n = 0\<rparr>"

definition NewWithSeed :: "u64 \<Rightarrow> Digest" where
  "NewWithSeed seed = ResetWithSeed seed zero_Digest"

definition NewDigest :: Digest where
  "NewDigest = NewWithSeed 0"

text \<open>\<open>copy\<close> into an array from an offset: as many bytes as fit.\<close>

definition copy_at :: "nat \<Rightarrow> byte list \<Rightarrow> byte list \<Rightarrow> byte list" where
  "copy_at i mem b = take i mem @ take (length mem - i) b @ drop (i + length b) mem"

text \<open>\<open>writeBlocks\<close>: the lanes over every whole block, and the number of bytes read.\<close>

definition writeBlocks :: "Digest \<Rightarrow> byte list \<Rightarrow> nat \<times> Digest" where
  "writeBlocks d b =
     (case blocks_loop (d_lanes d) b of (l, rest) \<Rightarrow> (length b - length rest, d\<lparr>d_lanes := l\<rparr>))"

definition fill_block :: "Digest \<Rightarrow> byte list \<Rightarrow> Digest \<times> byte list" where
  "fill_block d b =
     (let off = d_n d mod length (d_mem d);
          c = min (length (d_mem d) - off) (length b);
          mem = copy_at off (d_mem d) b
      in (d\<lparr>d_mem := mem, d_lanes := round_block (d_lanes d) mem, d_n := 0\<rparr>, drop c b))"

definition Digest_Write :: "byte list \<Rightarrow> Digest \<Rightarrow> Digest" where
  "Digest_Write b d =
     (let n = length b;
          d = d\<lparr>d_total := d_total d + of_nat n\<rparr>
      in if d_n d + n < 32
         then d\<lparr>d_mem := copy_at (d_n d mod length (d_mem d)) (d_mem d) b, d_n := d_n d + n\<rparr>
         else let (d, b) = (if 0 < d_n d then fill_block d b else (d, b));
                  (d, b) = (if 32 \<le> length b
                            then (let (nw, d) = writeBlocks d b in (d, drop nw b)) else (d, b))
              in d\<lparr>d_mem := copy_at 0 (d_mem d) b, d_n := length b\<rparr>)"

definition Digest_Sum64 :: "Digest \<Rightarrow> u64" where
  "Digest_Sum64 d =
     (let h = (if 32 \<le> d_total d then merge_lanes (d_lanes d) else lane3 (d_lanes d) + prime5)
      in avalanche (tail_hash (h + d_total d) (take (d_n d mod length (d_mem d)) (d_mem d))))"

definition Digest_Sum :: "byte list \<Rightarrow> Digest \<Rightarrow> byte list" where
  "Digest_Sum b d = b @ map (\<lambda>i. ucast (drop_bit (56 - 8 * i) (Digest_Sum64 d))) [0 ..< 8]"

text \<open>\<open>WriteString\<close> writes the bytes of the string.\<close>

definition WriteString :: "string \<Rightarrow> Digest \<Rightarrow> Digest" where
  "WriteString s d = Digest_Write (bytes_of_string s) d"

section \<open>Serialisation\<close>

datatype MarshalError = InvalidIdentifier | InvalidSize

definition magic :: "byte list" where
  "magic = [120, 120, 104, 6]"

definition appendUint64 :: "byte list \<Rightarrow> u64 \<Rightarrow> byte list" where
  "appendUint64 b x = b @ map (\<lambda>i. ucast (drop_bit (8 * i) x)) [0 ..< 8]"

definition consumeUint64 :: "byte list \<Rightarrow> byte list \<times> u64" where
  "consumeUint64 b = (drop 8 b, le_u64 b)"

text \<open>The slice is made with room for the whole state, so what follows the buffered bytes is zero.\<close>

definition MarshalBinary :: "Digest \<Rightarrow> byte list" where
  "MarshalBinary d =
     (let b = magic;
          b = appendUint64 b (lane1 (d_lanes d));
          b = appendUint64 b (lane2 (d_lanes d));
          b = appendUint64 b (lane3 (d_lanes d));
          b = appendUint64 b (lane4 (d_lanes d));
          b = appendUint64 b (d_total d);
          b = b @ take (d_n d) (d_mem d)
      in b @ replicate (length (d_mem d) - d_n d) 0)"

definition UnmarshalBinary :: "byte list \<Rightarrow> Digest \<Rightarrow> MarshalError + Digest" where
  "UnmarshalBinary b d =
     (if length b < length magic \<or> take (length magic) b \<noteq> magic then Inl InvalidIdentifier
      else if length b \<noteq> length magic + 8 * 5 + 32 then Inl InvalidSize
      else let b = drop (length magic) b;
               (b, v1) = consumeUint64 b;
               (b, v2) = consumeUint64 b;
               (b, v3) = consumeUint64 b;
               (b, v4) = consumeUint64 b;
               (b, t) = consumeUint64 b;
               mem = copy_at 0 (d_mem d) b
           in Inr \<lparr>d_lanes = \<lparr>lane1 = v1, lane2 = v2, lane3 = v3, lane4 = v4\<rparr>, d_total = t, d_mem = mem,
                   d_n = unat (t mod of_nat (length mem))\<rparr>)"

section \<open>Blocks\<close>

lemma le_word_append: "le_word (xs @ ys) = le_word xs OR push_bit (8 * length xs) (le_word ys)"
  by (induction xs) (simp_all add: push_bit_or ac_simps)

lemma round_block_take: "round_block l (take 32 b) = round_block l b"
  by (simp add: round_block_def le_u64_def drop_take min_def)

lemma round_block_append: "32 \<le> length b \<Longrightarrow> round_block l (b @ c) = round_block l b"
  using round_block_take [of l "b @ c"] round_block_take [of l b] by simp

lemma blocks_loop_rest: "length (snd (blocks_loop l b)) = length b mod 32"
proof (induction l b rule: blocks_loop.induct)
  case (1 l b)
  then show ?case by (subst blocks_loop.simps) (auto simp: le_mod_geq)
qed

lemma blocks_loop_short: "length b < 32 \<Longrightarrow> blocks_loop l b = (l, b)"
  by (simp add: blocks_loop.simps)

lemma blocks_loop_append:
  "blocks_loop l (b @ c) = (case blocks_loop l b of (l', rest) \<Rightarrow> blocks_loop l' (rest @ c))"
proof (induction l b rule: blocks_loop.induct)
  case (1 l b)
  show ?case
  proof (cases "32 \<le> length b")
    case True
    then have "blocks_loop l (b @ c) = blocks_loop (round_block l b) (drop 32 b @ c)"
      by (subst blocks_loop.simps) (simp add: round_block_append)
    moreover have "blocks_loop l b = blocks_loop (round_block l b) (drop 32 b)"
      using True by (subst blocks_loop.simps) simp
    ultimately show ?thesis using 1 [OF True] by simp
  qed (simp add: blocks_loop_short)
qed

lemma blocks_loop_drop: "blocks_loop l b = (l', rest) \<Longrightarrow> rest = drop (length b - length rest) b \<and> length rest \<le> length b"
proof (induction l b rule: blocks_loop.induct)
  case (1 l b)
  show ?case
  proof (cases "32 \<le> length b")
    case True
    then have "blocks_loop (round_block l b) (drop 32 b) = (l', rest)"
      using 1(2) by (simp add: blocks_loop.simps [of l b])
    from 1(1) [OF True this] True show ?thesis by (auto simp: add.commute)
  qed (use 1(2) in \<open>simp add: blocks_loop_short\<close>)
qed

section \<open>What a digest stands for\<close>

text \<open>\<open>digests l xs d\<close>: started with the lanes \<open>l\<close>, \<open>d\<close> has been fed the bytes \<open>xs\<close>.\<close>

definition digests :: "lanes \<Rightarrow> byte list \<Rightarrow> Digest \<Rightarrow> bool" where
  "digests l xs d \<longleftrightarrow>
     length (d_mem d) = 32 \<and> d_total d = of_nat (length xs) \<and> d_n d < 32 \<and>
     blocks_loop l xs = (d_lanes d, take (d_n d) (d_mem d))"

definition seeded_lanes :: "u64 \<Rightarrow> lanes" where
  "seeded_lanes seed = d_lanes (NewWithSeed seed)"

lemma digests_reset: "length (d_mem d) = 32 \<Longrightarrow> digests (seeded_lanes seed) [] (ResetWithSeed seed d)"
  by (simp add: digests_def seeded_lanes_def NewWithSeed_def ResetWithSeed_def blocks_loop_short)

lemma digests_new: "digests (seeded_lanes seed) [] (NewWithSeed seed)"
  using digests_reset [of zero_Digest] by (simp add: NewWithSeed_def zero_Digest_def)

lemma length_copy_at: "i \<le> length mem \<Longrightarrow> length (copy_at i mem b) = length mem"
  by (simp add: copy_at_def)

lemma take_copy_at:
  "i + length b \<le> length mem \<Longrightarrow> take (i + length b) (copy_at i mem b) = take i mem @ b"
  by (simp add: copy_at_def)

lemma copy_at_full:
  "i \<le> length mem \<Longrightarrow> length mem \<le> i + length b \<Longrightarrow> copy_at i mem b = take i mem @ take (length mem - i) b"
  by (simp add: copy_at_def)

lemma digests_write:
  assumes "digests l xs d"
  shows "digests l (xs @ b) (Digest_Write b d)"
proof -
  note d = assms [unfolded digests_def]
  let ?rest = "take (d_n d) (d_mem d)"
  have rest: "length ?rest = d_n d" "d_n d mod 32 = d_n d" using d by simp_all
  have app: "blocks_loop l (xs @ b) = blocks_loop (d_lanes d) (?rest @ b)"
    using d by (subst blocks_loop_append) simp
  show ?thesis
  proof (cases "d_n d + length b < 32")
    case True
    then show ?thesis
      using d app rest
      by (simp add: Digest_Write_def Let_def digests_def length_copy_at take_copy_at blocks_loop_short)
  next
    case False
    text \<open>After the buffered block, if any, is finished.\<close>
    obtain d' b' where fill: "(if 0 < d_n d then fill_block (d\<lparr>d_total := d_total d + of_nat (length b)\<rparr>) b
          else (d\<lparr>d_total := d_total d + of_nat (length b)\<rparr>, b)) = (d', b')" by fastforce
    have d': "length (d_mem d') = 32" "d_total d' = d_total d + of_nat (length b)"
      "blocks_loop (d_lanes d) (?rest @ b) = blocks_loop (d_lanes d') b'"
    proof -
      have "length (d_mem d') = 32 \<and> d_total d' = d_total d + of_nat (length b) \<and>
          blocks_loop (d_lanes d) (?rest @ b) = blocks_loop (d_lanes d') b'"
      proof (cases "0 < d_n d")
        case True
        have mem: "copy_at (d_n d) (d_mem d) b = take 32 (?rest @ b)"
          using d False by (simp add: copy_at_full)
        have block: "round_block (d_lanes d) (?rest @ take (32 - d_n d) b) = round_block (d_lanes d) (?rest @ b)"
          using round_block_take [of "d_lanes d" "?rest @ b"] d by simp
        have "b' = drop 32 (?rest @ b)" "d_lanes d' = round_block (d_lanes d) (?rest @ b)"
          "d_mem d' = take 32 (?rest @ b)" "d_total d' = d_total d + of_nat (length b)"
          using fill True d rest False mem block by (auto simp: fill_block_def Let_def min_def)
        then show ?thesis using d False by (subst blocks_loop.simps) simp
      qed (use fill d in auto)
      then show "length (d_mem d') = 32" "d_total d' = d_total d + of_nat (length b)"
        "blocks_loop (d_lanes d) (?rest @ b) = blocks_loop (d_lanes d') b'" by simp_all
    qed
    obtain l' rest' where loop: "blocks_loop (d_lanes d') b' = (l', rest')" by fastforce
    have rest': "rest' = drop (length b' - length rest') b'" "length rest' < 32"
      using blocks_loop_drop [OF loop] blocks_loop_rest [of "d_lanes d'" b'] loop by simp_all
    have "Digest_Write b d = d'\<lparr>d_lanes := l', d_mem := copy_at 0 (d_mem d') rest', d_n := length rest'\<rparr>"
    proof (cases "32 \<le> length b'")
      case True
      then show ?thesis
        using False fill loop rest'(1)
        by (simp add: Digest_Write_def Let_def writeBlocks_def)
    next
      case short: False
      then have "l' = d_lanes d'" "rest' = b'" using loop by (simp_all add: blocks_loop_short)
      then show ?thesis using False fill short by (simp add: Digest_Write_def Let_def)
    qed
    then show ?thesis
      using d d' app loop rest'(2) take_copy_at [of 0 rest' "d_mem d'"]
      by (simp add: digests_def length_copy_at)
  qed
qed

lemma digests_writes: "digests l xs d \<Longrightarrow> digests l (xs @ concat bs) (fold Digest_Write bs d)"
proof (induction bs arbitrary: xs d)
  case (Cons b bs)
  from Cons.IH [OF digests_write [OF Cons.prems, of b]] show ?case by simp
qed simp

text \<open>The hash of the streamed bytes, for any starting lanes.\<close>

lemma Digest_Sum64_digests:
  assumes "digests (seeded_lanes 0) xs d" and "length xs < 2 ^ 64"
  shows "Digest_Sum64 d = Sum64 xs"
proof -
  note d = assms(1) [unfolded digests_def]
  have init: "seeded_lanes 0 = initial_lanes"
    by (simp add: seeded_lanes_def NewWithSeed_def ResetWithSeed_def initial_lanes_def)
  have big: "32 \<le> d_total d \<longleftrightarrow> 32 \<le> length xs"
    using d assms(2) by (simp add: word_le_nat_alt unat_of_nat)
  show ?thesis
  proof (cases "32 \<le> length xs")
    case True
    then show ?thesis using d big init by (simp add: Digest_Sum64_def Sum64_def Let_def)
  next
    case False
    then have "d_lanes d = initial_lanes" "take (d_n d) (d_mem d) = xs"
      using d init by (simp_all add: blocks_loop_short)
    then show ?thesis using d big False by (simp add: Digest_Sum64_def Sum64_def Let_def initial_lanes_def)
  qed
qed

section \<open>Round trip of the state\<close>

definition put_u64 :: "u64 \<Rightarrow> byte list" where
  "put_u64 x = map (\<lambda>i. ucast (drop_bit (8 * i) x)) [0 ..< 8]"

lemma length_put_u64 [simp]: "length (put_u64 x) = 8"
  by (simp add: put_u64_def)

lemma bit_le_word: "bit (le_word bs) n \<longleftrightarrow> n < 64 \<and> n div 8 < length bs \<and> bit (bs ! (n div 8)) (n mod 8)"
proof (induction bs arbitrary: n)
  case (Cons x bs)
  show ?case
  proof (cases "n < 8")
    case True
    then show ?thesis by (simp add: bit_or_iff bit_push_bit_iff bit_ucast_iff)
  next
    case False
    then have "n div 8 = Suc ((n - 8) div 8)" "n mod 8 = (n - 8) mod 8"
      by (simp_all add: le_div_geq le_mod_geq)
    moreover have "\<not> bit x n" using False bit_imp_le_length [of x n] by auto
    ultimately show ?thesis
      using False Cons.IH [of "n - 8"] by (auto simp: bit_or_iff bit_push_bit_iff bit_ucast_iff)
  qed
qed simp

lemma le_u64_put: "le_u64 (put_u64 x @ b) = x"
proof -
  have "le_u64 (put_u64 x @ b) = le_word (put_u64 x)" by (simp add: le_u64_def)
  also have "\<dots> = x"
  proof (rule bit_word_eqI)
    fix n
    assume n: "n < LENGTH(64)"
    then have n8: "n div 8 < 8" by simp
    then have "put_u64 x ! (n div 8) = ucast (drop_bit (8 * (n div 8)) x)"
      unfolding put_u64_def by (subst nth_map) (simp_all del: upt_Suc)
    with n n8 show "bit (le_word (put_u64 x)) n = bit x n"
      by (simp add: bit_le_word bit_ucast_iff bit_drop_bit_eq)
  qed
  finally show ?thesis .
qed

lemma appendUint64_put: "appendUint64 b x = b @ put_u64 x"
  by (simp add: appendUint64_def put_u64_def)

lemma consume_put: "consumeUint64 (put_u64 x @ b) = (b, x)"
  by (simp add: consumeUint64_def le_u64_put)

lemma MarshalBinary_eq:
  "MarshalBinary d =
     magic @ put_u64 (lane1 (d_lanes d)) @ put_u64 (lane2 (d_lanes d)) @ put_u64 (lane3 (d_lanes d)) @
     put_u64 (lane4 (d_lanes d)) @ put_u64 (d_total d) @ take (d_n d) (d_mem d) @
     replicate (length (d_mem d) - d_n d) 0"
  by (simp add: MarshalBinary_def appendUint64_put Let_def)

lemma unat_mod_32: "unat ((of_nat n :: u64) mod 32) = n mod 32"
proof -
  have "(2 :: nat) ^ 64 = 32 * 2 ^ 59" by simp
  then show ?thesis by (simp add: unat_mod unat_of_nat take_bit_eq_mod mod_mod_cancel)
qed

lemma Unmarshal_Marshal:
  assumes "digests l xs d" and "length (d_mem e) = 32"
  shows "\<exists>d'. UnmarshalBinary (MarshalBinary d) e = Inr d' \<and> digests l xs d'"
proof -
  note d = assms(1) [unfolded digests_def]
  let ?mem = "take (d_n d) (d_mem d) @ replicate (32 - d_n d) 0"
  have n: "d_n d = length xs mod 32" using d blocks_loop_rest [of l xs] by simp
  have mem: "copy_at 0 (d_mem e) ?mem = ?mem" "length ?mem = 32"
    using d assms(2) by (simp_all add: copy_at_def)
  have "UnmarshalBinary (MarshalBinary d) e = Inr \<lparr>d_lanes = d_lanes d, d_total = d_total d, d_mem = ?mem,
      d_n = d_n d\<rparr>"
    using d mem n unat_mod_32 [of "length xs"]
    by (simp add: UnmarshalBinary_def MarshalBinary_eq consume_put magic_def)
  then show ?thesis using d by (simp add: digests_def)
qed

section \<open>Properties\<close>

text \<open>C32: Streaming is the same as hashing at once: a digest fed a message in any pieces, after any earlier use
  and a reset, has the one-shot hash of the whole message, for every message a Go slice can hold.\<close>

theorem streaming_is_Sum64:
  assumes "length (d_mem d) = 32" and "length (concat chunks) < 2 ^ 64"
  shows "Digest_Sum64 (fold Digest_Write chunks (Digest_Reset d)) = Sum64 (concat chunks)"
proof -
  have "digests (seeded_lanes 0) [] (Digest_Reset d)"
    unfolding Digest_Reset_def using assms(1) by (rule digests_reset)
  from digests_writes [OF this, of chunks] assms(2) show ?thesis by (simp add: Digest_Sum64_digests)
qed

text \<open>The published check value of the three letters \<open>abc\<close>.\<close>

lemma Sum64_abc: "Sum64 [97, 98, 99] = 4952883123889572249"
  by code_simp

lemma streaming_is_Sum64_witness:
  "Digest_Sum64 (fold Digest_Write [[97], [], [98, 99]] (Digest_Reset (Digest_Write [7] NewDigest))) =
     4952883123889572249"
proof -
  have "length (d_mem (Digest_Write [7] NewDigest)) = 32"
    using digests_write [OF digests_new, of 0 "[7]"] by (simp add: digests_def NewDigest_def)
  from streaming_is_Sum64 [OF this, of "[[97], [], [98, 99]]"] Sum64_abc show ?thesis by simp
qed

text \<open>C33: A digest survives serialisation: restored from its bytes into any digest and fed on, it ends with
  the hash the original would have had, in the middle of a block too.\<close>

theorem marshal_roundtrip:
  assumes "length (d_mem e) = 32" and "length (concat before @ concat after) < 2 ^ 64"
  shows "\<exists>d'. UnmarshalBinary (MarshalBinary (fold Digest_Write before NewDigest)) e = Inr d' \<and>
           Digest_Sum64 (fold Digest_Write after d') = Sum64 (concat before @ concat after)"
proof -
  have "digests (seeded_lanes 0) (concat before) (fold Digest_Write before NewDigest)"
    using digests_writes [OF digests_new, of 0 before] by (simp add: NewDigest_def)
  from Unmarshal_Marshal [OF this assms(1)] obtain d' where d':
    "UnmarshalBinary (MarshalBinary (fold Digest_Write before NewDigest)) e = Inr d'"
    "digests (seeded_lanes 0) (concat before) d'" by blast
  from d'(1) Digest_Sum64_digests [OF digests_writes [OF d'(2)] assms(2)] show ?thesis by blast
qed

lemma marshal_roundtrip_witness:
  "\<exists>d'. UnmarshalBinary (MarshalBinary (Digest_Write [97] NewDigest)) zero_Digest = Inr d' \<and>
     Digest_Sum64 (Digest_Write [98, 99] d') = 4952883123889572249"
  using marshal_roundtrip [of zero_Digest "[[97]]" "[[98, 99]]"] Sum64_abc by (simp add: zero_Digest_def)

end
