(* ===== verification/RacingReads.thy ===== *)
theory RacingReads
  imports ReadPath
begin

text \<open>
  Reads that overlap with other calls. \<open>Read\<close> of \<open>internal/store/store.go\<close> holds no lock between looking
  the entry up and storing the snapshot in the cache, so other calls can run in between. Here a
  read that misses the cache is two steps, \<open>read_start\<close> up to the snapshot and \<open>read_finish\<close> from the
  \<open>Put\<close> on, each atomic, with any steps of the store between them.
\<close>

section \<open>The two halves of a read\<close>

record Pending =
  p_key :: EntityKey
  p_version :: string
  p_snap :: Snapshot

definition read_start :: "Router \<Rightarrow> Manager \<Rightarrow> EntityKey \<Rightarrow> Store \<Rightarrow> (Snapshot + Pending) go" where
  "read_start r m key s =
     (let versionID = resolveActiveVersionID m in
      case Cache_Get (s_cache s) key versionID of
        Some cached \<Rightarrow> Some (Inl (Snapshot_Clone cached))
      | None \<Rightarrow> do {
          entry \<leftarrow> read_entry r s key;
          Some (Inr \<lparr>p_key = key, p_version = versionID,
                     p_snap = (case entry of
                                 None \<Rightarrow> EmptySnapshot key versionID
                               | Some e \<Rightarrow> entrySnapshot m e versionID)\<rparr>)
        })"

definition read_finish :: "Pending \<Rightarrow> Store \<Rightarrow> Snapshot \<times> Store" where
  "read_finish p s =
     (Snapshot_Clone (p_snap p), s\<lparr>s_cache := Cache_Put (s_cache s) (p_key p) (p_version p) (p_snap p)\<rparr>)"

text \<open>Without anything in between the halves are the whole.\<close>

lemma Read_halves:
  "Read r m key s =
     Option.bind (read_start r m key s)
       (\<lambda>half. Some (case half of Inl snap \<Rightarrow> (snap, s) | Inr p \<Rightarrow> read_finish p s))"
  by (auto simp: Read_def read_cached_def read_start_def read_finish_def Let_def split: option.splits
      intro!: Option.bind_cong)

lemma read_start_pending:
  assumes "store_wf r s"
  shows "read_start r m key s = Some (Inr p) \<longleftrightarrow>
     Cache_Get (s_cache s) key (resolveActiveVersionID m) = None \<and>
     p = \<lparr>p_key = key, p_version = resolveActiveVersionID m,
          p_snap = fresh r m s key (resolveActiveVersionID m)\<rparr>"
  by (auto simp: read_start_def read_entry_wf [OF assms] fresh_def Let_def split: option.splits)

text \<open>Finishing a read in a sound state: only the coherence of the cached views is at stake.\<close>

lemma sound_read_finish:
  assumes "sound r False (m, s)" and "no_at (p_version p)"
  shows "sound r False (m, snd (read_finish p s)) \<longleftrightarrow>
           (p_version p = resolveActiveVersionID m \<longrightarrow> p_snap p = fresh r m s (p_key p) (p_version p))"
proof -
  note s = soundD [OF assms(1)]
  let ?v = "resolveActiveVersionID m"
  have active: "no_at ?v" using known_no_at [OF s(3) known_active [OF s(1)]] .
  have get: "Cache_Get (Cache_Put (s_cache s) (p_key p) (p_version p) (p_snap p)) j ?v =
      (if j = p_key p \<and> ?v = p_version p then Some (p_snap p) else Cache_Get (s_cache s) j ?v)" for j
    using read_cache.get_put [OF assms(2) active] by simp
  have "store_wf r (snd (read_finish p s))"
    using s(4) by (simp add: read_finish_def store_wf_def cache_wf_Put)
  moreover have "coherent r False m (snd (read_finish p s)) \<longleftrightarrow>
      (p_version p = ?v \<longrightarrow> p_snap p = fresh r m s (p_key p) (p_version p))"
    using s(6) by (auto simp: coherent_def cache_agrees_def visible_def read_finish_def get split: if_splits)
  ultimately show ?thesis using s(1-3,5) by (simp add: sound_def read_finish_def)
qed

section \<open>Properties\<close>

text \<open>A read may overlap with any calls: it answers with a view the store had when it began, and the cache stays
  coherent afterwards exactly when that view of the entity is still the store's, or another version
  has become active meanwhile. So overlapping calls on other entities are harmless.\<close>

theorem overlapping_read:
  assumes "clean_registry reg" and "sound r False (m, s)" and "read_start r m key s = Some (Inr p)"
    and "(store_step reg r False)\<^sup>*\<^sup>* (m, s) (m', s')"
  shows "fst (read_finish p s') = fresh r m s key (resolveActiveVersionID m) \<and>
         (sound r False (m', snd (read_finish p s')) \<longleftrightarrow>
            (resolveActiveVersionID m' = resolveActiveVersionID m \<longrightarrow>
               fresh r m' s' key (resolveActiveVersionID m') = fresh r m s key (resolveActiveVersionID m)))"
proof -
  note s = soundD [OF assms(2)]
  have p: "p = \<lparr>p_key = key, p_version = resolveActiveVersionID m,
      p_snap = fresh r m s key (resolveActiveVersionID m)\<rparr>"
    using assms(3) read_start_pending [OF s(4)] by blast
  have "sound r False (m', s')" using store_steps_sound [OF assms(1,4,2)] .
  moreover have "no_at (p_version p)" using known_no_at [OF s(3) known_active [OF s(1)]] p by simp
  ultimately show ?thesis
    using sound_read_finish [of r m' s' p] p by (auto simp: read_finish_def)
qed

lemma demo_pending:
  "\<exists>p. read_start demo_router demo_published demo_user demo_written = Some (Inr p)"
  using read_start_pending [OF store_wf_demo_written, of demo_published demo_user]
  by (simp add: cache_demo_written Cache_Get_def)

lemma overlapping_read_witness:
  "\<exists>p s'. read_start demo_router demo_published demo_user demo_written = Some (Inr p) \<and>
     Write demo_router (EntityKey ''user_2'') demo_fields ''w'' demo_written = Some s' \<and>
     sound demo_router False (demo_published, snd (read_finish p s'))"
proof -
  let ?k = "EntityKey ''user_2''" and ?v = "resolveActiveVersionID demo_published"
  obtain p where p: "read_start demo_router demo_published demo_user demo_written = Some (Inr p)"
    using demo_pending by blast
  have k: "demo_user \<noteq> ?k" by (simp add: demo_user_def)
  obtain s' where s': "Write demo_router ?k demo_fields ''w'' demo_written = Some s'"
    "\<forall>j. j \<noteq> ?k \<longrightarrow> fresh demo_router demo_published s' j ?v = fresh demo_router demo_published demo_written j ?v"
    using Write_sound [OF sound_demo [of False], of ?k demo_fields "''w''"] by blast
  then have "(store_step seeded demo_router False)\<^sup>*\<^sup>* (demo_published, demo_written) (demo_published, s')"
    by (intro r_into_rtranclp) (rule do_write)
  from overlapping_read [OF clean_seeded sound_demo p this] p s' k show ?thesis by blast
qed

text \<open>A write that falls into a read of the same entity is hidden: the late \<open>Put\<close> brings back the view from
  before the write, and later reads under that version return it although the entry holds what
  was written.\<close>

theorem racing_read_hides_write:
  assumes "sound r False (m, s)" and "read_start r m key s = Some (Inr p)"
    and "Write r key fs v s = Some s1" and "read_finish p s1 = (snap, s2)"
  shows "map_option fst (Read r m key s2) = Some (fresh r m s key (resolveActiveVersionID m)) \<and>
         entries r s2 key = Some (written key fs v (s_now s 0))"
proof -
  note s = soundD [OF assms(1)]
  let ?v = "resolveActiveVersionID m"
  have p: "p = \<lparr>p_key = key, p_version = ?v, p_snap = fresh r m s key ?v\<rparr>"
    using assms(2) read_start_pending [OF s(4)] by blast
  have "no_at ?v" using known_no_at [OF s(3) known_active [OF s(1)]] .
  then have "Cache_Get (s_cache s2) key ?v = Some (fresh r m s key ?v)"
    using assms(4) p read_cache.get_put by (auto simp: read_finish_def)
  moreover have "entries r s2 key = Some (written key fs v (s_now s 0))"
    using assms(3,4) Write_eq [OF s(4), of key fs v] entries_set_entry [OF soundD(4) [OF sound_frame(1) [OF assms(1)]]]
    by (auto simp: read_finish_def)
  ultimately show ?thesis by (simp add: Read_def read_cached_def)
qed

lemma racing_read_hides_write_witness:
  "\<exists>p s1 snap s2 old.
     read_start demo_router demo_published (EntityKey ''user_9'') demo_written = Some (Inr p) \<and>
     Write demo_router (EntityKey ''user_9'') demo_fields ''w'' demo_written = Some s1 \<and>
     read_finish p s1 = (snap, s2) \<and>
     map_option fst (Read demo_router demo_published (EntityKey ''user_9'') s2) = Some old \<and>
     snap_Fields old = fmempty \<and>
     map_option e_Fields (entries demo_router s2 (EntityKey ''user_9'')) = Some demo_fields"
proof -
  let ?k = "EntityKey ''user_9''"
  obtain p where p: "read_start demo_router demo_published ?k demo_written = Some (Inr p)"
    using read_start_pending [OF store_wf_demo_written, of demo_published ?k]
    by (simp add: cache_demo_written Cache_Get_def)
  obtain s1 where s1: "Write demo_router ?k demo_fields ''w'' demo_written = Some s1"
    using Write_eq [OF store_wf_demo_written] by blast
  obtain snap s2 where s2: "read_finish p s1 = (snap, s2)" by fastforce
  have "entries demo_router demo_written ?k = None"
    using entries_set_entry [OF store_wf_demo] by (simp add: demo_written_def demo_user_def entries_demo)
  then have "snap_Fields (fresh demo_router demo_published demo_written ?k v) = fmempty" for v
    by (simp add: fresh_def EmptySnapshot_def)
  with racing_read_hides_write [OF sound_demo p s1 s2] p s1 s2 show ?thesis
    by (auto simp: written_def)
qed

end
