(* ===== verification/Concurrency.thy ===== *)
theory Concurrency
  imports Prelude
begin

text \<open>
  Calls that run at the same time. The methods of the store, its cache, its journal, its result
  registry and the manager each hold a lock of their own for as long as they run, so a call of the
  service is a sequence of such methods, and the methods of different calls may alternate. A
  \<open>prog\<close> is a call cut into these atomic steps: it has returned, or its next step takes the shared
  state to a new one and to the rest of the call, or panics (\<open>None\<close>).

  \<open>alone\<close> runs a call with nothing in between, \<open>pool_step\<close> lets one call of several make its next
  step, \<open>step_among\<close> lets a call and an environment take turns. \<open>safe\<close> is the rely-guarantee
  judgement: whatever the environment does within its relation, the call does not panic, its own
  steps stay within the guarantee, and its answer satisfies a postcondition.
\<close>

section \<open>Calls as sequences of atomic steps\<close>

datatype (dead 's, 'r) prog =
    Return 'r
  | Step "'s \<Rightarrow> (('s, 'r) prog \<times> 's) option"

lemma prog_induct [case_names Return Step]:
  assumes "\<And>x. P (Return x)" and "\<And>f. (\<And>s q t. f s = Some (q, t) \<Longrightarrow> P q) \<Longrightarrow> P (Step f)"
  shows "P p"
proof (induction p)
  case (Return x)
  then show ?case by (rule assms(1))
next
  case (Step f)
  show ?case
  proof (rule assms(2))
    show "P q" if "f s = Some (q, t)" for s q t
      using Step [of "f s" "(q, t)" q] that by (metis fsts.intros fst_conv option.set_intros rangeI)
  qed
qed

primrec seq :: "('s, 'a) prog \<Rightarrow> ('a \<Rightarrow> ('s, 'r) prog) \<Rightarrow> ('s, 'r) prog" where
  "seq (Return x) k = k x"
| "seq (Step f) k = Step (\<lambda>s. map_option (map_prod (\<lambda>q. seq q k) id) (f s))"

definition atomic :: "('s \<Rightarrow> ('r \<times> 's) option) \<Rightarrow> ('s, 'r) prog" where
  "atomic f = Step (\<lambda>s. map_option (map_prod Return id) (f s))"

text \<open>A call that panics.\<close>

definition panic :: "('s, 'r) prog" where
  "panic = Step (\<lambda>s. None)"

lemma seq_assoc: "seq (seq p k) l = seq p (\<lambda>x. seq (k x) l)"
  by (induction p rule: prog_induct)
    (auto simp: fun_eq_iff option.map_comp intro!: option.map_cong0 split: option.split_asm)

section \<open>A call on its own\<close>

primrec alone :: "('s, 'r) prog \<Rightarrow> 's \<Rightarrow> ('r \<times> 's) option" where
  "alone (Return x) = (\<lambda>s. Some (x, s))"
| "alone (Step f) =
     (\<lambda>s. case map_option (map_prod alone id) (f s) of None \<Rightarrow> None | Some (g, t) \<Rightarrow> g t)"

lemma alone_Step [simp]:
  "alone (Step f) s = (case f s of None \<Rightarrow> None | Some (q, t) \<Rightarrow> alone q t)"
  by (auto split: option.splits)

declare alone.simps(2) [simp del]

lemma alone_seq [simp]:
  "alone (seq p k) s = Option.bind (alone p s) (\<lambda>(x, t). alone (k x) t)"
  by (induction p arbitrary: s rule: prog_induct) (auto split: option.splits)

lemma alone_atomic [simp]: "alone (atomic f) s = f s"
  by (auto simp: atomic_def split: option.splits)

lemma alone_panic [simp]: "alone panic s = None"
  by (simp add: panic_def)

section \<open>Calls that take turns\<close>

inductive pool_step :: "('s, 'r) prog list \<times> 's \<Rightarrow> ('s, 'r) prog list \<times> 's \<Rightarrow> bool" where
  turn: "i < length ps \<Longrightarrow> ps ! i = Step f \<Longrightarrow> f s = Some (q, t) \<Longrightarrow> pool_step (ps, s) (ps[i := q], t)"

inductive step_among ::
  "('s \<Rightarrow> 's \<Rightarrow> bool) \<Rightarrow> ('s, 'r) prog \<times> 's \<Rightarrow> ('s, 'r) prog \<times> 's \<Rightarrow> bool" for E where
  own: "f s = Some (q, t) \<Longrightarrow> step_among E (Step f, s) (q, t)"
| other: "E s t \<Longrightarrow> step_among E (p, s) (p, t)"

inductive_cases pool_stepE: "pool_step (ps, s) c"
inductive_cases step_amongE: "step_among E (p, s) c"

text \<open>No call is about to panic.\<close>

definition calm :: "('s, 'r) prog list \<Rightarrow> 's \<Rightarrow> bool" where
  "calm ps s \<longleftrightarrow> (\<forall>f. Step f \<in> set ps \<longrightarrow> f s \<noteq> None)"

definition answered_all :: "('s, 'r) prog list \<Rightarrow> bool" where
  "answered_all ps \<longleftrightarrow> (\<forall>p \<in> set ps. \<exists>x. p = Return x)"

text \<open>A call makes finitely many steps, so do several.\<close>

definition rest_of :: "(('s, 'r) prog \<times> ('s, 'r) prog) set" where
  "rest_of = {(q, p). \<exists>f s t. p = Step f \<and> f s = Some (q, t)}"

lemma wf_rest_of: "wf (rest_of :: (('s, 'r) prog \<times> ('s, 'r) prog) set)"
proof (rule wfUNIVI)
  fix P :: "('s, 'r) prog \<Rightarrow> bool" and p
  assume step: "\<forall>p. (\<forall>q. (q, p) \<in> rest_of \<longrightarrow> P q) \<longrightarrow> P p"
  show "P p"
  proof (induction p rule: prog_induct)
    case (Return x)
    have "(q, Return x) \<notin> rest_of" for q by (simp add: rest_of_def)
    then show ?case using step by blast
  next
    case (Step f)
    have "P q" if "(q, Step f) \<in> rest_of" for q using that Step by (auto simp: rest_of_def)
    then show ?case using step by blast
  qed
qed

lemma pool_terminates: "wf {(c', c :: ('s, 'r) prog list \<times> 's). pool_step c c'}"
proof (rule wf_subset)
  let ?R = "inv_image (listrel1 rest_of) (fst :: ('s, 'r) prog list \<times> 's \<Rightarrow> _)"
  show "wf ?R"
    by (intro wf_inv_image) (simp add: wf_listrel1_iff wf_rest_of)
  show "{(c', c). pool_step c c'} \<subseteq> ?R"
  proof (rule subrelI)
    fix c' c :: "('s, 'r) prog list \<times> 's"
    assume "(c', c) \<in> {(c', c). pool_step c c'}"
    then obtain qs t ps s where c: "c' = (qs, t)" "c = (ps, s)" "pool_step (ps, s) (qs, t)"
      by (metis case_prodD mem_Collect_eq surj_pair)
    then obtain i f q where i: "i < length ps" "ps ! i = Step f" "f s = Some (q, t)" "qs = ps[i := q]"
      by (auto elim: pool_stepE)
    then have "(q, ps ! i) \<in> rest_of" by (auto simp: rest_of_def)
    moreover have "qs ! i = q" "ps = qs[i := ps ! i]"
      unfolding i(4) list_update_overwrite list_update_id using i(1) by simp_all
    ultimately have "(qs, ps) \<in> listrel1 rest_of"
      unfolding listrel1_iff_update using i(1,4)
      by (intro exI [of _ "ps ! i"] exI [of _ i]) (auto simp: rest_of_def)
    then show "(c', c) \<in> ?R" using c by simp
  qed
qed

text \<open>In a pool any call may run to its end while the others wait.\<close>

lemma pool_alone:
  "i < length ps \<Longrightarrow> alone p s = Some (x, t) \<Longrightarrow> pool_step\<^sup>*\<^sup>* (ps[i := p], s) (ps[i := Return x], t)"
proof (induction p arbitrary: s rule: prog_induct)
  case (Step f)
  then obtain q u where q: "f s = Some (q, u)" "alone q u = Some (x, t)" by (auto split: option.splits)
  have "pool_step (ps[i := Step f], s) (ps[i := Step f, i := q], u)"
    by (rule turn [where f = f]) (use Step.prems(1) q(1) in simp_all)
  then have "pool_step (ps[i := Step f], s) (ps[i := q], u)" by simp
  then show ?case using Step.IH [OF q(1) Step.prems(1) q(2)] by (rule converse_rtranclp_into_rtranclp)
qed simp

lemma pool_left: "f s = Some (p, t) \<Longrightarrow> pool_step ([Step f, q], s) ([p, q], t)"
  using turn [of 0 "[Step f, q]"] by simp

lemma pool_right: "f s = Some (q, t) \<Longrightarrow> pool_step ([p, Step f], s) ([p, q], t)"
  using turn [of 1 "[p, Step f]"] by simp

lemma pool_left_alone: "alone p s = Some (x, t) \<Longrightarrow> pool_step\<^sup>*\<^sup>* ([p, q], s) ([Return x, q], t)"
  using pool_alone [of 0 "[p, q]"] by simp

lemma pool_right_alone: "alone q s = Some (x, t) \<Longrightarrow> pool_step\<^sup>*\<^sup>* ([p, q], s) ([p, Return x], t)"
  using pool_alone [of 1 "[p, q]"] by simp

section \<open>What a call may answer\<close>

text \<open>All answers a call can come to, whatever happens in between.\<close>

primrec answers_in :: "('r \<Rightarrow> bool) \<Rightarrow> ('s, 'r) prog \<Rightarrow> bool" where
  "answers_in Q (Return x) = Q x"
| "answers_in Q (Step f) =
     (\<forall>s. case map_option (map_prod (answers_in Q) id) (f s) of None \<Rightarrow> True | Some (b, t) \<Rightarrow> b)"

lemma answers_in_Step [simp]:
  "answers_in Q (Step f) \<longleftrightarrow> (\<forall>s q t. f s = Some (q, t) \<longrightarrow> answers_in Q q)"
  by (auto split: option.splits)

declare answers_in.simps(2) [simp del]

lemma answers_in_seq: "(\<And>x. answers_in Q (k x)) \<Longrightarrow> answers_in Q (seq p k)"
  by (induction p rule: prog_induct) auto

lemma answers_in_panic [simp]: "answers_in Q panic"
  by (simp add: panic_def)

lemma pool_answers:
  "pool_step\<^sup>*\<^sup>* (ps, s) (ps', s') \<Longrightarrow> \<forall>p \<in> set ps. answers_in Q p \<Longrightarrow> \<forall>p \<in> set ps'. answers_in Q p"
proof (induction rule: rtranclp_induct2)
  case (step ps' s' ps'' s'')
  then have old: "\<forall>p \<in> set ps'. answers_in Q p" by blast
  from step.hyps(2) obtain i f q where i: "i < length ps'" "ps' ! i = Step f" "f s' = Some (q, s'')"
    "ps'' = ps'[i := q]" by (auto elim: pool_stepE)
  have "answers_in Q (Step f)" using old i(1,2) by (metis nth_mem)
  then have "answers_in Q q" using i(3) by (auto simp del: answers_in.simps)
  then show ?case using old i(4) set_update_subset_insert [of ps' i q] by auto
qed simp

section \<open>Rely and guarantee\<close>

primrec safe ::
  "('s \<Rightarrow> 's \<Rightarrow> bool) \<Rightarrow> ('s \<Rightarrow> 's \<Rightarrow> bool) \<Rightarrow> ('r \<Rightarrow> 's \<Rightarrow> bool) \<Rightarrow> ('s, 'r) prog \<Rightarrow> 's \<Rightarrow> bool" where
  "safe E G Q (Return x) = (\<lambda>s. \<forall>t. E\<^sup>*\<^sup>* s t \<longrightarrow> Q x t)"
| "safe E G Q (Step f) =
     (\<lambda>s. \<forall>t. E\<^sup>*\<^sup>* s t \<longrightarrow>
        (case map_option (map_prod (safe E G Q) id) (f t) of
           None \<Rightarrow> False
         | Some (P, u) \<Rightarrow> G t u \<and> P u))"

lemma safe_Step:
  "safe E G Q (Step f) s \<longleftrightarrow>
     (\<forall>t. E\<^sup>*\<^sup>* s t \<longrightarrow> (\<exists>q u. f t = Some (q, u) \<and> G t u \<and> safe E G Q q u))"
  by (auto split: option.splits) (metis option.exhaust prod.exhaust)+

declare safe.simps(2) [simp del]

lemma safe_stable: "safe E G Q p s \<Longrightarrow> E\<^sup>*\<^sup>* s t \<Longrightarrow> safe E G Q p t"
  by (cases p) (auto simp: safe_Step dest: rtranclp_trans)

lemma safe_mono:
  "safe E G Q p s \<Longrightarrow> (\<And>x t. Q x t \<Longrightarrow> Q' x t) \<Longrightarrow> safe E G Q' p s"
proof (induction p arbitrary: s rule: prog_induct)
  case (Step f)
  show ?case
    unfolding safe_Step using Step.prems Step.IH by (fastforce simp: safe_Step)
qed simp

lemma safe_seq:
  "safe E G (\<lambda>x. safe E G Q (k x)) p s \<Longrightarrow> safe E G Q (seq p k) s"
proof (induction p arbitrary: s rule: prog_induct)
  case (Return x)
  then show ?case by auto
next
  case (Step f)
  show ?case
    unfolding seq.simps safe_Step
  proof (intro allI impI)
    fix t
    assume "E\<^sup>*\<^sup>* s t"
    then obtain q u where "f t = Some (q, u)" "G t u" "safe E G (\<lambda>x. safe E G Q (k x)) q u"
      using Step.prems by (auto simp: safe_Step)
    with Step.IH show "\<exists>q u. map_option (map_prod (\<lambda>q. seq q k) id) (f t) = Some (q, u) \<and> G t u \<and> safe E G Q q u"
      by auto
  qed
qed

lemma safe_atomic:
  "(\<And>t. E\<^sup>*\<^sup>* s t \<Longrightarrow> \<exists>x u. f t = Some (x, u) \<and> G t u \<and> (\<forall>v. E\<^sup>*\<^sup>* u v \<longrightarrow> Q x v)) \<Longrightarrow>
     safe E G Q (atomic f) s"
  by (fastforce simp: atomic_def safe_Step)

text \<open>Steps from states with a property that the environment keeps.\<close>

definition steady :: "('s \<Rightarrow> 's \<Rightarrow> bool) \<Rightarrow> ('s \<Rightarrow> bool) \<Rightarrow> bool" where
  "steady E P \<longleftrightarrow> (\<forall>s t. P s \<longrightarrow> E s t \<longrightarrow> P t)"

lemma steady_star: "E\<^sup>*\<^sup>* s t \<Longrightarrow> steady E P \<Longrightarrow> P s \<Longrightarrow> P t"
  by (induction rule: rtranclp_induct) (auto simp: steady_def)

lemma safe_Return: "steady E (Q x) \<Longrightarrow> Q x s \<Longrightarrow> safe E G Q (Return x) s"
  using steady_star by fastforce

lemma safe_act:
  assumes "steady E P" and "P s"
    and "\<And>t. P t \<Longrightarrow> \<exists>x u. f t = Some (x, u) \<and> G t u \<and> safe E G Q (k x) u"
  shows "safe E G Q (seq (atomic f) k) s"
proof (intro safe_seq safe_atomic)
  fix t
  assume "E\<^sup>*\<^sup>* s t"
  then have "P t" using steady_star assms(1,2) by metis
  then show "\<exists>x u. f t = Some (x, u) \<and> G t u \<and> (\<forall>v. E\<^sup>*\<^sup>* u v \<longrightarrow> safe E G Q (k x) v)"
    using assms(3) safe_stable by metis
qed

lemma safe_act_last:
  assumes "steady E P" and "P s" and "\<And>x. steady E (Q x)"
    and "\<And>t. P t \<Longrightarrow> \<exists>x u. f t = Some (x, u) \<and> G t u \<and> Q x u"
  shows "safe E G Q (atomic f) s"
proof (rule safe_atomic)
  fix t
  assume "E\<^sup>*\<^sup>* s t"
  then have "P t" using steady_star assms(1,2) by metis
  then show "\<exists>x u. f t = Some (x, u) \<and> G t u \<and> (\<forall>v. E\<^sup>*\<^sup>* u v \<longrightarrow> Q x v)"
    using assms(3,4) steady_star by metis
qed

text \<open>What the judgement says of the runs of a call among others.\<close>

lemma safe_run:
  assumes "(step_among E)\<^sup>*\<^sup>* (p, s) (q, t)" and "safe E G Q p s"
  shows "safe E G Q q t"
  using assms
proof (induction rule: converse_rtranclp_induct2)
  case (step p s p' s')
  from step.hyps(1) have "safe E G Q p' s'"
    by (cases rule: step_among.cases) (use step.prems in \<open>auto simp: safe_Step intro: safe_stable\<close>)
  then show ?case by (rule step.IH)
qed simp

lemma safe_answer: "safe E G Q (Return x) s \<Longrightarrow> Q x s"
  by simp

lemma safe_next: "safe E G Q (Step f) s \<Longrightarrow> \<exists>q t. f s = Some (q, t) \<and> G s t"
  by (auto simp: safe_Step)

text \<open>A safe call left alone comes to its end.\<close>

lemma step_among_alone: "alone p s = Some (x, t) \<Longrightarrow> (step_among E)\<^sup>*\<^sup>* (p, s) (Return x, t)"
proof (induction p arbitrary: s rule: prog_induct)
  case (Step f)
  then obtain q u where q: "f s = Some (q, u)" "alone q u = Some (x, t)" by (auto split: option.splits)
  have "step_among E (Step f, s) (q, u)" using q(1) by (rule own)
  then show ?case using Step.IH [OF q] by (rule converse_rtranclp_into_rtranclp)
qed simp

lemma safe_returns:
  assumes "safe E G Q p s"
  shows "\<exists>x t. (step_among E)\<^sup>*\<^sup>* (p, s) (Return x, t)"
proof -
  have "\<exists>x t. alone p s = Some (x, t)"
    using assms
  proof (induction p arbitrary: s rule: prog_induct)
    case (Step f)
    obtain q u where "f s = Some (q, u)" "safe E G Q q u" using Step.prems by (auto simp: safe_Step)
    with Step.IH show ?case by simp
  qed simp
  then show ?thesis using step_among_alone by metis
qed

lemma safe_run_moves:
  assumes "(step_among E)\<^sup>*\<^sup>* (p, s) (q, t)" and "safe E G Q p s"
  shows "(\<lambda>a b. E a b \<or> G a b)\<^sup>*\<^sup>* s t"
  using assms
proof (induction rule: converse_rtranclp_induct2)
  case (step p s p' s')
  have "safe E G Q p' s'" using safe_run [OF r_into_rtranclp [of "step_among E", OF step.hyps(1)] step.prems] .
  moreover have "E s s' \<or> G s s'"
    using step.hyps(1) by (cases rule: step_among.cases) (use step.prems in \<open>auto dest: safe_next\<close>)
  ultimately show ?case using step.IH by (simp add: converse_rtranclp_into_rtranclp)
qed simp

text \<open>What the call's own steps leave alone is moved by the environment only.\<close>

lemma moved_by_others:
  assumes "(\<lambda>a b. E a b \<or> G a b)\<^sup>*\<^sup>* s t" and "\<And>a b. G a b \<Longrightarrow> view b = view a"
  shows "(\<lambda>x y. \<exists>a b. E a b \<and> x = view a \<and> y = view b)\<^sup>*\<^sup>* (view s) (view t)"
  using assms(1)
proof (induction rule: rtranclp_induct)
  case (step t u)
  then show ?case using assms(2) by (metis (mono_tags, lifting) rtranclp.rtrancl_into_rtrancl)
qed simp

text \<open>Both together: the contract of a call among others.\<close>

lemma safe_contract:
  assumes "(step_among E)\<^sup>*\<^sup>* (p, s) (q, t)" and "safe E G Q p s" and "\<And>a b. G a b \<Longrightarrow> view b = view a"
  shows "\<And>f. q = Step f \<Longrightarrow> f t \<noteq> None" and "\<And>x. q = Return x \<Longrightarrow> Q x t"
    and "(\<lambda>x y. \<exists>a b. E a b \<and> x = view a \<and> y = view b)\<^sup>*\<^sup>* (view s) (view t)"
proof -
  note safe = safe_run [OF assms(1,2)]
  show "f t \<noteq> None" if "q = Step f" for f using safe_next [OF safe [unfolded that]] by auto
  show "Q x t" if "q = Return x" for x using safe_answer [OF safe [unfolded that]] .
  show "(\<lambda>x y. \<exists>a b. E a b \<and> x = view a \<and> y = view b)\<^sup>*\<^sup>* (view s) (view t)"
    using moved_by_others [OF safe_run_moves [OF assms(1,2)], of view] assms(3) .
qed

text \<open>
  Calls that rely on each other: if the guarantee of each is what the others rely on, all stay safe,
  so none of them panics, and they go on until all have returned.
\<close>

lemma pool_safe:
  assumes "pool_step\<^sup>*\<^sup>* (ps, s) (ps', s')" and "\<forall>p \<in> set ps. \<exists>Q. safe E E Q p s"
  shows "(\<forall>p \<in> set ps'. \<exists>Q. safe E E Q p s') \<and> E\<^sup>*\<^sup>* s s'"
  using assms
proof (induction rule: rtranclp_induct2)
  case (step ps' s' ps'' s'')
  then have safe: "\<forall>p \<in> set ps'. \<exists>Q. safe E E Q p s'" and "E\<^sup>*\<^sup>* s s'" by blast+
  from step.hyps(2) obtain i f q where i: "i < length ps'" "ps' ! i = Step f" "f s' = Some (q, s'')"
    "ps'' = ps'[i := q]" by (auto elim: pool_stepE)
  obtain Q where "safe E E Q (Step f) s'" using safe i by (metis nth_mem)
  then have own: "E s' s''" "safe E E Q q s''" using i(3) by (auto simp: safe_Step)
  have "\<exists>Q. safe E E Q p s''" if "p \<in> set ps''" for p
  proof (cases "p = q")
    case False
    then have "p \<in> set ps'" using that i(4) set_update_subset_insert [of ps' i q] by blast
    then show ?thesis using safe own(1) by (meson r_into_rtranclp safe_stable)
  qed (use own in blast)
  with \<open>E\<^sup>*\<^sup>* s s'\<close> own(1) show ?case by (simp add: rtranclp.rtrancl_into_rtrancl)
qed simp

text \<open>Each call of a pool keeps its own postcondition.\<close>

lemma pool_contracts:
  assumes "pool_step\<^sup>*\<^sup>* (ps, s) (ps', s')" and "list_all2 (\<lambda>Q p. safe E E Q p s) Qs ps"
  shows "list_all2 (\<lambda>Q p. safe E E Q p s') Qs ps' \<and> E\<^sup>*\<^sup>* s s'"
  using assms
proof (induction rule: rtranclp_induct2)
  case (step ps' s' ps'' s'')
  then have safe: "list_all2 (\<lambda>Q p. safe E E Q p s') Qs ps'" and star: "E\<^sup>*\<^sup>* s s'" by blast+
  from step.hyps(2) obtain i f q where i: "i < length ps'" "ps' ! i = Step f" "f s' = Some (q, s'')"
    "ps'' = ps'[i := q]" by (auto elim: pool_stepE)
  have "safe E E (Qs ! i) (Step f) s'" using safe i by (metis list_all2_nthD2)
  then have own: "E s' s''" "safe E E (Qs ! i) q s''" using i(3) by (auto simp: safe_Step)
  have "list_all2 (\<lambda>Q p. safe E E Q p s'') Qs ps'"
    using safe own(1) by (elim list_all2_mono) (meson r_into_rtranclp safe_stable)
  then have "list_all2 (\<lambda>Q p. safe E E Q p s'') Qs ps''"
    using list_all2_update_cong [of _ Qs ps' "Qs ! i" q i] own(2) i(4) by simp
  then show ?case using star own(1) by (simp add: rtranclp.rtrancl_into_rtrancl)
qed simp

lemma safe_calm: "\<forall>p \<in> set ps. \<exists>Q. safe E E Q p s \<Longrightarrow> calm ps s"
  unfolding calm_def using safe_next by fastforce

lemma calm_goes_on:
  assumes "calm ps s" and "\<not> answered_all ps"
  shows "\<exists>c. pool_step (ps, s) c"
proof -
  obtain p where p: "p \<in> set ps" "\<not> (\<exists>x. p = Return x)" using assms(2) by (auto simp: answered_all_def)
  then obtain f where f: "p = Step f" by (meson prog.exhaust)
  with p obtain i where i: "i < length ps" "ps ! i = Step f" by (metis in_set_conv_nth)
  obtain q t where "f s = Some (q, t)" using assms(1) p(1) f by (auto simp: calm_def)
  with i show ?thesis by (blast intro: turn)
qed

section \<open>Interference that keeps an invariant\<close>

text \<open>
  Most calls are shown safe against everything that keeps an invariant \<open>I\<close> and moves the state along
  a relation \<open>R\<close> while it holds. \<open>keeps\<close> is that judgement, with rules for the steps of a call.
\<close>

locale interference =
  fixes I :: "'s \<Rightarrow> bool" and R :: "'s \<Rightarrow> 's \<Rightarrow> bool"
  assumes refl: "R s s"
    and trans: "R s t \<Longrightarrow> R t u \<Longrightarrow> R s u"
begin

definition moves :: "'s \<Rightarrow> 's \<Rightarrow> bool" where
  "moves s t \<longleftrightarrow> (I s \<longrightarrow> I t \<and> R s t)"

definition keeps :: "('s, 'r) prog \<Rightarrow> 's \<Rightarrow> bool" where
  "keeps p s \<longleftrightarrow> safe moves moves (\<lambda>_ _. True) p s"

lemma moves_trans: "moves\<^sup>*\<^sup>* s t \<Longrightarrow> I s \<Longrightarrow> I t \<and> R s t"
  by (induction rule: rtranclp_induct) (auto simp: moves_def intro: refl trans)

lemma keeps_safe: "keeps p s \<Longrightarrow> I s \<Longrightarrow> safe moves moves (\<lambda>_ t. I t \<and> R s t) p s"
proof (induction p arbitrary: s rule: prog_induct)
  case (Step f)
  show ?case
    unfolding safe_Step
  proof (intro allI impI)
    fix t
    assume t: "moves\<^sup>*\<^sup>* s t"
    then have "I t" "R s t" using moves_trans Step.prems(2) by blast+
    obtain q u where u: "f t = Some (q, u)" "moves t u" "keeps q u"
      using Step.prems(1) t by (auto simp: keeps_def safe_Step)
    then have "I u" "R s u" using \<open>I t\<close> \<open>R s t\<close> by (auto simp: moves_def intro: trans)
    have "safe moves moves (\<lambda>_ t. I t \<and> R u t) q u" using Step.IH [OF u(1,3) \<open>I u\<close>] .
    then have "safe moves moves (\<lambda>_ t. I t \<and> R s t) q u"
      by (rule safe_mono) (use \<open>R s u\<close> trans in blast)
    with u show "\<exists>q u. f t = Some (q, u) \<and> moves t u \<and> safe moves moves (\<lambda>_ t. I t \<and> R s t) q u" by blast
  qed
next
  case (Return x)
  then show ?case using moves_trans by simp
qed

lemma keeps_Return [simp]: "keeps (Return x) s"
  by (simp add: keeps_def)

lemma keeps_seq:
  assumes "I s" and "keeps p s" and "\<And>x t. I t \<Longrightarrow> R s t \<Longrightarrow> keeps (k x) t"
  shows "keeps (seq p k) s"
  unfolding keeps_def
proof (rule safe_seq, rule safe_mono)
  show "safe moves moves (\<lambda>_ t. I t \<and> R s t) p s" using keeps_safe assms(1,2) by blast
  show "safe moves moves (\<lambda>_ _. True) (k x) t" if "I t \<and> R s t" for x t
    using assms(3) that by (simp add: keeps_def)
qed

lemma keeps_act:
  assumes "I s" and "\<And>t. I t \<Longrightarrow> R s t \<Longrightarrow> \<exists>x u. f t = Some (x, u) \<and> I u \<and> R t u \<and> keeps (k x) u"
  shows "keeps (seq (atomic f) k) s"
  unfolding keeps_def
proof (intro safe_seq safe_atomic)
  fix t
  assume "moves\<^sup>*\<^sup>* s t"
  then have "I t" "R s t" using moves_trans assms(1) by blast+
  then obtain x u where "f t = Some (x, u)" "I u" "R t u" "keeps (k x) u" using assms(2) by blast
  then show "\<exists>x u. f t = Some (x, u) \<and> moves t u \<and>
      (\<forall>v. moves\<^sup>*\<^sup>* u v \<longrightarrow> safe moves moves (\<lambda>_ _. True) (k x) v)"
    by (auto simp: keeps_def moves_def intro: safe_stable)
qed

lemma keeps_atomic:
  assumes "I s" and "\<And>t. I t \<Longrightarrow> R s t \<Longrightarrow> \<exists>x u. f t = Some (x, u) \<and> I u \<and> R t u"
  shows "keeps (atomic f) s"
  unfolding keeps_def
proof (intro safe_atomic)
  fix t
  assume "moves\<^sup>*\<^sup>* s t"
  then have "I t" "R s t" using moves_trans assms(1) by blast+
  then obtain x u where "f t = Some (x, u)" "I u" "R t u" using assms(2) by blast
  then show "\<exists>x u. f t = Some (x, u) \<and> moves t u \<and> (\<forall>v. moves\<^sup>*\<^sup>* u v \<longrightarrow> True)"
    by (simp add: moves_def)
qed

text \<open>Several calls, each of which keeps the invariant.\<close>

lemma pool_keeps:
  assumes "I s" and "\<forall>p \<in> set ps. keeps p s" and "pool_step\<^sup>*\<^sup>* (ps, s) (ps', s')"
  shows "I s'" "R s s'" "calm ps' s'"
proof -
  have "\<forall>p \<in> set ps. \<exists>Q. safe moves moves Q p s" using assms(2) by (auto simp: keeps_def)
  note * = pool_safe [OF assms(3) this]
  show "I s'" "R s s'" using moves_trans assms(1) * by blast+
  show "calm ps' s'" using * by (intro safe_calm) blast
qed

end

end
