(* ===== verification/Clients.thy ===== *)
theory Clients
  imports Concurrency Ingest Compute SyncCheck
begin

text \<open>
  The calls the service makes on the store, cut into the atomic steps of \<open>Concurrency\<close>: one step per
  method that takes a lock (of the store, the cache, the journal, the result registry or the
  manager), in the order the code calls them. The shared state is the manager and the store; the
  router does not change, since shards are not expanded here (\<open>ShardExpansion\<close> is about that).

  A mutation of the store invalidates the cache while it still holds the store's lock. That is part
  of its step: what another call gets from the cache in between it could have got before the step,
  and what it puts there the invalidation drops.

  Two things are coarser than the code. A read takes its snapshot of the entry, and looks up the
  fields of its version, which never change, after releasing the store's lock; here this belongs to
  the step that looks the entry up, because Go gives no meaning to a range over a map that another
  goroutine changes. And the maps \<open>Importer.batches\<close> and \<open>Backfill.tasks\<close>, which no lock guards, are
  taken as the caller's own.

  Run with nothing in between, each call is the operation the other theories define
  (\<open>calls_alone\<close>).
\<close>

type_synonym Shared = "Manager \<times> Store"
type_synonym 'r call = "(Shared, 'r) prog"

text \<open>Steps on the store, steps on the manager.\<close>

definition on_store :: "(Store \<Rightarrow> ('r \<times> Store) go) \<Rightarrow> 'r call" where
  "on_store f = atomic (\<lambda>(m, s). map_option (\<lambda>(x, s). (x, (m, s))) (f s))"

definition ask :: "(Store \<Rightarrow> 'r go) \<Rightarrow> 'r call" where
  "ask f = on_store (\<lambda>s. map_option (\<lambda>x. (x, s)) (f s))"

definition change :: "(Store \<Rightarrow> Store go) \<Rightarrow> unit call" where
  "change f = on_store (\<lambda>s. map_option (\<lambda>s. ((), s)) (f s))"

definition on_manager :: "(Manager \<Rightarrow> 'r \<times> Manager) \<Rightarrow> 'r call" where
  "on_manager f = atomic (\<lambda>(m, s). case f m of (x, m) \<Rightarrow> Some (x, (m, s)))"

section \<open>Reads and writes (store.go)\<close>

text \<open>\<open>Read\<close> is \<open>ReadVersion\<close> of the empty identifier.\<close>

definition ReadP :: "Router \<Rightarrow> EntityKey \<Rightarrow> string \<Rightarrow> Snapshot call" where
  "ReadP r key versionID =
     seq (if versionID = '''' then on_manager (\<lambda>m. (resolveActiveVersionID m, m)) else Return versionID)
       (\<lambda>versionID.
     seq (ask (\<lambda>s. Some (Cache_Get (s_cache s) key versionID))) (\<lambda>cached.
     case cached of
       Some snap \<Rightarrow> Return (Snapshot_Clone snap)
     | None \<Rightarrow>
         seq (atomic (\<lambda>(m, s). map_option
                (\<lambda>entry. (case entry of
                            None \<Rightarrow> EmptySnapshot key versionID
                          | Some e \<Rightarrow> entrySnapshot m e versionID, (m, s)))
                (read_entry r s key))) (\<lambda>snap.
         seq (change (\<lambda>s. Some (s\<lparr>s_cache := Cache_Put (s_cache s) key versionID snap\<rparr>))) (\<lambda>_.
         Return (Snapshot_Clone snap)))))"

text \<open>\<open>Write\<close> reads the clock before it takes the lock.\<close>

definition read_clock :: "time call" where
  "read_clock = on_store (\<lambda>s. case tick (s_now s) of (at, clk) \<Rightarrow> Some (at, s\<lparr>s_now := clk\<rparr>))"

definition WriteP :: "Router \<Rightarrow> EntityKey \<Rightarrow> Fields \<Rightarrow> string \<Rightarrow> unit call" where
  "WriteP r key fs versionID = seq read_clock (\<lambda>at. change (WriteAt r key fs versionID at))"

text \<open>\<open>RollbackBatch\<close> reads the journal, restores entry by entry and clears the journal at the end.\<close>

fun rollback_opsP :: "Router \<Rightarrow> JournalOp list \<Rightarrow> EntityKey set \<Rightarrow> unit call" where
  "rollback_opsP r [] seen = Return ()"
| "rollback_opsP r (op # ops) seen =
     (if op_Key op \<in> seen then rollback_opsP r ops seen
      else seq (case op_Before op of
                  None \<Rightarrow> change (Delete r (op_Key op))
                | Some b \<Rightarrow> change (WriteAt r (op_Key op) (e_Fields b) (e_VersionID b) (e_WrittenAt b)))
             (\<lambda>_. rollback_opsP r ops (insert (op_Key op) seen)))"

definition RollbackBatchP :: "Router \<Rightarrow> string \<Rightarrow> unit call" where
  "RollbackBatchP r batchID =
     seq (ask (\<lambda>s. Some (OpsFor (s_journal s) batchID))) (\<lambda>ops.
     seq (rollback_opsP r ops {}) (\<lambda>_.
     change (\<lambda>s. Some (s\<lparr>s_journal := Journal_Clear batchID (s_journal s)\<rparr>))))"

section \<open>Version switches (version.go)\<close>

text \<open>The manager calls the hook after it has released its lock, one method of the cache at a time.\<close>

fun hook_callsP :: "HookCall list \<Rightarrow> unit call" where
  "hook_callsP [] = Return ()"
| "hook_callsP (c # cs) =
     seq (change (\<lambda>s. Some (case c of
                              CallInvalidateVersion v \<Rightarrow> Store_InvalidateVersion v s
                            | CallInvalidateAll \<Rightarrow> Store_InvalidateAll s)))
       (\<lambda>_. hook_callsP cs)"

definition switchP :: "(Manager \<Rightarrow> 'r \<times> Manager \<times> HookCall list) \<Rightarrow> 'r call" where
  "switchP f =
     seq (on_manager (\<lambda>m. case f m of (res, m, calls) \<Rightarrow> ((res, calls), m)))
       (\<lambda>(res, calls). seq (hook_callsP calls) (\<lambda>_. Return res))"

definition PublishP :: "string \<Rightarrow> (VersionError + Version) call" where
  "PublishP vid = switchP (Publish vid)"

definition RollbackP :: "string \<Rightarrow> (VersionError + Version) call" where
  "RollbackP vid = switchP (Rollback vid)"

section \<open>Imports (ingest.go)\<close>

definition writeRowP ::
  "Router \<Rightarrow> Row \<Rightarrow> string list \<Rightarrow> string \<Rightarrow> string \<Rightarrow> nat \<Rightarrow> unit call" where
  "writeRowP r row overwrite versionID batchID segment =
     seq (ask (EntryFor r (row_Entity row))) (\<lambda>before.
     seq (change (\<lambda>s. Some (s\<lparr>s_journal := Journal_Append
                                \<lparr>op_BatchID = batchID, op_Segment = segment, op_Key = row_Entity row,
                                 op_Before = before\<rparr> (s_journal s)\<rparr>))) (\<lambda>_.
     change (MergeWrite r (row_Entity row) (build_patch row overwrite fmempty) overwrite versionID)))"

fun import_rowsP ::
  "Router \<Rightarrow> string list \<Rightarrow> string \<Rightarrow> string \<Rightarrow> Row list \<Rightarrow> Segment \<Rightarrow> Batch \<Rightarrow> Batch call" where
  "import_rowsP r overwrite versionID batchID [] segment batch = Return batch"
| "import_rowsP r overwrite versionID batchID (row # rows) segment batch =
     seq (writeRowP r row overwrite versionID batchID (seg_Index segment)) (\<lambda>_.
     let segment = segment\<lparr>seg_Rows := seg_Rows segment + 1\<rparr>
     in import_rowsP r overwrite versionID batchID rows segment (set_last segment batch))"

text \<open>With a window of no rows, which no importer has, the loop would not end; it counts as a panic.\<close>

function import_loopP ::
  "Router \<Rightarrow> nat \<Rightarrow> Row list \<Rightarrow> string list \<Rightarrow> string \<Rightarrow> string \<Rightarrow> nat \<Rightarrow> Batch \<Rightarrow> Batch call" where
  "import_loopP r windowSize rows overwrite versionID batchID start batch =
     (if start < length rows then
        if windowSize = 0 then panic
        else
          let end' = min (start + windowSize) (length rows);
              segment = \<lparr>seg_Index = length (b_Segments batch), seg_Done = False, seg_Rows = 0\<rparr>
          in seq (import_rowsP r overwrite versionID batchID (take (end' - start) (drop start rows)) segment
                    (batch\<lparr>b_Segments := b_Segments batch @ [segment]\<rparr>)) (\<lambda>batch.
             import_loopP r windowSize rows overwrite versionID batchID (start + windowSize)
               (mark_done batch))
      else Return batch)"
  by pat_completeness auto

termination
  by (relation "measure (\<lambda>(r, windowSize, rows, overwrite, versionID, batchID, start, batch). length rows - start)")
    auto

declare import_loopP.simps [simp del]

text \<open>The map of batches is under no lock, so the call has it as its own: what is said of it holds where no
  two imports are in flight (\<open>Serving\<close> says so of requests, by \<open>no_data_race\<close>). The code puts the
  pointer to the batch into the map before the loop and the loop changes the batch behind it, so
  that after the call the map holds the finished batch.\<close>

definition ImportP ::
  "Router \<Rightarrow> Registry \<Rightarrow> string \<Rightarrow> string \<Rightarrow> Row list \<Rightarrow> string \<Rightarrow> time \<Rightarrow> Importer \<Rightarrow>
   ((IngestError + Batch) \<times> Importer) call" where
  "ImportP r reg batchID tableID rows versionID now im =
     (if batchID = '''' then Return (Inl EmptyBatchID, im)
      else if rows = [] then Return (Inl EmptyImportFile, im)
      else
        case MustGet reg tableID of
          None \<Rightarrow> panic
        | Some t \<Rightarrow>
            seq (import_loopP r (im_windowSize im) rows (fieldWindow (Some t) rows) versionID batchID 0
                   \<lparr>b_ID = batchID, b_VersionID = versionID, b_Segments = [], b_Started = now,
                    b_Failed = False\<rparr>) (\<lambda>batch.
            Return (Inr batch, im\<lparr>im_batches := fmupd batchID batch (im_batches im)\<rparr>)))"

section \<open>Backfills (compute.go)\<close>

definition writeResultP :: "Router \<Rightarrow> Result \<Rightarrow> Version \<Rightarrow> (bool \<times> Fields) call" where
  "writeResultP r row version =
     seq (ask (EntryFor r (res_Entity row))) (\<lambda>current.
     let fs = add_counters current (res_Fields row) in
     seq (on_store (CompareAndWrite r (res_Entity row) fs version)) (\<lambda>ok.
     Return (ok, fs)))"

fun run_loopP ::
  "Router \<Rightarrow> Version \<Rightarrow> EntityKey list \<Rightarrow> nat \<Rightarrow> Task \<Rightarrow> Result list \<Rightarrow> (nat \<times> Task \<times> Result list) call" where
  "run_loopP r version [] num task rows = Return (num, task, rows)"
| "run_loopP r version (key # keys) num task rows =
     seq (writeResultP r (resultFor rows key) version) (\<lambda>(ok, fs).
     run_loopP r version keys (if ok then num + 1 else num) (bump task) (set_result key fs rows))"

text \<open>The map of tasks is under no lock either, and also gets its pointer before the loop; where no two runs
  are in flight it is the call's own, and after the call it holds the finished task.\<close>

definition RunP ::
  "Router \<Rightarrow> string \<Rightarrow> Version \<Rightarrow> Result list \<Rightarrow> time \<Rightarrow> time \<Rightarrow> Backfill \<Rightarrow>
   ((ComputeError + nat) \<times> Result list \<times> Backfill) call" where
  "RunP r taskID version rows t1 t2 b =
     (if taskID = '''' then Return (Inl EmptyTaskID, rows, b)
      else
        seq (run_loopP r version (plan_Order (BuildPlan rows)) 0
               \<lparr>task_ID = taskID, task_TableID = v_TableID version, task_State = TaskRunning,
                task_Total = length rows, task_Processed = 0, task_UpdatedAt = t1\<rparr> rows)
          (\<lambda>(num, task, rows).
        Return (Inr num, rows, b\<lparr>bf_tasks := fmupd taskID (task\<lparr>task_UpdatedAt := t2\<rparr>) (bf_tasks b)\<rparr>)))"

fun retry_loopP ::
  "Router \<Rightarrow> string \<Rightarrow> string \<Rightarrow> Version \<Rightarrow> EntityKey list \<Rightarrow> nat \<Rightarrow> Result list \<Rightarrow> (nat \<times> Result list) call" where
  "retry_loopP r taskID signature version [] num rows = Return (num, rows)"
| "retry_loopP r taskID signature version (key # keys) num rows =
     (let row = resultFor rows key in
      seq (ask (\<lambda>s. Some (IsCommitted taskID (res_Entity row) signature (s_results s)))) (\<lambda>committed.
      if committed then retry_loopP r taskID signature version keys num rows
      else
        seq (writeResultP r row version) (\<lambda>(ok, fs).
        let rows = set_result key fs rows in
        if ok
        then seq (change (\<lambda>s. Some (s\<lparr>s_results :=
                            MarkCommitted taskID (res_Entity row) signature (s_results s)\<rparr>))) (\<lambda>_.
             retry_loopP r taskID signature version keys (num + 1) rows)
        else retry_loopP r taskID signature version keys num rows)))"

definition RetryP :: "Router \<Rightarrow> string \<Rightarrow> Version \<Rightarrow> Result list \<Rightarrow> (nat \<times> Result list) call" where
  "RetryP r taskID version rows =
     retry_loopP r taskID (Signature taskID rows) version (plan_Order (BuildPlan rows)) 0 rows"

section \<open>Expiry (ttl.go)\<close>

definition ExpireKeyP :: "Router \<Rightarrow> Scanner \<Rightarrow> EntityKey \<Rightarrow> time \<Rightarrow> bool call" where
  "ExpireKeyP r sc key now =
     seq (ask (WrittenAt r key)) (\<lambda>writtenAt.
     case writtenAt of
       None \<Rightarrow> Return False
     | Some t \<Rightarrow>
         if \<not> IsExpired sc (time_sub now t) then Return False
         else seq (change (Delete r key)) (\<lambda>_. Return True))"

fun scan_keysP :: "Router \<Rightarrow> Scanner \<Rightarrow> time \<Rightarrow> EntityKey list \<Rightarrow> nat \<Rightarrow> nat call" where
  "scan_keysP r sc now [] num = Return num"
| "scan_keysP r sc now (key # keys) num =
     seq (ExpireKeyP r sc key now) (\<lambda>hit.
     scan_keysP r sc now keys (if hit then num + 1 else num))"

fun scan_shardsP ::
  "Router \<Rightarrow> (nat \<Rightarrow> iteration) \<Rightarrow> Scanner \<Rightarrow> time \<Rightarrow> nat list \<Rightarrow> nat \<Rightarrow> nat call" where
  "scan_shardsP r iter sc now [] num = Return num"
| "scan_shardsP r iter sc now (shard # shards) num =
     seq (ask (\<lambda>s. Some (Keys (iter shard) (int shard) s))) (\<lambda>keys.
     seq (scan_keysP r sc now keys num) (\<lambda>num.
     scan_shardsP r iter sc now shards num))"

definition ScanP :: "Router \<Rightarrow> (nat \<Rightarrow> iteration) \<Rightarrow> Scanner \<Rightarrow> time \<Rightarrow> nat call" where
  "ScanP r iter sc now =
     seq (ask (\<lambda>s. Some (Store_ShardCount s))) (\<lambda>shardCount.
     scan_shardsP r iter sc now [0 ..< nat shardCount] 0)"

section \<open>Checks (sync.go)\<close>

fun compare_keysP ::
  "Router \<Rightarrow> Window \<Rightarrow> offline \<Rightarrow> EntityKey list \<Rightarrow> Diff list \<Rightarrow> Diff list call" where
  "compare_keysP r w offlineView [] diffs = Return diffs"
| "compare_keysP r w offlineView (key # keys) diffs =
     seq (ask (WrittenAt r key)) (\<lambda>writtenAt.
     case writtenAt of
       None \<Rightarrow> compare_keysP r w offlineView keys diffs
     | Some t \<Rightarrow>
         if t < w_Begin w \<or> \<not> t < w_End w then compare_keysP r w offlineView keys diffs
         else
           seq (ReadP r key '''') (\<lambda>online.
           compare_keysP r w offlineView keys
             (diffs @ compare_fields key (w_Index w) online (offlineView key) (Snapshot_FieldNames online))))"

fun compare_shardsP ::
  "Router \<Rightarrow> (nat \<Rightarrow> iteration) \<Rightarrow> Window \<Rightarrow> offline \<Rightarrow> nat list \<Rightarrow> Diff list \<Rightarrow> Diff list call" where
  "compare_shardsP r iter w offlineView [] diffs = Return diffs"
| "compare_shardsP r iter w offlineView (shard # shards) diffs =
     seq (ask (\<lambda>s. Some (Keys (iter shard) (int shard) s))) (\<lambda>keys.
     seq (compare_keysP r w offlineView keys diffs) (\<lambda>diffs.
     compare_shardsP r iter w offlineView shards diffs))"

definition compareWindowP ::
  "Router \<Rightarrow> (nat \<Rightarrow> iteration) \<Rightarrow> Window \<Rightarrow> offline \<Rightarrow> Diff list call" where
  "compareWindowP r iter w offlineView =
     seq (ask (\<lambda>s. Some (Store_ShardCount s))) (\<lambda>shardCount.
     compare_shardsP r iter w offlineView [0 ..< nat shardCount] [])"

fun compare_windowsP ::
  "Router \<Rightarrow> (nat \<Rightarrow> nat \<Rightarrow> iteration) \<Rightarrow> offline \<Rightarrow> Window list \<Rightarrow> Diff list \<Rightarrow> Diff list call" where
  "compare_windowsP r iter offlineView [] diffs = Return diffs"
| "compare_windowsP r iter offlineView (w # ws) diffs =
     seq (compareWindowP r (iter (w_Index w)) w offlineView) (\<lambda>ds.
     compare_windowsP r iter offlineView ws (diffs @ ds))"

definition CheckP ::
  "Router \<Rightarrow> Checker \<Rightarrow> (nat \<Rightarrow> nat \<Rightarrow> iteration) \<Rightarrow> time \<Rightarrow> time \<Rightarrow> offline \<Rightarrow>
   (SyncError + Diff list) call" where
  "CheckP r c iter begin until offlineView =
     (if \<not> until > begin then Return (Inl (InvalidRange begin until))
      else
        seq (on_manager (\<lambda>m. (check_windows m c begin until, m))) (\<lambda>windows.
        case windows of
          None \<Rightarrow> panic
        | Some ws \<Rightarrow> seq (compare_windowsP r iter offlineView ws []) (\<lambda>diffs. Return (Inr diffs))))"


section \<open>Each call on its own\<close>

lemma alone_on_store [simp]: "alone (on_store f) (m, s) = map_option (\<lambda>(x, s). (x, (m, s))) (f s)"
  by (simp add: on_store_def)

lemma alone_ask [simp]: "alone (ask f) (m, s) = map_option (\<lambda>x. (x, (m, s))) (f s)"
  by (simp add: ask_def option.map_comp comp_def)

lemma alone_change [simp]: "alone (change f) (m, s) = map_option (\<lambda>s. ((), (m, s))) (f s)"
  by (simp add: change_def option.map_comp comp_def)

lemma alone_on_manager [simp]: "alone (on_manager f) (m, s) = (case f m of (x, m) \<Rightarrow> Some (x, (m, s)))"
  by (simp add: on_manager_def)

text \<open>An answer and a store, beside the manager that stays.\<close>

definition with_manager :: "Manager \<Rightarrow> ('r \<times> Store) go \<Rightarrow> ('r \<times> Shared) go" where
  "with_manager m = map_option (\<lambda>(x, s). (x, (m, s)))"

lemma with_manager_simps [simp]:
  "with_manager m None = None" "with_manager m (Some (x, s)) = Some (x, (m, s))"
  by (simp_all add: with_manager_def)

lemma alone_ReadP: "alone (ReadP r key v) (m, s) = with_manager m (ReadVersion r m key v s)"
  by (auto simp: ReadP_def ReadVersion_def read_cached_def with_manager_def Let_def
      split: option.splits prod.splits Option.bind_splits)

lemma alone_WriteP: "alone (WriteP r key fs v) (m, s) = map_option (\<lambda>s. ((), (m, s))) (Write r key fs v s)"
  by (simp add: WriteP_def read_clock_def Write_def split: prod.splits)

lemma alone_rollback_opsP:
  "alone (rollback_opsP r ops seen) (m, s) = map_option (\<lambda>s. ((), (m, s))) (rollback_ops r ops seen s)"
  by (induction r ops seen s rule: rollback_ops.induct) (auto split: option.splits Option.bind_splits)

lemma alone_RollbackBatchP:
  "alone (RollbackBatchP r b) (m, s) = map_option (\<lambda>s. ((), (m, s))) (RollbackBatch r b s)"
  by (auto simp: RollbackBatchP_def RollbackBatch_def alone_rollback_opsP split: Option.bind_splits)

lemma alone_hook_callsP: "alone (hook_callsP calls) (m, s) = Some ((), (m, run_hook calls s))"
  by (induction calls arbitrary: s) (auto simp: run_hook_def split: HookCall.splits)

lemma alone_PublishP: "alone (PublishP vid) ms = Some (Publish_store vid ms)"
  by (cases ms) (simp add: PublishP_def switchP_def Publish_store_def alone_hook_callsP split: prod.splits)

lemma alone_RollbackP: "alone (RollbackP vid) ms = Some (Rollback_store vid ms)"
  by (cases ms) (simp add: RollbackP_def switchP_def Rollback_store_def alone_hook_callsP split: prod.splits)

lemma alone_writeRowP:
  "alone (writeRowP r row ow v b seg) (m, s) = map_option (\<lambda>s. ((), (m, s))) (writeRow r row ow v b seg s)"
  by (auto simp: writeRowP_def writeRow_def Let_def split: Option.bind_splits)

lemma alone_import_rowsP:
  "alone (import_rowsP r ow v b rows segment batch) (m, s) =
     with_manager m (import_rows r ow v b rows segment batch s)"
  by (induction r ow v b rows segment batch s rule: import_rows.induct)
    (auto simp: alone_writeRowP Let_def split: Option.bind_splits)

text \<open>With no window the loop of the importer does not return.\<close>

lemma import_loop_no_window:
  assumes "import_loop r w rows ow v b start batch s = Some y" and "w = 0"
  shows "\<not> start < length rows"
proof -
  have "w = 0 \<longrightarrow> \<not> start < length rows"
    by (rule import_loop.raw_induct [OF _ assms(1), of "\<lambda>r w rows ow v b start batch s y. w = 0 \<longrightarrow> \<not> start < length rows"])
      (auto simp: Let_def split: if_splits Option.bind_splits, metis add_0_right gr0I)
  with assms(2) show ?thesis by blast
qed

lemma alone_import_loopP:
  "alone (import_loopP r w rows ow v b start batch) (m, s) =
     with_manager m (import_loop r w rows ow v b start batch s)"
proof (induction r w rows ow v b start batch arbitrary: s rule: import_loopP.induct)
  case (1 r w rows ow v b start batch)
  show ?case
  proof (cases "start < length rows \<and> w = 0")
    case True
    then have "import_loop r w rows ow v b start batch s = None"
      using import_loop_no_window by (metis option.exhaust)
    with True show ?thesis by (simp add: import_loopP.simps)
  next
    case False
    with 1 show ?thesis
      by (subst import_loopP.simps, subst import_loop.simps)
        (auto simp: alone_import_rowsP Let_def split: Option.bind_splits)
  qed
qed

lemma alone_ImportP:
  "alone (ImportP r reg b t rows v now im) (m, s) =
     map_option (\<lambda>(res, im, s). ((res, im), (m, s))) (Import r reg b t rows v now im s)"
  by (auto simp: ImportP_def Import_def alone_import_loopP Let_def split: option.splits Option.bind_splits)

lemma alone_writeResultP:
  "alone (writeResultP r row version) (m, s) =
     map_option (\<lambda>(ok, fs, s). ((ok, fs), (m, s))) (writeResult r row version s)"
  by (auto simp: writeResultP_def writeResult_def Let_def split: Option.bind_splits)

lemma alone_run_loopP:
  "alone (run_loopP r version keys num task rows) (m, s) =
     map_option (\<lambda>(num, task, rows, s). ((num, task, rows), (m, s))) (run_loop r version keys num task rows s)"
  by (induction r version keys num task rows s rule: run_loop.induct)
    (auto simp: alone_writeResultP split: Option.bind_splits)

lemma alone_RunP:
  "alone (RunP r task version rows t1 t2 b) (m, s) =
     map_option (\<lambda>(res, rows, b, s). ((res, rows, b), (m, s))) (Run r task version rows t1 t2 b s)"
  by (auto simp: RunP_def Run_def alone_run_loopP Let_def split: Option.bind_splits)

lemma alone_retry_loopP:
  "alone (retry_loopP r task sig version keys num rows) (m, s) =
     map_option (\<lambda>(num, rows, s). ((num, rows), (m, s))) (retry_loop r task sig version keys num rows s)"
  by (induction r task sig version keys num rows s rule: retry_loop.induct)
    (auto simp: alone_writeResultP Let_def split: Option.bind_splits)

lemma alone_RetryP:
  "alone (RetryP r task version rows) (m, s) =
     map_option (\<lambda>(num, rows, s). ((num, rows), (m, s))) (Retry r task version rows s)"
  by (simp add: RetryP_def Retry_def alone_retry_loopP)

lemma alone_ExpireKeyP: "alone (ExpireKeyP r sc key now) (m, s) = with_manager m (ExpireKey r sc key now s)"
  by (auto simp: ExpireKeyP_def ExpireKey_def split: option.splits Option.bind_splits)

lemma alone_scan_keysP:
  "alone (scan_keysP r sc now keys n) (m, s) = with_manager m (scan_keys r sc now keys n s)"
  by (induction r sc now keys n s rule: scan_keys.induct) (auto simp: alone_ExpireKeyP split: Option.bind_splits)

lemma alone_scan_shardsP:
  "alone (scan_shardsP r iter sc now shards n) (m, s) = with_manager m (scan_shards r iter sc now shards n s)"
  by (induction r iter sc now shards n s rule: scan_shards.induct)
    (auto simp: alone_scan_keysP split: Option.bind_splits)

lemma alone_ScanP: "alone (ScanP r iter sc now) (m, s) = with_manager m (Scan r iter sc now s)"
  by (simp add: ScanP_def Scan_def alone_scan_shardsP)

lemma alone_compare_keysP:
  "alone (compare_keysP r w off keys diffs) (m, s) = with_manager m (compare_keys r m w off keys diffs s)"
  by (induction r m w off keys diffs s rule: compare_keys.induct)
    (auto simp: alone_ReadP split: option.splits Option.bind_splits)

lemma alone_compare_shardsP:
  "alone (compare_shardsP r iter w off shards diffs) (m, s) =
     with_manager m (compare_shards r m iter w off shards diffs s)"
  by (induction r m iter w off shards diffs s rule: compare_shards.induct)
    (auto simp: alone_compare_keysP split: Option.bind_splits)

lemma alone_compare_windowsP:
  "alone (compare_windowsP r iter off ws diffs) (m, s) =
     with_manager m (compare_windows r m iter off ws diffs s)"
  by (induction r m iter off ws diffs s rule: compare_windows.induct)
    (auto simp: compareWindowP_def compareWindow_def alone_compare_shardsP split: Option.bind_splits)

lemma alone_CheckP:
  "alone (CheckP r c iter begin until off) (m, s) = with_manager m (Check r m c iter begin until off s)"
  by (auto simp: CheckP_def Check_def alone_compare_windowsP split: option.splits Option.bind_splits)


section \<open>Steps on the store under rely and guarantee\<close>

lemma safe_ask:
  assumes "steady E P" and "P ms" and "\<And>a. G a a"
    and "\<And>m s. P (m, s) \<Longrightarrow> \<exists>x. f s = Some x \<and> safe E G Q (k x) (m, s)"
  shows "safe E G Q (seq (ask f) k) ms"
  unfolding ask_def on_store_def
proof (rule safe_act [OF assms(1,2)])
  fix t
  assume "P t"
  then show "\<exists>x u. (case t of (m, s) \<Rightarrow> map_option (\<lambda>(x, s). (x, (m, s))) (map_option (\<lambda>x. (x, s)) (f s))) = Some (x, u) \<and>
      G t u \<and> safe E G Q (k x) u"
    using assms(3,4) by (cases t) fastforce
qed

lemma safe_change:
  assumes "steady E P" and "P ms"
    and "\<And>m s. P (m, s) \<Longrightarrow> \<exists>s'. f s = Some s' \<and> G (m, s) (m, s') \<and> safe E G Q (k ()) (m, s')"
  shows "safe E G Q (seq (change f) k) ms"
  unfolding change_def on_store_def
proof (rule safe_act [OF assms(1,2)])
  fix t
  assume "P t"
  then show "\<exists>x u. (case t of (m, s) \<Rightarrow> map_option (\<lambda>(x, s). (x, (m, s))) (map_option (\<lambda>s. ((), s)) (f s))) = Some (x, u) \<and>
      G t u \<and> safe E G Q (k x) u"
    using assms(3) by (cases t) fastforce
qed

lemma safe_change_last:
  assumes "steady E P" and "P ms" and "steady E (Q ())"
    and "\<And>m s. P (m, s) \<Longrightarrow> \<exists>s'. f s = Some s' \<and> G (m, s) (m, s') \<and> Q () (m, s')"
  shows "safe E G Q (change f) ms"
  unfolding change_def on_store_def
proof (rule safe_act_last [OF assms(1,2)])
  show "steady E (Q x)" for x using assms(3) by (cases x) simp
  fix t
  assume "P t"
  then show "\<exists>x u. (case t of (m, s) \<Rightarrow> map_option (\<lambda>(x, s). (x, (m, s))) (map_option (\<lambda>s. ((), s)) (f s))) = Some (x, u) \<and>
      G t u \<and> Q x u"
    using assms(4) by (cases t) fastforce
qed

text \<open>A first step that only looks something up.\<close>

definition asks :: "'r call \<Rightarrow> bool" where
  "asks p \<longleftrightarrow> (\<exists>f. p = Step f \<and> (\<forall>a q c. f a = Some (q, c) \<longrightarrow> c = a))"

lemma asks_seq [simp]: "asks p \<Longrightarrow> asks (seq p k)"
  unfolding asks_def by auto

lemma asks_ask [simp]: "asks (ask f)"
  by (auto simp: asks_def ask_def on_store_def atomic_def)

lemma asks_on_manager [simp]: "asks (on_manager (\<lambda>m. (f m, m)))"
  by (auto simp: asks_def on_manager_def atomic_def)

lemma asks_begins:
  assumes "asks p" and "safe E G Q p a"
  shows "\<exists>q. step_among E (p, a) (q, a) \<and> safe E G Q q a"
proof -
  obtain f where f: "p = Step f" "\<And>q c. f a = Some (q, c) \<Longrightarrow> c = a"
    using assms(1) unfolding asks_def by blast
  then obtain q where "f a = Some (q, a)" using safe_next assms(2) by metis
  then have "step_among E (p, a) (q, a)" unfolding f(1) by (rule own)
  with safe_run [OF r_into_rtranclp [of "step_among E"] assms(2)] show ?thesis by blast
qed

text \<open>A run in which the others make a step after the first one.\<close>

lemma asks_runs:
  assumes "asks p" and "safe E G Q p a" and "E a c"
  shows "\<exists>q x t. step_among E (p, a) (q, a) \<and> (step_among E)\<^sup>*\<^sup>* (q, c) (Return x, t) \<and>
           (step_among E)\<^sup>*\<^sup>* (p, a) (Return x, t)"
proof -
  obtain q where q: "step_among E (p, a) (q, a)" "safe E G Q q a" using asks_begins assms(1,2) by blast
  obtain x t where t: "(step_among E)\<^sup>*\<^sup>* (q, c) (Return x, t)"
    using safe_returns [OF safe_stable [OF q(2) r_into_rtranclp [of E, OF assms(3)]]] by blast
  have "(step_among E)\<^sup>*\<^sup>* (p, a) (Return x, t)"
    by (rule converse_rtranclp_into_rtranclp [OF q(1) converse_rtranclp_into_rtranclp [OF other [of E, OF assms(3)] t]])
  with q(1) t show ?thesis by blast
qed

lemma asks_calls [simp]:
  "asks (writeRowP r row ow v b seg)" "asks (ScanP r iter sc now)" "asks (ReadP r key '''')"
  by (simp_all add: writeRowP_def ScanP_def ReadP_def)

section \<open>The operations as calls\<close>

text \<open>Cutting the operations at their locks changes nothing but the room for others: run with nothing in
  between, every call returns and leaves what the operation it stands for returns and leaves, and
  panics where that panics.\<close>

theorem calls_alone:
  "alone (ReadP r key v) (m, s) = map_option (\<lambda>(snap, s). (snap, (m, s))) (ReadVersion r m key v s) \<and>
   alone (WriteP r key fs v) (m, s) = map_option (\<lambda>s. ((), (m, s))) (Write r key fs v s) \<and>
   alone (PublishP vid) (m, s) = Some (Publish_store vid (m, s)) \<and>
   alone (RollbackP vid) (m, s) = Some (Rollback_store vid (m, s)) \<and>
   alone (ImportP r reg b t rows v now im) (m, s) =
     map_option (\<lambda>(res, im, s). ((res, im), (m, s))) (Import r reg b t rows v now im s) \<and>
   alone (RollbackBatchP r b) (m, s) = map_option (\<lambda>s. ((), (m, s))) (RollbackBatch r b s) \<and>
   alone (RunP r task version results t1 t2 bf) (m, s) =
     map_option (\<lambda>(res, results, bf, s). ((res, results, bf), (m, s))) (Run r task version results t1 t2 bf s) \<and>
   alone (RetryP r task version results) (m, s) =
     map_option (\<lambda>(num, results, s). ((num, results), (m, s))) (Retry r task version results s) \<and>
   alone (ScanP r iter sc now) (m, s) = map_option (\<lambda>(num, s). (num, (m, s))) (Scan r iter sc now s) \<and>
   alone (CheckP r c orders begin until off) (m, s) =
     map_option (\<lambda>(res, s). (res, (m, s))) (Check r m c orders begin until off s)"
  by (simp add: alone_ReadP alone_WriteP alone_PublishP alone_RollbackP alone_ImportP alone_RollbackBatchP
      alone_RunP alone_RetryP alone_ScanP alone_CheckP with_manager_def)

end
