(* ===== verification/Interleaving.thy ===== *)
theory Interleaving
  imports Clients ServerRuns
begin

text \<open>
  Any number of calls of the service at the same time. \<open>call_prog\<close> names the component calls of
  \<open>Clients\<close> on the parts of one server, those behind its requests and the undo of a batch, which no
  route reaches; several of them take turns in a pool. Whatever the order, no call panics and all return;
  and reads of an entity are never stale, at any point of any run, unless the pool holds both a
  read of that entity and a change of it (\<open>race_free\<close>). \<open>RacingReads\<close> shows that such a pair does
  leave a stale view behind.

  The invariant of the pool (\<open>shared_ok\<close>) speaks of the cache for the keys in a set \<open>K\<close> only; the
  relation along which calls move the state (\<open>shared_moves\<close>) has a function \<open>F\<close> that says of each key
  whether its entry is free to change, may only rise in version, or stays fixed. A call that fills
  the cache for a key of \<open>K\<close> needs the key fixed, a call that changes an entry needs it free, or, for
  a backfill, rising. Both are instances of the locale \<open>interference\<close>, under the name \<open>pool\<close>.
\<close>

section \<open>Calls of the service\<close>

datatype Call =
    CallRead EntityKey
  | CallWrite EntityKey Fields string
  | CallPublish string
  | CallRollback string
  | CallImport string string "Row list" string time
  | CallUndo string
  | CallRun string Version "Result list" time time
  | CallRetry string Version "Result list"
  | CallCheck time time
  | CallScan time

datatype Reply =
    ReplySnapshot Snapshot
  | ReplyDone
  | ReplyVersion "VersionError + Version"
  | ReplyImport "IngestError + Batch"
  | ReplyRun "ComputeError + nat"
  | ReplyCount nat
  | ReplyDiffs "SyncError + Diff list"

definition reply :: "('a \<Rightarrow> 'b) \<Rightarrow> 'a call \<Rightarrow> 'b call" where
  "reply f p = seq p (\<lambda>x. Return (f x))"

text \<open>The calls on the components of a server \<open>w\<close>; a table of the model's own, not of the code.\<close>

fun call_prog :: "Runtime \<Rightarrow> World \<Rightarrow> Call \<Rightarrow> Reply call" where
  "call_prog rt w (CallRead key) = reply ReplySnapshot (ReadP (w_router w) key '''')"
| "call_prog rt w (CallWrite key fs v) = reply (\<lambda>_. ReplyDone) (WriteP (w_router w) key fs v)"
| "call_prog rt w (CallPublish v) = reply ReplyVersion (PublishP v)"
| "call_prog rt w (CallRollback v) = reply ReplyVersion (RollbackP v)"
| "call_prog rt w (CallImport batch table rows v now) =
     reply (\<lambda>(res, _). ReplyImport res) (ImportP (w_router w) (w_tables w) batch table rows v now (w_importer w))"
| "call_prog rt w (CallUndo batch) = reply (\<lambda>_. ReplyDone) (RollbackBatchP (w_router w) batch)"
| "call_prog rt w (CallRun task version rows t1 t2) =
     reply (\<lambda>(res, _). ReplyRun res) (RunP (w_router w) task version rows t1 t2 (w_backfill w))"
| "call_prog rt w (CallRetry task version rows) =
     reply (\<lambda>(n, _). ReplyCount n) (RetryP (w_router w) task version rows)"
| "call_prog rt w (CallCheck begin until) =
     reply ReplyDiffs (CheckP (w_router w) (w_checker w) (rt_shards rt) begin until offlineView)"
| "call_prog rt w (CallScan now) = reply ReplyCount (ScanP (w_router w) (rt_shards rt 0) (w_scanner w) now)"

text \<open>The entities a call may read through the cache, and those it may change.\<close>

fun reads :: "Call \<Rightarrow> EntityKey \<Rightarrow> bool" where
  "reads (CallRead key) k \<longleftrightarrow> k = key"
| "reads (CallCheck begin until) k \<longleftrightarrow> True"
| "reads _ k \<longleftrightarrow> False"

fun changes :: "Call \<Rightarrow> EntityKey \<Rightarrow> bool" where
  "changes (CallWrite key fs v) k \<longleftrightarrow> k = key"
| "changes (CallImport batch table rows v now) k \<longleftrightarrow> k \<in> row_Entity ` set rows"
| "changes (CallUndo batch) k \<longleftrightarrow> True"
| "changes (CallRun task version rows t1 t2) k \<longleftrightarrow> k \<in> res_Entity ` set rows"
| "changes (CallRetry task version rows) k \<longleftrightarrow> k \<in> res_Entity ` set rows"
| "changes (CallScan now) k \<longleftrightarrow> True"
| "changes _ k \<longleftrightarrow> False"

text \<open>A backfill, under a version with an identifier.\<close>

fun backfills :: "Call \<Rightarrow> bool" where
  "backfills (CallRun task version rows t1 t2) \<longleftrightarrow> v_ID version \<noteq> ''''"
| "backfills (CallRetry task version rows) \<longleftrightarrow> v_ID version \<noteq> ''''"
| "backfills _ \<longleftrightarrow> False"

definition race_free :: "Call list \<Rightarrow> EntityKey \<Rightarrow> bool" where
  "race_free calls k \<longleftrightarrow> \<not> ((\<exists>c \<in> set calls. reads c k) \<and> (\<exists>c \<in> set calls. changes c k))"

section \<open>What calls keep and how they move the state\<close>

definition shared_ok :: "Router \<Rightarrow> EntityKey set \<Rightarrow> Shared \<Rightarrow> bool" where
  "shared_ok r K ms \<longleftrightarrow>
     (case ms of (m, s) \<Rightarrow>
        manager_wf m \<and> clean_ids m \<and> store_wf r s \<and>
        (\<forall>k \<in> K. \<forall>v snap. known m v \<longrightarrow> Cache_Get (s_cache s) k v = Some snap \<longrightarrow> snap = fresh r m s k v))"

text \<open>
  What happens to an entity: anything, or its entry stays and gets no older version, or nothing.
\<close>

datatype hold = Free | Rising | Fixed

fun held :: "hold \<Rightarrow> Entry option \<Rightarrow> Entry option \<Rightarrow> bool" where
  "held Free old new \<longleftrightarrow> True"
| "held Rising old new \<longleftrightarrow>
     (\<forall>e. old = Some e \<and> e_VersionID e \<noteq> '''' \<longrightarrow>
        (\<exists>e'. new = Some e' \<and> e_VersionID e' \<noteq> '''' \<and> \<not> versionNewer (e_VersionID e) (e_VersionID e')))"
| "held Fixed old new \<longleftrightarrow> new = old"

lemma held_refl [simp]: "held h e e"
  by (cases h) (auto simp: versionNewer_def)

lemma held_trans: "held h a b \<Longrightarrow> held h b c \<Longrightarrow> held h a c"
  by (cases h) (fastforce simp: versionNewer_def)+

definition shared_moves :: "Router \<Rightarrow> (EntityKey \<Rightarrow> hold) \<Rightarrow> Shared \<Rightarrow> Shared \<Rightarrow> bool" where
  "shared_moves r F ms ms' \<longleftrightarrow>
     restates (m_versions (fst ms)) (m_versions (fst ms')) \<and>
     (\<forall>k. held (F k) (entries r (snd ms) k) (entries r (snd ms') k))"

interpretation pool: interference "shared_ok r K" "shared_moves r F" for r K F
  by unfold_locales (auto simp: shared_moves_def intro: restates_trans held_trans)

abbreviation keeps :: "Router \<Rightarrow> EntityKey set \<Rightarrow> (EntityKey \<Rightarrow> hold) \<Rightarrow> 'r call \<Rightarrow> Shared \<Rightarrow> bool" where
  "keeps r K F \<equiv> interference.keeps (shared_ok r K) (shared_moves r F)"

lemma shared_okD:
  assumes "shared_ok r K (m, s)"
  shows "manager_wf m" "clean_ids m" "store_wf r s"
    "k \<in> K \<Longrightarrow> known m v \<Longrightarrow> Cache_Get (s_cache s) k v = Some snap \<Longrightarrow> snap = fresh r m s k v"
  using assms by (auto simp: shared_ok_def)

lemma known_restates: "restates (m_versions m) (m_versions m') \<Longrightarrow> known m' v = known m v"
  by (simp add: known_def restates_def)

lemma known_moves: "shared_moves r F (m, s) (m', s') \<Longrightarrow> known m v \<Longrightarrow> known m' v"
  using known_restates by (auto simp: shared_moves_def)

lemma fresh_restates:
  assumes "restates (m_versions m) (m_versions m')" and "known m v" and "entries r s' k = entries r s k"
  shows "fresh r m' s' k v = fresh r m s k v"
  using allowed_fields_evolves [of m m' v] assms
  by (simp add: fresh_def entrySnapshot_def restates_def cong: option.case_cong)

text \<open>The kinds of steps: on anything but entries, cache and versions; on an entry; on the versions.\<close>

lemma ok_frame:
  assumes "shared_ok r K (m, s)" and "store_wf r s'" and "s_shards s' = s_shards s"
    and "\<And>k v snap. Cache_Get (s_cache s') k v = Some snap \<Longrightarrow> Cache_Get (s_cache s) k v = Some snap"
  shows "shared_ok r K (m, s')" "shared_moves r F (m, s) (m, s')"
proof -
  have "entries r s' = entries r s" using assms(3) by (simp add: entries_def fun_eq_iff)
  then have "fresh r m s' = fresh r m s" by (simp add: fresh_def fun_eq_iff)
  with assms show "shared_ok r K (m, s')" by (auto simp: shared_ok_def)
  show "shared_moves r F (m, s) (m, s')"
    using \<open>entries r s' = entries r s\<close> by (simp add: shared_moves_def)
qed

lemma ok_set_entry:
  assumes "shared_ok r K (m, s)" and "\<And>x. e = Some x \<Longrightarrow> fits_key k x" and "held (F k) (entries r s k) e"
  shows "shared_ok r K (m, set_entry r k e s)" "shared_moves r F (m, s) (m, set_entry r k e s)"
proof -
  note ok = shared_okD [OF assms(1)]
  have ent: "entries r (set_entry r k e s) j = entries r s j" if "j \<noteq> k" for j
    using entries_set_entry [OF ok(3)] that by simp
  have "snap = fresh r m (set_entry r k e s) j v"
    if j: "j \<in> K" "known m v" and get: "Cache_Get (Cache_InvalidateEntity k (s_cache s)) j v = Some snap" for j v snap
  proof -
    have "j \<noteq> k" using get read_cache.get_inv_entity [OF store_wfD(3) [OF ok(3)]] by fastforce
    moreover have "snap = fresh r m s j v"
      using ok(4) [OF j read_cache.get_inv_entity_mono [OF get]] .
    ultimately show ?thesis using fresh_key_cong ent by metis
  qed
  with ok(1,2) store_wf_set_entry [OF ok(3) assms(2)]
  show "shared_ok r K (m, set_entry r k e s)" by (simp add: shared_ok_def)
  show "shared_moves r F (m, s) (m, set_entry r k e s)"
    using assms(3) ent entries_set_entry [OF ok(3), of k e]
    unfolding shared_moves_def by (metis fst_conv fun_upd_same held_refl restates_refl snd_conv)
qed

lemma ok_switch:
  assumes "shared_ok r K (m, s)" and "manager_wf m'" and "restates (m_versions m) (m_versions m')"
  shows "shared_ok r K (m', s)" "shared_moves r F (m, s) (m', s)"
proof -
  show "shared_moves r F (m, s) (m', s)" using assms(3) by (simp add: shared_moves_def)
  have "fresh r m' s k v = fresh r m s k v" if "known m v" for k v
    using fresh_restates [OF assms(3) that refl] .
  with assms show "shared_ok r K (m', s)"
    by (auto simp: shared_ok_def known_restates clean_ids_evolve)
qed

section \<open>Steps as programs\<close>

lemma keeps_seq_ask:
  assumes "shared_ok r K ms"
    and "\<And>m s. shared_ok r K (m, s) \<Longrightarrow> shared_moves r F ms (m, s) \<Longrightarrow>
           \<exists>x. f s = Some x \<and> keeps r K F (k x) (m, s)"
  shows "keeps r K F (seq (ask f) k) ms"
  unfolding ask_def on_store_def
proof (rule pool.keeps_act [OF assms(1)])
  fix t
  assume t: "shared_ok r K t" "shared_moves r F ms t"
  obtain m s where [simp]: "t = (m, s)" by (cases t)
  from assms(2) t obtain x where "f s = Some x" "keeps r K F (k x) (m, s)" by auto
  with t(1) show "\<exists>x u. (case t of (m, s) \<Rightarrow> map_option (\<lambda>(x, s). (x, (m, s))) (map_option (\<lambda>x. (x, s)) (f s))) = Some (x, u) \<and>
      shared_ok r K u \<and> shared_moves r F t u \<and> keeps r K F (k x) u"
    by (simp add: pool.refl)
qed

lemma keeps_on_store:
  assumes "shared_ok r K ms"
    and "\<And>m s. shared_ok r K (m, s) \<Longrightarrow>
           \<exists>x s'. f s = Some (x, s') \<and> shared_ok r K (m, s') \<and> shared_moves r F (m, s) (m, s')"
  shows "keeps r K F (on_store f) ms"
  unfolding on_store_def
proof (rule pool.keeps_atomic [OF assms(1)])
  fix t
  assume t: "shared_ok r K t" "shared_moves r F ms t"
  obtain m s where [simp]: "t = (m, s)" by (cases t)
  from assms(2) t obtain x s' where "f s = Some (x, s')" "shared_ok r K (m, s')"
    "shared_moves r F (m, s) (m, s')" by force
  then show "\<exists>x u. (case t of (m, s) \<Rightarrow> map_option (\<lambda>(x, s). (x, (m, s))) (f s)) = Some (x, u) \<and>
      shared_ok r K u \<and> shared_moves r F t u" by simp
qed

lemma keeps_change:
  assumes "shared_ok r K ms"
    and "\<And>m s. shared_ok r K (m, s) \<Longrightarrow>
           \<exists>s'. f s = Some s' \<and> shared_ok r K (m, s') \<and> shared_moves r F (m, s) (m, s')"
  shows "keeps r K F (change f) ms"
  unfolding change_def by (rule keeps_on_store [OF assms(1)]) (use assms(2) in fastforce)

lemma keeps_on_manager:
  assumes "shared_ok r K ms"
    and "\<And>m x m'. manager_wf m \<Longrightarrow> f m = (x, m') \<Longrightarrow> manager_wf m' \<and> restates (m_versions m) (m_versions m')"
  shows "keeps r K F (on_manager f) ms"
  unfolding on_manager_def
proof (rule pool.keeps_atomic [OF assms(1)])
  fix t
  assume t: "shared_ok r K t" "shared_moves r F ms t"
  obtain m s where [simp]: "t = (m, s)" by (cases t)
  obtain x m' where f: "f m = (x, m')" by fastforce
  with t assms(2) have "manager_wf m'" "restates (m_versions m) (m_versions m')"
    by (auto dest: shared_okD(1))
  with f t show "\<exists>x u. (case t of (m, s) \<Rightarrow> case f m of (x, m) \<Rightarrow> Some (x, (m, s))) = Some (x, u) \<and>
      shared_ok r K u \<and> shared_moves r F t u"
    using ok_switch by simp
qed

text \<open>Bookkeeping: journal, results, clock and cache invalidation.\<close>

lemma keeps_bookkeeping:
  assumes "shared_ok r K ms"
    and "\<And>s. store_wf r s \<Longrightarrow> store_wf r (f s)" and "\<And>s. s_shards (f s) = s_shards s"
    and "\<And>s k v snap. Cache_Get (s_cache (f s)) k v = Some snap \<Longrightarrow> Cache_Get (s_cache s) k v = Some snap"
  shows "keeps r K F (change (\<lambda>s. Some (f s))) ms"
proof (rule keeps_change [OF assms(1)])
  fix m s
  assume ok: "shared_ok r K (m, s)"
  show "\<exists>s'. Some (f s) = Some s' \<and> shared_ok r K (m, s') \<and> shared_moves r F (m, s) (m, s')"
    using ok_frame [OF ok assms(2) [OF shared_okD(3) [OF ok]] assms(3,4)] by simp
qed

section \<open>Every call keeps the invariant\<close>

lemma keeps_set_entry:
  assumes "shared_ok r K ms" and "F key = Free"
    and "\<And>s. store_wf r s \<Longrightarrow> \<exists>e c. f s = Some (set_entry r key e (s\<lparr>s_now := c\<rparr>)) \<and> (\<forall>x. e = Some x \<longrightarrow> fits_key key x)"
  shows "keeps r K F (change f) ms"
proof (rule keeps_change [OF assms(1)])
  fix m s
  assume ok: "shared_ok r K (m, s)"
  obtain e c where e: "f s = Some (set_entry r key e (s\<lparr>s_now := c\<rparr>))" "\<forall>x. e = Some x \<longrightarrow> fits_key key x"
    using assms(3) [OF shared_okD(3) [OF ok]] by blast
  let ?s = "s\<lparr>s_now := c\<rparr>"
  have tick: "shared_ok r K (m, ?s)" "shared_moves r F (m, s) (m, ?s)"
    using shared_okD(3) [OF ok] by (auto intro!: ok_frame [OF ok] simp: store_wf_frame)
  show "\<exists>s'. f s = Some s' \<and> shared_ok r K (m, s') \<and> shared_moves r F (m, s) (m, s')"
    using ok_set_entry [OF tick(1), of e key F] e assms(2) pool.trans [OF tick(2)] by simp
qed

lemma keeps_WriteAt:
  assumes "shared_ok r K ms" and "F key = Free"
  shows "keeps r K F (change (WriteAt r key fs v at)) ms"
proof (rule keeps_set_entry [where F = F and key = key, OF assms])
  show "\<exists>e c. WriteAt r key fs v at s = Some (set_entry r key e (s\<lparr>s_now := c\<rparr>)) \<and> (\<forall>x. e = Some x \<longrightarrow> fits_key key x)"
    if "store_wf r s" for s
    using that by (intro exI [of _ "Some (written key fs v at)"] exI [of _ "s_now s"]) (simp add: WriteAt_eq)
qed

lemma keeps_Delete:
  assumes "shared_ok r K ms" and "F key = Free"
  shows "keeps r K F (change (Delete r key)) ms"
proof (rule keeps_set_entry [where F = F and key = key, OF assms])
  show "\<exists>e c. Delete r key s = Some (set_entry r key e (s\<lparr>s_now := c\<rparr>)) \<and> (\<forall>x. e = Some x \<longrightarrow> fits_key key x)"
    if "store_wf r s" for s
    using that by (intro exI [of _ None] exI [of _ "s_now s"]) (simp add: Delete_eq)
qed

lemma keeps_MergeWrite:
  "shared_ok r K ms \<Longrightarrow> F key = Free \<Longrightarrow> keeps r K F (change (MergeWrite r key patch names v)) ms"
  by (rule keeps_set_entry) (auto intro!: exI simp: MergeWrite_eq)

lemma keeps_reply: "shared_ok r K ms \<Longrightarrow> keeps r K F p ms \<Longrightarrow> keeps r K F (reply f p) ms"
  unfolding reply_def by (rule pool.keeps_seq) simp_all

text \<open>A read puts a view in the cache that is still the entity's, if the entity is fixed.\<close>

lemma keeps_fill:
  assumes ok: "shared_ok r K (m, s)" and "key \<in> K \<Longrightarrow> F key = Fixed" and v: "known m v"
    and snap: "snap = fresh r m s key v"
  shows "keeps r K F (change (\<lambda>s. Some (s\<lparr>s_cache := Cache_Put (s_cache s) key v snap\<rparr>))) (m, s)"
  unfolding change_def on_store_def
proof (rule pool.keeps_atomic [OF ok])
  fix t
  assume t: "shared_ok r K t" "shared_moves r F (m, s) t"
  obtain m' s' where [simp]: "t = (m', s')" by (cases t)
  note ok' = shared_okD [OF t(1) [simplified]]
  have re: "restates (m_versions m) (m_versions m')" using t(2) by (simp_all add: shared_moves_def)
  have ent: "entries r s' k = entries r s k" if "F k = Fixed" for k
  proof -
    have "held (F k) (entries r s k) (entries r s' k)" using t(2) by (simp add: shared_moves_def)
    with that show ?thesis by simp
  qed
  have v': "known m' v" using v known_restates [OF re] by simp
  let ?s = "s'\<lparr>s_cache := Cache_Put (s_cache s') key v snap\<rparr>"
  have "x = fresh r m' s' k w" if k: "k \<in> K" "known m' w"
      and get: "Cache_Get (Cache_Put (s_cache s') key v snap) k w = Some x" for k w x
  proof (cases "k = key \<and> w = v")
    case True
    then have "x = snap" using get read_cache.get_put known_no_at [OF ok'(2)] k(2) v' by simp
    then show ?thesis using True snap fresh_restates [OF re v ent] assms(2) k(1) by metis
  next
    case False
    then have "Cache_Get (s_cache s') k w = Some x"
      using get read_cache.get_put [OF known_no_at [OF ok'(2) v'] known_no_at [OF ok'(2) k(2)]] by metis
    then show ?thesis using ok'(4) k by blast
  qed
  then have "shared_ok r K (m', ?s)"
    using ok'(1-3) by (simp add: shared_ok_def store_wf_def cache_wf_Put)
  then show "\<exists>x u. (case t of (m, s) \<Rightarrow> map_option (\<lambda>(x, s). (x, (m, s)))
        (map_option (\<lambda>s. ((), s)) (Some (s\<lparr>s_cache := Cache_Put (s_cache s) key v snap\<rparr>)))) = Some (x, u) \<and>
      shared_ok r K u \<and> shared_moves r F t u"
    by (simp add: shared_moves_def)
qed

text \<open>The part of a read after the version is resolved.\<close>

definition look_up :: "Router \<Rightarrow> EntityKey \<Rightarrow> string \<Rightarrow> Snapshot call" where
  "look_up r key v =
     seq (atomic (\<lambda>(m, s). map_option
                (\<lambda>entry. (case entry of None \<Rightarrow> EmptySnapshot key v | Some e \<Rightarrow> entrySnapshot m e v, (m, s)))
                (read_entry r s key)))
       (\<lambda>snap. seq (change (\<lambda>s. Some (s\<lparr>s_cache := Cache_Put (s_cache s) key v snap\<rparr>)))
         (\<lambda>_. Return (Snapshot_Clone snap)))"

lemma ReadP_steps:
  "ReadP r key '''' =
     seq (on_manager (\<lambda>m. (resolveActiveVersionID m, m))) (\<lambda>v.
     seq (ask (\<lambda>s. Some (Cache_Get (s_cache s) key v))) (\<lambda>cached.
     case cached of Some snap \<Rightarrow> Return (Snapshot_Clone snap) | None \<Rightarrow> look_up r key v))"
  unfolding ReadP_def look_up_def by (simp only: refl if_True)

lemma keeps_look_up:
  assumes ok: "shared_ok r K (m, s)" and "key \<in> K \<Longrightarrow> F key = Fixed" and v: "known m v"
  shows "keeps r K F (look_up r key v) (m, s)"
  unfolding look_up_def
proof (rule pool.keeps_act [OF ok])
  fix u
  assume u: "shared_ok r K u" "shared_moves r F (m, s) u"
  obtain m' s' where [simp]: "u = (m', s')" by (cases u)
  have ok': "shared_ok r K (m', s')" and v': "known m' v"
    using u v known_moves by auto
  let ?snap = "fresh r m' s' key v"
  have "keeps r K F (seq (change (\<lambda>s. Some (s\<lparr>s_cache := Cache_Put (s_cache s) key v ?snap\<rparr>)))
       (\<lambda>_. Return (Snapshot_Clone ?snap))) u"
    unfolding \<open>u = (m', s')\<close>
    by (rule pool.keeps_seq [OF ok' keeps_fill [where F = F and key = key, OF ok' assms(2) v' refl]]) simp_all
  moreover have "(case u of (m, s) \<Rightarrow> map_option
          (\<lambda>entry. (case entry of None \<Rightarrow> EmptySnapshot key v | Some e \<Rightarrow> entrySnapshot m e v, (m, s)))
          (read_entry r s key)) = Some (?snap, u)"
    by (simp add: read_entry_wf [OF shared_okD(3) [OF ok']] fresh_def)
  ultimately show "\<exists>x u'. (case u of (m, s) \<Rightarrow> map_option
          (\<lambda>entry. (case entry of None \<Rightarrow> EmptySnapshot key v | Some e \<Rightarrow> entrySnapshot m e v, (m, s)))
          (read_entry r s key)) = Some (x, u') \<and> shared_ok r K u' \<and> shared_moves r F u u' \<and>
        keeps r K F (seq (change (\<lambda>s. Some (s\<lparr>s_cache := Cache_Put (s_cache s) key v x\<rparr>)))
          (\<lambda>_. Return (Snapshot_Clone x))) u'"
    using u(1) pool.refl [where s = u] by (intro exI [of _ ?snap] exI [of _ u] conjI)
qed

lemma keeps_ReadP:
  assumes "shared_ok r K ms" and "key \<in> K \<Longrightarrow> F key = Fixed"
  shows "keeps r K F (ReadP r key '''') ms"
  unfolding ReadP_steps on_manager_def
proof (rule pool.keeps_act [OF assms(1)])
  fix t
  assume t: "shared_ok r K t"
  obtain m s where [simp]: "t = (m, s)" by (cases t)
  note ok = t [simplified]
  let ?v = "resolveActiveVersionID m"
  let ?rest = "\<lambda>v. seq (ask (\<lambda>s. Some (Cache_Get (s_cache s) key v)))
      (\<lambda>cached. case cached of Some snap \<Rightarrow> Return (Snapshot_Clone snap) | None \<Rightarrow> look_up r key v)"
  have v: "known m ?v" using known_active [OF shared_okD(1) [OF ok]] .
  have "keeps r K F (?rest ?v) (m, s)"
  proof (rule keeps_seq_ask [OF ok])
    fix m' s'
    assume t': "shared_ok r K (m', s')" "shared_moves r F (m, s) (m', s')"
    then have "known m' ?v" using v known_moves by blast
    then show "\<exists>x. Some (Cache_Get (s_cache s') key ?v) = Some x \<and>
        keeps r K F (case x of Some snap \<Rightarrow> Return (Snapshot_Clone snap) | None \<Rightarrow> look_up r key ?v) (m', s')"
      using keeps_look_up [where F = F and key = key, OF t'(1) assms(2)] by (auto split: option.splits)
  qed
  then show "\<exists>x u. (case t of (m, s) \<Rightarrow> case (resolveActiveVersionID m, m) of (x, m) \<Rightarrow> Some (x, (m, s))) = Some (x, u) \<and>
      shared_ok r K u \<and> shared_moves r F t u \<and> keeps r K F (?rest x) u"
    using t pool.refl [where s = t] by (intro exI [of _ ?v] exI [of _ t] conjI) simp_all
qed


lemma keeps_WriteP:
  assumes "shared_ok r K ms" and "F key = Free"
  shows "keeps r K F (WriteP r key fs v) ms"
  unfolding WriteP_def
proof (rule pool.keeps_seq [OF assms(1)])
  show "keeps r K F read_clock ms"
    unfolding read_clock_def
  proof (rule keeps_on_store [OF assms(1)])
    fix m s
    assume ok: "shared_ok r K (m, s)"
    have "shared_ok r K (m, s\<lparr>s_now := c\<rparr>)" "shared_moves r F (m, s) (m, s\<lparr>s_now := c\<rparr>)" for c
      using shared_okD(3) [OF ok] by (auto intro!: ok_frame [OF ok] simp: store_wf_frame)
    then show "\<exists>x s'. (case tick (s_now s) of (at, clk) \<Rightarrow> Some (at, s\<lparr>s_now := clk\<rparr>)) = Some (x, s') \<and>
        shared_ok r K (m, s') \<and> shared_moves r F (m, s) (m, s')"
      by (auto split: prod.splits)
  qed
qed (rule keeps_WriteAt [where F = F and key = key, OF _ assms(2)])

lemma keeps_rollback_opsP:
  "shared_ok r K ms \<Longrightarrow> F = (\<lambda>_. Free) \<Longrightarrow> keeps r K F (rollback_opsP r ops seen) ms"
proof (induction r ops seen arbitrary: ms rule: rollback_opsP.induct)
  case (2 r op ops seen)
  then show ?case
    by (auto intro!: pool.keeps_seq keeps_Delete keeps_WriteAt split: option.splits)
qed simp

lemma keeps_RollbackBatchP:
  assumes "shared_ok r K ms" and "F = (\<lambda>_. Free)"
  shows "keeps r K F (RollbackBatchP r batch) ms"
  unfolding RollbackBatchP_def
proof (rule keeps_seq_ask [OF assms(1)])
  fix m s
  assume ok: "shared_ok r K (m, s)"
  have "keeps r K F (seq (rollback_opsP r ops {})
      (\<lambda>_. change (\<lambda>s. Some (s\<lparr>s_journal := Journal_Clear batch (s_journal s)\<rparr>)))) (m, s)" for ops
    by (rule pool.keeps_seq [OF ok keeps_rollback_opsP [OF ok assms(2)]], rule keeps_bookkeeping)
      (simp_all add: store_wf_def Journal_Clear_wf)
  then show "\<exists>x. Some (OpsFor (s_journal s) batch) = Some x \<and>
      keeps r K F (seq (rollback_opsP r x {})
        (\<lambda>_. change (\<lambda>s. Some (s\<lparr>s_journal := Journal_Clear batch (s_journal s)\<rparr>)))) (m, s)" by simp
qed

text \<open>Version switches: the flush of the cache comes after the switch, one identifier at a time.\<close>

lemma invalidated_frame:
  "Cache_Get (Cache_InvalidateVersion v c) k w = Some snap \<Longrightarrow> Cache_Get c k w = Some snap"
  "Cache_Get (Cache_ClearAll c) k w = Some snap \<Longrightarrow> Cache_Get c k w = Some snap"
  by (auto simp: Cache_Get_def Cache_InvalidateVersion_def Cache_ClearAll_def drop_entries_lookup
      split: option.splits if_splits)

lemma keeps_hook_callsP: "shared_ok r K ms \<Longrightarrow> keeps r K F (hook_callsP calls) ms"
proof (induction calls arbitrary: ms)
  case (Cons c calls)
  show ?case
    unfolding hook_callsP.simps
  proof (rule pool.keeps_seq [OF Cons.prems])
    show "keeps r K F (change (\<lambda>s. Some (case c of
          CallInvalidateVersion v \<Rightarrow> Store_InvalidateVersion v s
        | CallInvalidateAll \<Rightarrow> Store_InvalidateAll s))) ms"
    proof (rule keeps_bookkeeping [OF Cons.prems])
      fix s k v snap
      let ?s = "case c of CallInvalidateVersion v \<Rightarrow> Store_InvalidateVersion v s | CallInvalidateAll \<Rightarrow> Store_InvalidateAll s"
      show "s_shards ?s = s_shards s"
        by (cases c) (simp_all add: Store_InvalidateVersion_def Store_InvalidateAll_def)
      show "store_wf r ?s" if "store_wf r s"
        using that by (cases c) (simp_all add: Store_InvalidateVersion_def Store_InvalidateAll_def store_wf_def cache_wf_InvalidateVersion cache_wf_ClearAll)
      show "Cache_Get (s_cache s) k v = Some snap" if "Cache_Get (s_cache ?s) k v = Some snap"
        using that
        by (cases c) (auto simp: Store_InvalidateVersion_def Store_InvalidateAll_def dest: invalidated_frame)
    qed
  qed (rule Cons.IH)
qed simp

lemma keeps_switchP:
  assumes "shared_ok r K ms"
    and "\<And>m res m' calls. manager_wf m \<Longrightarrow> f m = (res, m', calls) \<Longrightarrow>
           manager_wf m' \<and> restates (m_versions m) (m_versions m')"
  shows "keeps r K F (switchP f) ms"
  unfolding switchP_def
proof (rule pool.keeps_seq [OF assms(1)])
  show "keeps r K F (on_manager (\<lambda>m. case f m of (res, m, calls) \<Rightarrow> ((res, calls), m))) ms"
    by (rule keeps_on_manager [OF assms(1)]) (auto dest: assms(2) split: prod.splits)
  show "keeps r K F (case x of (res, calls) \<Rightarrow> seq (hook_callsP calls) (\<lambda>_. Return res)) t"
    if "shared_ok r K t" for x t
    using that by (cases x) (auto intro!: pool.keeps_seq keeps_hook_callsP)
qed

lemma keeps_PublishP: "shared_ok r K ms \<Longrightarrow> keeps r K F (PublishP v) ms"
  unfolding PublishP_def by (erule keeps_switchP) (blast intro: Publish_wf restates_Publish)

lemma keeps_RollbackP: "shared_ok r K ms \<Longrightarrow> keeps r K F (RollbackP v) ms"
  unfolding RollbackP_def by (erule keeps_switchP) (blast intro: Rollback_wf restates_Rollback)

text \<open>Imports.\<close>

lemma keeps_writeRowP:
  assumes "shared_ok r K ms" and "F (row_Entity row) = Free"
  shows "keeps r K F (writeRowP r row ow v b seg) ms"
  unfolding writeRowP_def
proof (rule keeps_seq_ask [OF assms(1)])
  fix m s
  assume ok: "shared_ok r K (m, s)"
  let ?op = "\<lambda>before. \<lparr>op_BatchID = b, op_Segment = seg, op_Key = row_Entity row, op_Before = before\<rparr>"
  let ?merge = "change (MergeWrite r (row_Entity row) (build_patch row ow fmempty) ow v)"
  have "keeps r K F (seq (change (\<lambda>s. Some (s\<lparr>s_journal := Journal_Append (?op before) (s_journal s)\<rparr>)))
      (\<lambda>_. ?merge)) (m, s)" for before
    by (rule pool.keeps_seq [OF ok keeps_bookkeeping [OF ok]])
      (simp_all add: store_wf_def journal_wf_Append keeps_MergeWrite [where F = F and key = "row_Entity row", OF _ assms(2)])
  then show "\<exists>x. EntryFor r (row_Entity row) s = Some x \<and>
      keeps r K F (seq (change (\<lambda>s. Some (s\<lparr>s_journal := Journal_Append (?op x) (s_journal s)\<rparr>))) (\<lambda>_. ?merge)) (m, s)"
    using EntryFor_wf [OF shared_okD(3) [OF ok]] by blast
qed

lemma keeps_import_rowsP:
  "shared_ok r K ms \<Longrightarrow> \<forall>row \<in> set rows. F (row_Entity row) = Free \<Longrightarrow>
     keeps r K F (import_rowsP r ow v b rows segment batch) ms"
  by (induction r ow v b rows segment batch arbitrary: ms rule: import_rowsP.induct)
    (auto simp: Let_def intro!: pool.keeps_seq keeps_writeRowP)

lemma keeps_import_loopP:
  "0 < w \<Longrightarrow> shared_ok r K ms \<Longrightarrow> \<forall>row \<in> set rows. F (row_Entity row) = Free \<Longrightarrow>
     keeps r K F (import_loopP r w rows ow v b start batch) ms"
proof (induction r w rows ow v b start batch arbitrary: ms rule: import_loopP.induct)
  case (1 r w rows ow v b start batch)
  have part: "\<forall>row \<in> set (take n (drop start rows)). F (row_Entity row) = Free" for n
    using 1(4) by (auto dest: in_set_takeD in_set_dropD)
  show ?case
  proof (cases "start < length rows")
    case True
    with 1 show ?thesis
      by (subst import_loopP.simps) (simp add: Let_def pool.keeps_seq keeps_import_rowsP part)
  qed (simp add: import_loopP.simps)
qed

lemma keeps_ImportP:
  assumes "shared_ok r K ms" and "\<forall>row \<in> set rows. F (row_Entity row) = Free" and "0 < im_windowSize im"
    and "MustGet reg table \<noteq> None"
  shows "keeps r K F (ImportP r reg b table rows v now im) ms"
  using assms by (auto simp: ImportP_def intro!: pool.keeps_seq keeps_import_loopP)

text \<open>Backfills.\<close>

definition backs :: "Version \<Rightarrow> hold \<Rightarrow> bool" where
  "backs version h \<longleftrightarrow> h \<noteq> Fixed \<and> (h = Rising \<longrightarrow> v_ID version \<noteq> '''')"

lemma backs_held:
  "backs version h \<Longrightarrow> \<not> stale_write e (v_ID version) \<Longrightarrow> held h e (Some (written key fs (v_ID version) t))"
  by (cases h) (auto simp: backs_def stale_write_def written_def split: option.splits)

lemma keeps_CompareAndWrite:
  assumes "shared_ok r K ms" and "backs version (F key)"
  shows "keeps r K F (on_store (CompareAndWrite r key fs version)) ms"
proof (rule keeps_on_store [OF assms(1)])
  fix m s
  assume ok: "shared_ok r K (m, s)"
  let ?s = "s\<lparr>s_now := \<lambda>n. s_now s (Suc n)\<rparr>"
  let ?e = "written key fs (v_ID version) (s_now s 0)"
  have tick: "shared_ok r K (m, ?s)" "shared_moves r F (m, s) (m, ?s)"
    using shared_okD(3) [OF ok] by (auto intro!: ok_frame [OF ok] simp: store_wf_frame)
  have "shared_ok r K (m, set_entry r key (Some ?e) ?s)" "shared_moves r F (m, s) (m, set_entry r key (Some ?e) ?s)"
    if "\<not> stale_write (entries r s key) (v_ID version)"
    using ok_set_entry [OF tick(1), of "Some ?e" key F] backs_held [OF assms(2) that] pool.trans [OF tick(2)]
    by simp_all
  then show "\<exists>x s'. CompareAndWrite r key fs version s = Some (x, s') \<and> shared_ok r K (m, s') \<and>
      shared_moves r F (m, s) (m, s')"
    using ok by (auto simp: CompareAndWrite_eq [OF shared_okD(3) [OF ok]] shared_moves_def)
qed

lemma keeps_writeResultP:
  assumes "shared_ok r K ms" and "backs version (F (res_Entity row))"
  shows "keeps r K F (writeResultP r row version) ms"
  unfolding writeResultP_def Let_def
proof (rule keeps_seq_ask [OF assms(1)])
  fix m s
  assume ok: "shared_ok r K (m, s)"
  have "keeps r K F (seq (on_store (CompareAndWrite r (res_Entity row) fs version)) (\<lambda>ok. Return (ok, fs))) (m, s)" for fs
    by (rule pool.keeps_seq [OF ok keeps_CompareAndWrite [where F = F and key = "res_Entity row", OF ok assms(2)]]) simp
  then show "\<exists>x. EntryFor r (res_Entity row) s = Some x \<and>
      keeps r K F (seq (on_store (CompareAndWrite r (res_Entity row) (add_counters x (res_Fields row)) version))
        (\<lambda>ok. Return (ok, add_counters x (res_Fields row)))) (m, s)"
    using EntryFor_wf [OF shared_okD(3) [OF ok]] by blast
qed

lemma keeps_run_loopP:
  "shared_ok r K ms \<Longrightarrow> \<forall>k \<in> res_Entity ` set rows. backs version (F k) \<Longrightarrow> set keys \<subseteq> res_Entity ` set rows \<Longrightarrow>
     keeps r K F (run_loopP r version keys num task rows) ms"
proof (induction r version keys num task rows arbitrary: ms rule: run_loopP.induct)
  case (2 r version key keys num task rows)
  have key: "backs version (F (res_Entity (resultFor rows key)))"
    using 2(3,4) resultFor_Entity [of key rows] by auto
  have same: "res_Entity ` set (set_result key fs rows) = res_Entity ` set rows" for fs
    by (induction rows) auto
  show ?case
    unfolding run_loopP.simps
    by (rule pool.keeps_seq [OF 2(2) keeps_writeResultP [where F = F, OF 2(2) key]])
      (use 2 same in \<open>auto split: prod.splits\<close>)
qed simp


lemma keeps_RunP:
  "shared_ok r K ms \<Longrightarrow> \<forall>k \<in> res_Entity ` set rows. backs version (F k) \<Longrightarrow> keeps r K F (RunP r task version rows t1 t2 b) ms"
  by (auto simp: RunP_def plan_keys intro!: pool.keeps_seq keeps_run_loopP split: prod.splits)

lemma keeps_retry_loopP:
  "shared_ok r K ms \<Longrightarrow> \<forall>k \<in> res_Entity ` set rows. backs version (F k) \<Longrightarrow> set keys \<subseteq> res_Entity ` set rows \<Longrightarrow>
     keeps r K F (retry_loopP r task sig version keys num rows) ms"
proof (induction keys arbitrary: num rows ms)
  case (Cons key keys)
  let ?row = "resultFor rows key"
  let ?mark = "change (\<lambda>s. Some (s\<lparr>s_results := MarkCommitted task (res_Entity ?row) sig (s_results s)\<rparr>))"
  let ?skip = "retry_loopP r task sig version keys num rows"
  let ?next = "\<lambda>(ok, fs). if ok
      then seq ?mark (\<lambda>_. retry_loopP r task sig version keys (num + 1) (set_result key fs rows))
      else retry_loopP r task sig version keys num (set_result key fs rows)"
  have key: "backs version (F (res_Entity ?row))"
    using Cons.prems(2,3) resultFor_Entity [of key rows] by auto
  have rest: "keeps r K F (retry_loopP r task sig version keys n rows') ms"
    if "shared_ok r K ms" "res_Entity ` set rows' = res_Entity ` set rows" for n rows' ms
    by (rule Cons.IH [OF that(1)], unfold that(2)) (use Cons.prems in auto)
  have same: "res_Entity ` set (set_result key fs rows) = res_Entity ` set rows" for fs
    by (induction rows) auto
  have mark: "keeps r K F ?mark ms" if "shared_ok r K ms" for ms
    by (rule keeps_bookkeeping [OF that]) (simp_all add: store_wf_frame)
  have "keeps r K F (?next x) ms" if "shared_ok r K ms" for x ms
  proof (cases x)
    case (Pair ok fs)
    have "keeps r K F (seq ?mark (\<lambda>_. retry_loopP r task sig version keys (num + 1) (set_result key fs rows))) ms"
      by (rule pool.keeps_seq [OF that mark [OF that]]) (rule rest [OF _ same])
    then show ?thesis using Pair rest [OF that same] by simp
  qed
  then have "keeps r K F (if committed then ?skip else seq (writeResultP r ?row version) ?next) ms"
    if "shared_ok r K ms" for committed ms
    using rest [OF that refl] pool.keeps_seq [OF that keeps_writeResultP [where F = F, OF that key], where k = ?next] by simp
  then show ?case
    unfolding retry_loopP.simps Let_def by (intro keeps_seq_ask [OF Cons.prems(1)]) blast
qed simp

lemma keeps_RetryP:
  "shared_ok r K ms \<Longrightarrow> \<forall>k \<in> res_Entity ` set rows. backs version (F k) \<Longrightarrow> keeps r K F (RetryP r task version rows) ms"
  by (simp add: RetryP_def keeps_retry_loopP plan_keys)

text \<open>Expiry and checks go by what they find, key by key.\<close>

lemma keeps_ExpireKeyP:
  assumes "shared_ok r K ms" and "F = (\<lambda>_. Free)"
  shows "keeps r K F (ExpireKeyP r sc key now) ms"
  unfolding ExpireKeyP_def
proof (rule keeps_seq_ask [OF assms(1)])
  fix m s
  assume ok: "shared_ok r K (m, s)"
  have "keeps r K F (seq (change (Delete r key)) (\<lambda>_. Return True)) (m, s)"
    by (rule pool.keeps_seq [OF ok keeps_Delete [OF ok]]) (simp_all add: assms(2))
  then show "\<exists>x. WrittenAt r key s = Some x \<and>
      keeps r K F (case x of None \<Rightarrow> Return False
        | Some t \<Rightarrow> if \<not> IsExpired sc (time_sub now t) then Return False
                    else seq (change (Delete r key)) (\<lambda>_. Return True)) (m, s)"
    by (auto simp: WrittenAt_wf [OF shared_okD(3) [OF ok]] split: option.splits)
qed

lemma keeps_scan_keysP: "shared_ok r K ms \<Longrightarrow> F = (\<lambda>_. Free) \<Longrightarrow> keeps r K F (scan_keysP r sc now keys num) ms"
  by (induction r sc now keys num arbitrary: ms rule: scan_keysP.induct)
    (auto intro!: pool.keeps_seq keeps_ExpireKeyP)

lemma keeps_scan_shardsP:
  "shared_ok r K ms \<Longrightarrow> F = (\<lambda>_. Free) \<Longrightarrow> keeps r K F (scan_shardsP r iter sc now shards num) ms"
proof (induction r iter sc now shards num arbitrary: ms rule: scan_shardsP.induct)
  case (2 r iter sc now shard shards num)
  have "keeps r K F (seq (scan_keysP r sc now keys num) (scan_shardsP r iter sc now shards)) (m, s)"
    if "shared_ok r K (m, s)" for m s keys
    using 2 that by (auto intro!: pool.keeps_seq keeps_scan_keysP)
  then show ?case
    unfolding scan_shardsP.simps by (intro keeps_seq_ask [OF 2(2)]) blast
qed simp

lemma keeps_ScanP: "shared_ok r K ms \<Longrightarrow> F = (\<lambda>_. Free) \<Longrightarrow> keeps r K F (ScanP r iter sc now) ms"
  unfolding ScanP_def by (erule keeps_seq_ask) (simp add: keeps_scan_shardsP)

lemma keeps_compare_keysP:
  "shared_ok r K ms \<Longrightarrow> \<forall>k \<in> K. F k = Fixed \<Longrightarrow> keeps r K F (compare_keysP r w off keys diffs) ms"
proof (induction keys arbitrary: diffs ms)
  case (Cons key keys)
  let ?found = "\<lambda>online. compare_keysP r w off keys
      (diffs @ compare_fields key (w_Index w) online (off key) (Snapshot_FieldNames online))"
  have read: "keeps r K F (seq (ReadP r key '''') ?found) (m, s)" if "shared_ok r K (m, s)" for m s
    using Cons.prems(2) by (intro pool.keeps_seq keeps_ReadP that Cons.IH) auto
  show ?case
    unfolding compare_keysP.simps
  proof (rule keeps_seq_ask [OF Cons.prems(1)])
    fix m s
    assume ok: "shared_ok r K (m, s)"
    then show "\<exists>x. WrittenAt r key s = Some x \<and>
        keeps r K F (case x of None \<Rightarrow> compare_keysP r w off keys diffs
          | Some t \<Rightarrow> if t < w_Begin w \<or> \<not> t < w_End w then compare_keysP r w off keys diffs
                      else seq (ReadP r key '''') ?found) (m, s)"
      using read [OF ok] Cons.IH [OF ok Cons.prems(2)]
      by (auto simp: WrittenAt_wf [OF shared_okD(3) [OF ok]] split: option.splits)
  qed
qed simp

lemma keeps_compare_shardsP:
  "shared_ok r K ms \<Longrightarrow> \<forall>k \<in> K. F k = Fixed \<Longrightarrow> keeps r K F (compare_shardsP r iter w off shards diffs) ms"
proof (induction r iter w off shards diffs arbitrary: ms rule: compare_shardsP.induct)
  case (2 r iter w off shard shards diffs)
  have "keeps r K F (seq (compare_keysP r w off keys diffs) (compare_shardsP r iter w off shards)) (m, s)"
    if "shared_ok r K (m, s)" for m s keys
    using 2 that by (auto intro!: pool.keeps_seq keeps_compare_keysP)
  then show ?case
    unfolding compare_shardsP.simps by (intro keeps_seq_ask [OF 2(2)]) blast
qed simp

lemma keeps_compareWindowP: "shared_ok r K ms \<Longrightarrow> \<forall>k \<in> K. F k = Fixed \<Longrightarrow> keeps r K F (compareWindowP r iter w off) ms"
  unfolding compareWindowP_def by (erule keeps_seq_ask) (simp add: keeps_compare_shardsP)

lemma keeps_compare_windowsP:
  "shared_ok r K ms \<Longrightarrow> \<forall>k \<in> K. F k = Fixed \<Longrightarrow> keeps r K F (compare_windowsP r iter off ws diffs) ms"
  by (induction r iter off ws diffs arbitrary: ms rule: compare_windowsP.induct)
    (auto intro!: pool.keeps_seq keeps_compareWindowP)

lemma keeps_CheckP:
  assumes "shared_ok r K ms" and "\<forall>k \<in> K. F k = Fixed" and "0 < ck_step c"
  shows "keeps r K F (CheckP r c iter begin until off) ms"
proof (cases "until > begin")
  case True
  show ?thesis
    unfolding CheckP_def on_manager_def using True
  proof (simp, intro pool.keeps_act [OF assms(1)])
    fix t
    assume t: "shared_ok r K t"
    obtain m s where [simp]: "t = (m, s)" by (cases t)
    obtain ws where ws: "check_windows m c begin until = Some ws"
      using Partition_positive [OF assms(3)] True by (cases "check_windows m c begin until")
        (auto simp: check_windows_def Let_def split: if_splits)
    have "keeps r K F (seq (compare_windowsP r iter off ws []) (\<lambda>diffs. Return (Inr diffs))) (m, s)"
      using t assms(2) by (auto intro!: pool.keeps_seq keeps_compare_windowsP)
    with ws t pool.refl [where s = t]
    show "\<exists>x u. (case t of (m, s) \<Rightarrow> Some (check_windows m c begin until, m, s)) = Some (x, u) \<and>
        shared_ok r K u \<and> shared_moves r F t u \<and>
        keeps r K F (case x of None \<Rightarrow> panic
          | Some ws \<Rightarrow> seq (compare_windowsP r iter off ws []) (\<lambda>diffs. Return (Inr diffs))) u"
      by (intro exI [of _ "Some ws"] exI [of _ t]) simp
  qed
qed (simp add: CheckP_def)


section \<open>The pool\<close>

text \<open>An import needs its table: \<open>MustGet\<close> panics on an unknown one.\<close>

definition call_ok :: "World \<Rightarrow> Call \<Rightarrow> bool" where
  "call_ok w c \<longleftrightarrow>
     (\<forall>batch table rows v now. c = CallImport batch table rows v now \<longrightarrow> Registry_Get (w_tables w) table \<noteq> None)"

lemma call_keeps:
  assumes "shared_ok (w_router w) K ms" and "0 < im_windowSize (w_importer w)" and "0 < ck_step (w_checker w)"
    and "call_ok w c" and "\<And>k. changes c k \<Longrightarrow> F k = Free \<or> F k = Rising \<and> backfills c"
    and "\<And>k. reads c k \<Longrightarrow> k \<in> K \<Longrightarrow> F k = Fixed"
  shows "keeps (w_router w) K F (call_prog rt w c) ms"
proof (cases c)
  case (CallRead key)
  then show ?thesis using assms(1,6) by (auto intro!: keeps_reply keeps_ReadP)
next
  case (CallWrite key fs v)
  then show ?thesis using assms(1,5) by (auto intro!: keeps_reply keeps_WriteP)
next
  case (CallImport batch table rows v now)
  then have "\<forall>row \<in> set rows. F (row_Entity row) = Free" "MustGet (w_tables w) table \<noteq> None"
    using assms(4,5) by (auto simp: call_ok_def MustGet_def split: option.splits)
  with CallImport assms(1,2) show ?thesis by (auto intro!: keeps_reply keeps_ImportP)
next
  case (CallUndo batch)
  then have "F = (\<lambda>_. Free)" using assms(5) by auto
  with CallUndo assms(1) show ?thesis by (auto intro!: keeps_reply keeps_RollbackBatchP)
next
  case (CallRun task version rows t1 t2)
  then have "\<forall>k \<in> res_Entity ` set rows. backs version (F k)"
    using assms(5) by (fastforce simp: backs_def)
  with CallRun assms(1) show ?thesis by (auto intro!: keeps_reply keeps_RunP)
next
  case (CallRetry task version rows)
  then have "\<forall>k \<in> res_Entity ` set rows. backs version (F k)"
    using assms(5) by (fastforce simp: backs_def)
  with CallRetry assms(1) show ?thesis by (auto intro!: keeps_reply keeps_RetryP)
next
  case (CallCheck b u)
  then have "\<forall>k \<in> K. F k = Fixed" using assms(6) by auto
  with CallCheck assms(1,3) show ?thesis by (auto intro!: keeps_reply keeps_CheckP)
next
  case (CallScan now)
  then have "F = (\<lambda>_. Free)" using assms(5) by auto
  with CallScan assms(1) show ?thesis by (auto intro!: keeps_reply keeps_ScanP)
qed (use assms(1) in \<open>auto intro!: keeps_reply keeps_PublishP keeps_RollbackP\<close>)

lemma sound_shared_ok: "sound r True (m, s) \<Longrightarrow> shared_ok r K (m, s)"
  by (auto simp: shared_ok_def sound_def coherent_def visible_def cache_agrees_def)

lemma pool_run:
  assumes "shared_ok (w_router w) K ms" and "0 < im_windowSize (w_importer w)" and "0 < ck_step (w_checker w)"
    and "\<And>c. c \<in> set calls \<Longrightarrow> call_ok w c"
    and "\<And>c k. c \<in> set calls \<Longrightarrow> changes c k \<Longrightarrow> F k = Free \<or> F k = Rising \<and> backfills c"
    and "\<And>c k. c \<in> set calls \<Longrightarrow> reads c k \<Longrightarrow> k \<in> K \<Longrightarrow> F k = Fixed"
    and "pool_step\<^sup>*\<^sup>* (map (call_prog rt w) calls, ms) (ps, ms')"
  shows "shared_ok (w_router w) K ms'" "shared_moves (w_router w) F ms ms'" "calm ps ms'"
proof -
  have "\<forall>p \<in> set (map (call_prog rt w) calls). keeps (w_router w) K F p ms"
    using assms(4-6) by (auto intro!: call_keeps [OF assms(1-3)])
  from pool.pool_keeps [OF assms(1) this assms(7)]
  show "shared_ok (w_router w) K ms'" "shared_moves (w_router w) F ms ms'" "calm ps ms'" .
qed

section \<open>Properties\<close>

text \<open>A server for the witnesses, with a written entity, and calls that have made one step.\<close>

definition demo_world :: World where
  "demo_world =
     \<lparr>w_tables = seeded, w_versions = demo_published, w_router = demo_router, w_store = demo_written,
      w_importer = NewImporter 32, w_backfill = NewBackfill, w_checker = NewChecker 1,
      w_scanner = NewScanner 1, w_startedAt = 0, w_now = int\<rparr>"

lemma demo_world_simps [simp]:
  "w_tables demo_world = seeded" "w_versions demo_world = demo_published"
  "w_router demo_world = demo_router" "w_store demo_world = demo_written"
  "0 < im_windowSize (w_importer demo_world)" "0 < ck_step (w_checker demo_world)"
  by (simp_all add: demo_world_def NewImporter_def NewChecker_def)

lemma world_ok_demo: "world_ok demo_world"
  using registry_wf_seeded clean_seeded sound_demo by (simp add: world_ok_def)

lemma write_waits [simp]: "call_prog rt w (CallWrite key fs v) \<noteq> Return x"
  by (simp add: reply_def WriteP_def read_clock_def on_store_def atomic_def)

lemma run_waits [simp]:
  "call_prog rt w (CallRun ''t'' version [row] t1 t2) \<noteq> Return x"
  by (simp add: reply_def RunP_def BuildPlan_def writeResultP_def ask_def on_store_def atomic_def)

lemma demo_starts:
  assumes "\<forall>c \<in> set (c # calls). call_ok demo_world c" and "\<And>x. call_prog rt demo_world c \<noteq> Return x"
  shows "\<exists>ps m s. pool_step (map (call_prog rt demo_world) (c # calls), (demo_published, demo_written)) (ps, (m, s))"
proof -
  let ?ps = "map (call_prog rt demo_world) (c # calls)"
  have "calm ?ps (demo_published, demo_written)"
  proof (rule pool_run(3) [where w = demo_world and K = "{}" and F = "\<lambda>_. Free", OF _ _ _ _ _ _ rtranclp.rtrancl_refl])
    show "shared_ok (w_router demo_world) {} (demo_published, demo_written)"
      using sound_shared_ok [OF sound_demo] by simp
    show "call_ok demo_world d" if "d \<in> set (c # calls)" for d using assms(1) that by blast
  qed simp_all
  moreover have "\<not> answered_all ?ps" using assms(2) by (simp add: answered_all_def)
  ultimately obtain t where "pool_step (?ps, (demo_published, demo_written)) t"
    using calm_goes_on [of ?ps "(demo_published, demo_written)"] by blast
  then show ?thesis by (metis surj_pair)
qed

text \<open>Any calls at the same time, cut at the locks and in any order, come to an end with an answer each:
  at every point of every run no call is about to panic, as long as imports name tables that exist,
  and there is no infinite run. A maximal run has all answers.\<close>

theorem calls_in_parallel_answer:
  assumes "world_ok w" and "\<forall>c \<in> set calls. call_ok w c"
    and "pool_step\<^sup>*\<^sup>* (map (call_prog rt w) calls, (w_versions w, w_store w)) (ps, ms)"
  shows "calm ps ms \<and> (answered_all ps \<or> (\<exists>c. pool_step (ps, ms) c)) \<and>
         wf {(c', c :: Reply call list \<times> Shared). pool_step c c'}"
proof -
  note ok = world_okD [OF assms(1)]
  have "shared_ok (w_router w) {} (w_versions w, w_store w)"
    using assms(1) by (auto simp: world_ok_def sound_def shared_ok_def)
  then have "calm ps ms"
    using assms(1,2) by (intro pool_run(3) [OF _ _ _ _ _ _ assms(3), where K = "{}" and F = "\<lambda>_. Free"])
      (simp_all add: world_ok_def)
  then show ?thesis using calm_goes_on [of ps ms] pool_terminates by (intro conjI) auto
qed

definition demo_calls :: "Call list" where
  "demo_calls =
     [CallWrite (EntityKey ''user_2'') demo_fields ''w'', CallRead demo_user, CallPublish ''v'']"

lemma calls_in_parallel_answer_witness:
  "\<exists>ps ms. pool_step (map (call_prog demo_runtime demo_world) demo_calls, (demo_published, demo_written)) (ps, ms) \<and>
     calm ps ms \<and> (answered_all ps \<or> (\<exists>c. pool_step (ps, ms) c))"
proof -
  have ok: "\<forall>c \<in> set demo_calls. call_ok demo_world c" by (simp add: demo_calls_def call_ok_def)
  obtain ps m s where "pool_step (map (call_prog demo_runtime demo_world) demo_calls, (demo_published, demo_written)) (ps, (m, s))"
    using demo_starts [OF ok [unfolded demo_calls_def] write_waits] unfolding demo_calls_def by blast
  with calls_in_parallel_answer [OF world_ok_demo ok, of demo_runtime ps "(m, s)"] show ?thesis
    by (intro exI [of _ ps] exI [of _ "(m, s)"]) (simp add: r_into_rtranclp)
qed

text \<open>C4: Reads without a race are never stale: at every point of every run of any calls, a read of an
  entity answers with what its entry gives under the active version, provided the calls do not
  hold both a read of that entity and a change of it. Publications and rollbacks of versions may
  run at the same time, though they flush the cache only after the switch.\<close>

theorem race_free_reads_never_stale:
  assumes "sound (w_router w) True (w_versions w, w_store w)"
    and "0 < im_windowSize (w_importer w)" and "0 < ck_step (w_checker w)"
    and "\<forall>c \<in> set calls. call_ok w c" and "race_free calls k"
    and "pool_step\<^sup>*\<^sup>* (map (call_prog rt w) calls, (w_versions w, w_store w)) (ps, (m, s))"
  shows "map_option fst (Read (w_router w) m k s) = Some (fresh (w_router w) m s k (resolveActiveVersionID m))"
proof -
  let ?F = "\<lambda>j. if j \<noteq> k \<or> (\<exists>c \<in> set calls. changes c k) then Free else Fixed"
  have "shared_ok (w_router w) {k} (m, s)"
  proof (rule pool_run(1) [OF sound_shared_ok [OF assms(1)] assms(2,3) _ _ _ assms(6), where F = ?F])
    show "call_ok w c" if "c \<in> set calls" for c using assms(4) that by blast
    show "?F j = Free \<or> ?F j = Rising \<and> backfills c" if "c \<in> set calls" "changes c j" for c j using that by auto
    show "?F j = Fixed" if "c \<in> set calls" "reads c j" "j \<in> {k}" for c j
      using that assms(5) by (auto simp: race_free_def)
  qed
  note m = shared_okD [OF this]
  have "known m (resolveActiveVersionID m)" using known_active [OF m(1)] .
  then show ?thesis
    using m(4) [of k "resolveActiveVersionID m"]
    by (auto simp: Read_def read_cached_def read_entry_wf [OF m(3)] fresh_def Let_def split: option.splits)
qed


lemma race_free_reads_never_stale_witness:
  "\<exists>ps m s. pool_step (map (call_prog demo_runtime demo_world) demo_calls, (demo_published, demo_written)) (ps, (m, s)) \<and>
     race_free demo_calls demo_user \<and>
     map_option fst (Read demo_router m demo_user s) = Some (fresh demo_router m s demo_user (resolveActiveVersionID m))"
proof -
  have ok: "\<forall>c \<in> set demo_calls. call_ok demo_world c" by (simp add: demo_calls_def call_ok_def)
  obtain ps m s where run: "pool_step (map (call_prog demo_runtime demo_world) demo_calls, (demo_published, demo_written)) (ps, (m, s))"
    using demo_starts [OF ok [unfolded demo_calls_def] write_waits] unfolding demo_calls_def by blast
  have free: "race_free demo_calls demo_user" by (simp add: race_free_def demo_calls_def demo_user_def)
  have "sound (w_router demo_world) True (w_versions demo_world, w_store demo_world)" using sound_demo by simp
  from race_free_reads_never_stale [OF this _ _ ok free, of demo_runtime ps m s] run free show ?thesis
    by auto
qed

text \<open>C25: The version guard holds at any moment of any run: while only backfills under versions with an
  identifier change an entity, which is itself stored under one, however many run and retry at the
  same time, its entry is never replaced by one of lower rank, and never lost. \<open>CompareAndWrite\<close>
  compares and writes under one lock. An entry with an empty identifier has no guard: the code lets
  any version replace it.\<close>

theorem guard_holds_in_parallel:
  assumes "world_ok w" and "\<forall>c \<in> set calls. call_ok w c"
    and "\<forall>c \<in> set calls. changes c k \<longrightarrow> backfills c"
    and "pool_step\<^sup>*\<^sup>* (map (call_prog rt w) calls, (w_versions w, w_store w)) (ps, (m, s))"
    and "entries (w_router w) (w_store w) k = Some e" and "e_VersionID e \<noteq> ''''"
  shows "\<exists>e'. entries (w_router w) s k = Some e' \<and>
              sint (versionRank (e_VersionID e)) \<le> sint (versionRank (e_VersionID e'))"
proof -
  let ?F = "\<lambda>j. if j = k then Rising else Free"
  have "shared_ok (w_router w) {} (w_versions w, w_store w)"
    using assms(1) by (auto simp: world_ok_def sound_def shared_ok_def)
  then have "shared_moves (w_router w) ?F (w_versions w, w_store w) (m, s)"
    by (rule pool_run(2) [OF _ _ _ _ _ _ assms(4)]) (use assms(1-3) in \<open>auto simp: world_ok_def\<close>)
  then have "\<forall>j. held (?F j) (entries (w_router w) (w_store w) j) (entries (w_router w) s j)"
    by (simp only: shared_moves_def fst_conv snd_conv simp_thms)
  from spec [OF this, of k] assms(5,6) show ?thesis by (auto simp: versionNewer_def)
qed


lemma guard_holds_in_parallel_witness:
  "\<exists>ps m s e'. pool_step (map (call_prog demo_runtime demo_world)
        [CallRun ''t'' (demo_version 11) [demo_result demo_user 5] 0 1, CallRead demo_user],
      (demo_published, demo_written)) (ps, (m, s)) \<and>
     entries demo_router s demo_user = Some e' \<and>
     sint (versionRank (version_id ''t'' 10)) \<le> sint (versionRank (e_VersionID e'))"
proof -
  let ?calls = "[CallRun ''t'' (demo_version 11) [demo_result demo_user 5] 0 1, CallRead demo_user]"
  have ok: "\<forall>c \<in> set ?calls. call_ok demo_world c" by (simp add: call_ok_def)
  obtain ps m s where run: "pool_step (map (call_prog demo_runtime demo_world) ?calls, (demo_published, demo_written)) (ps, (m, s))"
    using demo_starts [OF ok run_waits] by blast
  have backs: "\<forall>c \<in> set ?calls. changes c demo_user \<longrightarrow> backfills c"
    by (simp add: demo_version_def version_id_def)
  have "entries (w_router demo_world) (w_store demo_world) demo_user =
      Some (written demo_user demo_fields (version_id ''t'' 10) 1000)"
    by (simp add: entries_demo_written)
  from guard_holds_in_parallel [OF world_ok_demo ok backs _ this, of demo_runtime ps m s] run
  show ?thesis by (auto simp: written_def version_id_def)
qed


end
