(* ===== verification/Races.thy ===== *)
theory Races
  imports Interleaving
begin

text \<open>
  Promises that calls lose when others run at the same time: runs of two calls whose outcome no
  order of the two gives. A row that is being imported escapes the rollback of its batch, a scan
  deletes an entry that has just been written, two retries of a task count twice, two runs over one
  entity lose an update.
\<close>

section \<open>The first steps of the calls\<close>

lemma on_store_Step:
  "on_store f = Step (\<lambda>(m, s). map_option (\<lambda>(x, s). (Return x, (m, s))) (f s))"
  by (auto simp: on_store_def atomic_def fun_eq_iff option.map_comp intro!: option.map_cong)

lemma seq_on_store:
  "seq (on_store f) k = Step (\<lambda>(m, s). map_option (\<lambda>(x, s). (k x, (m, s))) (f s))"
  by (auto simp: on_store_Step fun_eq_iff option.map_comp intro!: option.map_cong)

lemma reply_seq: "reply f (seq p k) = seq p (\<lambda>x. reply f (k x))"
  by (simp add: reply_def seq_assoc)

lemma alone_reply: "alone p ms = Some (x, ms') \<Longrightarrow> alone (reply f p) ms = Some (f x, ms')"
  by (simp add: reply_def)

section \<open>Rolling back a batch that is still being imported\<close>

lemma RollbackBatch_returns:
  assumes "store_wf r s" and "journal_sound s"
  shows "\<exists>s'. RollbackBatch r b s = Some s' \<and> store_wf r s' \<and> OpsFor (s_journal s') b = []"
proof -
  let ?log = "undo_log (OpsFor (s_journal s) b)"
  let ?base = "\<lambda>k. case map_of ?log k of None \<Rightarrow> entries r s k | Some e \<Rightarrow> e"
  have "records ?log ?base (entries r s)" by (simp add: records_def)
  then obtain s' where "RollbackBatch r b s = Some s'" "store_wf r s'"
    using RollbackBatch_restores [OF assms] by blast
  then show ?thesis using RollbackBatch_eq [OF assms, of b] by (auto simp: OpsFor_Clear)
qed

lemma writeRowP_begins:
  fixes row b seg
  assumes "store_wf r s"
  defines "s1 \<equiv> s\<lparr>s_journal := Journal_Append (row_op row b seg (entries r s (row_Entity row))) (s_journal s)\<rparr>"
  shows "pool_step\<^sup>*\<^sup>* ([writeRowP r row ow v b seg, p], (m, s))
     ([change (MergeWrite r (row_Entity row) (build_patch row ow fmempty) ow v), p], (m, s1))"
proof -
  let ?merge = "change (MergeWrite r (row_Entity row) (build_patch row ow fmempty) ow v)"
  let ?append = "\<lambda>before. change (\<lambda>s. Some (s\<lparr>s_journal := Journal_Append (row_op row b seg before) (s_journal s)\<rparr>))"
  have "writeRowP r row ow v b seg = seq (ask (EntryFor r (row_Entity row))) (\<lambda>before. seq (?append before) (\<lambda>_. ?merge))"
    by (simp add: writeRowP_def row_op_def)
  moreover have "pool_step ([\<dots>, p], (m, s)) ([seq (?append (entries r s (row_Entity row))) (\<lambda>_. ?merge), p], (m, s))"
    unfolding ask_def seq_on_store by (rule pool_left) (simp add: EntryFor_wf [OF assms(1)])
  moreover have "pool_step ([seq (?append (entries r s (row_Entity row))) (\<lambda>_. ?merge), p], (m, s)) ([?merge, p], (m, s1))"
    unfolding change_def seq_on_store by (rule pool_left) (simp add: s1_def)
  ultimately show ?thesis by (metis (no_types, lifting) converse_rtranclp_into_rtranclp r_into_rtranclp)
qed

text \<open>C36: A row that is being written escapes the rollback of its batch: when the rollback falls between the
  row's journal record and its merge, it undoes and forgets the record, and the merge lands after
  it. Both calls return, the row's fields are in the store under the import's version, and the
  journal has no record left to undo them with.\<close>

theorem rollback_misses_row_in_flight:
  assumes "store_wf r s" and "journal_sound s"
  shows "\<exists>ms. pool_step\<^sup>*\<^sup>* ([writeRowP r row ow v b seg, RollbackBatchP r b], (m, s)) ([Return (), Return ()], ms) \<and>
     map_option e_VersionID (entries r (snd ms) (row_Entity row)) = Some v \<and>
     (\<forall>n \<in> set ow. field_of r (snd ms) (row_Entity row) n = fmlookup (row_Fields row) n) \<and>
     OpsFor (s_journal (snd ms)) b = []"
proof -
  let ?key = "row_Entity row"
  let ?s = "s\<lparr>s_journal := Journal_Append (row_op row b seg (entries r s ?key)) (s_journal s)\<rparr>"
  have wf: "store_wf r ?s"
    using assms(1) by (intro store_wf_journal journal_wf_Append store_wfD(4))
  have "op_fits (row_op row b seg (entries r s ?key))"
    using entries_Key [OF assms(1)] by (simp add: op_fits_def row_op_def fits_key_def)
  then have "journal_sound ?s" using assms(2) by (auto simp: journal_sound_def Journal_Append_def)
  then obtain s1 where s1: "RollbackBatch r b ?s = Some s1" "store_wf r s1" "OpsFor (s_journal s1) b = []"
    using RollbackBatch_returns [OF wf] by blast
  obtain s2 where s2: "MergeWrite r ?key (build_patch row ow fmempty) ow v s1 = Some s2"
    "entries r s2 ?key = Some (written ?key
       (merge_fields (build_patch row ow fmempty) ow (old_fields (entries r s1 ?key))) v (s_now s1 0))"
    "s_journal s2 = s_journal s1"
    using MergeWrite_eq [OF s1(2)] entries_set_entry [of r "s1\<lparr>s_now := \<lambda>n. s_now s1 (Suc n)\<rparr>"] s1(2)
    by (auto simp: store_wf_frame)
  let ?merge = "change (MergeWrite r ?key (build_patch row ow fmempty) ow v)"
  have "pool_step\<^sup>*\<^sup>* ([?merge, RollbackBatchP r b], (m, ?s)) ([?merge, Return ()], (m, s1))"
    by (rule pool_right_alone) (simp add: alone_RollbackBatchP s1(1))
  moreover have "pool_step\<^sup>*\<^sup>* ([?merge, Return ()], (m, s1)) ([Return (), Return ()], (m, s2))"
    by (rule pool_left_alone) (simp add: s2(1))
  ultimately have "pool_step\<^sup>*\<^sup>* ([writeRowP r row ow v b seg, RollbackBatchP r b], (m, s)) ([Return (), Return ()], (m, s2))"
    using writeRowP_begins [OF assms(1), of row ow v b seg "RollbackBatchP r b" m] by (meson rtranclp_trans)
  then show ?thesis
    using s2(2,3) s1(3)
    by (intro exI [of _ "(m, s2)"]) (simp add: field_of_def written_def merge_fields_lookup build_patch_window)
qed

lemma rollback_misses_row_in_flight_witness:
  "\<exists>ms. pool_step\<^sup>*\<^sup>*
       ([writeRowP demo_router (hd demo_rows) [''age''] ''w'' ''b'' 0, RollbackBatchP demo_router ''b''],
        (demo_published, demo_written)) ([Return (), Return ()], ms) \<and>
     field_of demo_router (snd ms) demo_user ''age'' = Some (IntValue 41) \<and> OpsFor (s_journal (snd ms)) ''b'' = []"
proof -
  have "journal_sound demo_written" using soundD(5) [OF sound_demo] .
  from rollback_misses_row_in_flight [OF store_wf_demo_written this, of "hd demo_rows" "[''age'']" "''w''" "''b''" 0 demo_published]
  show ?thesis by (auto simp: demo_rows_def)
qed

section \<open>Expiring an entry that is being written\<close>

text \<open>C37: A scan may delete an entry that has just been written: a write that falls between the scan's look
  at the old entry and its removal is lost, although what it wrote is not expired and both calls
  return. Whichever of the two ran first alone, the written entry would be kept.\<close>

theorem scan_deletes_overlapping_write:
  assumes "store_wf r s" and "expired_in r sc now s key"
    and "\<not> expired sc now (written key fs v (s_now s 0))"
  shows "(\<exists>ms. pool_step\<^sup>*\<^sup>* ([reply (\<lambda>_. ReplyDone) (ExpireKeyP r sc key now), reply (\<lambda>_. ReplyDone) (WriteP r key fs v)], (m, s))
            ([Return ReplyDone, Return ReplyDone], ms) \<and> entries r (snd ms) key = None) \<and>
         (\<exists>s1 s2. ExpireKey r sc key now s = Some (True, s1) \<and> Write r key fs v s1 = Some s2 \<and>
            entries r s2 key = Some (written key fs v (s_now s 0))) \<and>
         (\<exists>s1. Write r key fs v s = Some s1 \<and> ExpireKey r sc key now s1 = Some (False, s1) \<and>
            entries r s1 key = Some (written key fs v (s_now s 0)))"
proof (intro conjI)
  let ?tick = "s\<lparr>s_now := \<lambda>n. s_now s (Suc n)\<rparr>" and ?e = "written key fs v (s_now s 0)"
  let ?w = "set_entry r key (Some ?e) ?tick"
  let ?expire = "reply (\<lambda>_. ReplyDone) (ExpireKeyP r sc key now)"
  let ?put = "reply (\<lambda>_. ReplyDone) (WriteP r key fs v)"
  let ?delete = "reply (\<lambda>_. ReplyDone) (seq (change (Delete r key)) (\<lambda>_. Return True))"
  have tick: "store_wf r ?tick" using assms(1) by (simp add: store_wf_frame)
  have wf: "store_wf r ?w" using tick by (rule store_wf_set_entry) auto
  have w: "Write r key fs v s = Some ?w" using Write_eq [OF assms(1)] .
  have e: "entries r ?w key = Some ?e" using entries_set_entry [OF tick] by simp
  obtain old where old: "entries r s key = Some old" "expired sc now old"
    using assms(2) by (auto simp: expired_in_def)
  have "pool_step ([?expire, ?put], (m, s)) ([?delete, ?put], (m, s))"
    unfolding ExpireKeyP_def reply_seq unfolding ask_def seq_on_store
    by (rule pool_left) (use old in \<open>simp add: WrittenAt_wf [OF assms(1)] expired_def reply_seq\<close>)
  moreover have "pool_step\<^sup>*\<^sup>* ([?delete, ?put], (m, s)) ([?delete, Return ReplyDone], (m, ?w))"
    by (rule pool_right_alone) (simp add: alone_reply alone_WriteP w)
  moreover have "pool_step\<^sup>*\<^sup>* ([?delete, Return ReplyDone], (m, ?w)) ([Return ReplyDone, Return ReplyDone], (m, set_entry r key None ?w))"
    by (rule pool_left_alone) (simp add: alone_reply Delete_eq [OF wf])
  ultimately have "pool_step\<^sup>*\<^sup>* ([?expire, ?put], (m, s)) ([Return ReplyDone, Return ReplyDone], (m, set_entry r key None ?w))"
    by (meson converse_rtranclp_into_rtranclp rtranclp_trans)
  moreover have "entries r (set_entry r key None ?w) key = None" using entries_set_entry [OF wf] by simp
  ultimately show "\<exists>ms. pool_step\<^sup>*\<^sup>* ([?expire, ?put], (m, s)) ([Return ReplyDone, Return ReplyDone], ms) \<and>
      entries r (snd ms) key = None" by (metis snd_conv)
  show "\<exists>s1. Write r key fs v s = Some s1 \<and> ExpireKey r sc key now s1 = Some (False, s1) \<and>
      entries r s1 key = Some ?e"
    using w e assms(3) by (simp add: ExpireKey_wf [OF wf] expired_in_def)
  let ?d = "set_entry r key None s"
  have d: "store_wf r ?d" using assms(1) by (rule store_wf_remove)
  have "entries r (set_entry r key (Some ?e) (?d\<lparr>s_now := \<lambda>n. s_now ?d (Suc n)\<rparr>)) key = Some ?e"
    using entries_set_entry [of r "?d\<lparr>s_now := \<lambda>n. s_now ?d (Suc n)\<rparr>"] d by (simp add: store_wf_frame)
  then show "\<exists>s1 s2. ExpireKey r sc key now s = Some (True, s1) \<and> Write r key fs v s1 = Some s2 \<and>
      entries r s2 key = Some ?e"
    using ExpireKey_wf [OF assms(1), of sc key now] assms(2) Write_eq [OF d] by simp
qed

lemma scan_deletes_overlapping_write_witness:
  "\<exists>ms. pool_step\<^sup>*\<^sup>* ([reply (\<lambda>_. ReplyDone) (ExpireKeyP demo_router (NewScanner 5) demo_user 1006),
        reply (\<lambda>_. ReplyDone) (WriteP demo_router demo_user demo_fields ''w'')],
       (demo_published, demo_written\<lparr>s_now := \<lambda>n. 1004\<rparr>)) ([Return ReplyDone, Return ReplyDone], ms) \<and>
     entries demo_router (snd ms) demo_user = None"
proof -
  let ?s = "demo_written\<lparr>s_now := \<lambda>n. 1004\<rparr>"
  have "store_wf demo_router ?s" using store_wf_demo_written by (simp add: store_wf_frame)
  moreover have "expired_in demo_router (NewScanner 5) 1006 ?s demo_user"
    by (simp add: expired_in_def expired_def entries_demo_written written_def IsExpired_def NewScanner_def time_sub_def
        duration_min_def duration_max_def)
  moreover have "\<not> expired (NewScanner 5) 1006 (written demo_user demo_fields ''w'' (s_now ?s 0))"
    by (simp add: expired_def written_def IsExpired_def NewScanner_def time_sub_def duration_min_def duration_max_def)
  ultimately show ?thesis using scan_deletes_overlapping_write by blast
qed


section \<open>Two retries of the same task\<close>

text \<open>What a retry of one row does once it has seen that the row is not committed.\<close>

definition retry_write :: "Router \<Rightarrow> string \<Rightarrow> string \<Rightarrow> Version \<Rightarrow> Result \<Rightarrow> (nat \<times> Result list) call" where
  "retry_write r t sig version row =
     seq (writeResultP r row version) (\<lambda>(ok, fs).
       let rows = set_result (res_Entity row) fs [row] in
       if ok
       then seq (change (\<lambda>s. Some (s\<lparr>s_results := MarkCommitted t (res_Entity row) sig (s_results s)\<rparr>))) (\<lambda>_.
            Return (1, rows))
       else Return (0, rows))"

lemma RetryP_one:
  "RetryP r t version [row] =
     seq (ask (\<lambda>s. Some (IsCommitted t (res_Entity row) (Signature t [row]) (s_results s)))) (\<lambda>committed.
     if committed then Return (0, [row]) else retry_write r t (Signature t [row]) version row)"
  unfolding RetryP_def BuildPlan_def retry_write_def by (simp add: Let_def cong: if_cong)

lemma alone_retry_write:
  assumes "store_wf r s" and "accepted r version s (res_Entity row)"
  shows "\<exists>rows s'. alone (retry_write r t sig version row) (m, s) = Some ((1, rows), (m, s')) \<and> store_wf r s' \<and>
           entries r s' = (entries r s)(res_Entity row \<mapsto> result_entry r version s row)"
proof -
  let ?s = "after_result r version row s"
  have "store_wf r (?s\<lparr>s_results := c\<rparr>)" for c using after_result(1) [OF assms(1)] by (simp add: store_wf_frame)
  then show ?thesis
    using assms(2) after_result(2) [OF assms(1)]
    by (simp add: retry_write_def alone_writeResultP writeResult_wf [OF assms(1)] Let_def)
qed

text \<open>C38: Two retries of one task that overlap count twice: if both look before either has marked its row as
  committed, both add the row to the stored counter and report it written, although a retry must
  never write a result that an earlier attempt has committed.\<close>

theorem parallel_retries_count_twice:
  assumes "store_wf r s" and "fmlookup (res_Fields row) n = Some (IntValue v)"
    and "counter r s (res_Entity row) n x" and "accepted r version s (res_Entity row)"
    and "\<not> IsCommitted t (res_Entity row) (Signature t [row]) (s_results s)"
  shows "\<exists>rows1 rows2 ms. pool_step\<^sup>*\<^sup>* ([RetryP r t version [row], RetryP r t version [row]], (m, s))
             ([Return (1, rows1), Return (1, rows2)], ms) \<and>
           counter r (snd ms) (res_Entity row) n (x + v + v)"
proof -
  let ?k = "res_Entity row" and ?retry = "RetryP r t version [row]"
  let ?put = "retry_write r t (Signature t [row]) version row"
  have "pool_step ([?retry, ?retry], (m, s)) ([?put, ?retry], (m, s))"
    unfolding RetryP_one ask_def seq_on_store by (rule pool_left) (simp add: assms(5))
  moreover have "pool_step ([?put, ?retry], (m, s)) ([?put, ?put], (m, s))"
    unfolding RetryP_one ask_def seq_on_store by (rule pool_right) (simp add: assms(5))
  moreover obtain rows1 s1 where 1: "alone ?put (m, s) = Some ((1, rows1), (m, s1))" "store_wf r s1"
    "entries r s1 = (entries r s)(?k \<mapsto> result_entry r version s row)"
    using alone_retry_write [OF assms(1,4)] by blast
  have "accepted r version s1 ?k"
    by (simp add: accepted_def 1(3) stale_write_def result_entry_def written_def versionNewer_def)
  then obtain rows2 s2 where 2: "alone ?put (m, s1) = Some ((1, rows2), (m, s2))"
    "entries r s2 = (entries r s1)(?k \<mapsto> result_entry r version s1 row)"
    using alone_retry_write [OF 1(2)] by blast
  ultimately have "pool_step\<^sup>*\<^sup>* ([?retry, ?retry], (m, s)) ([Return (1, rows1), Return (1, rows2)], (m, s2))"
    using pool_left_alone [OF 1(1), of ?put] pool_right_alone [OF 2(1), of "Return (1, rows1)"]
    by (meson converse_rtranclp_into_rtranclp rtranclp_trans)
  moreover have one: "counter r s1 ?k n (x + v)"
    using add_counter_Int [OF assms(3,2)] by (simp add: counter_def field_of_def 1(3) result_entry_def written_def)
  have "counter r s2 ?k n (x + v + v)"
    using add_counter_Int [OF one assms(2)] by (simp add: counter_def field_of_def 2(2) result_entry_def written_def)
  ultimately show ?thesis by (metis snd_conv)
qed

lemma parallel_retries_count_twice_witness:
  "\<exists>rows1 rows2 ms. pool_step\<^sup>*\<^sup>*
       ([RetryP demo_router ''t'' (demo_version 1) [demo_result demo_user 12],
         RetryP demo_router ''t'' (demo_version 1) [demo_result demo_user 12]], (demo_published, demo_written))
       ([Return (1, rows1), Return (1, rows2)], ms) \<and>
     counter demo_router (snd ms) demo_user ''age'' 54"
proof -
  let ?row = "demo_result demo_user 12"
  have row: "fmlookup (res_Fields ?row) ''age'' = Some (IntValue 12)" "res_Entity ?row = demo_user"
    by (simp_all add: demo_result_def)
  have "\<not> IsCommitted ''t'' demo_user (Signature ''t'' [?row]) (s_results demo_written)"
    using demo_open by (simp add: open_key_def)
  with parallel_retries_count_twice [OF store_wf_demo_written row(1), of 30 "demo_version 1" "''t''" demo_published]
  show ?thesis using demo_counter demo_accepted row(2) by simp
qed


section \<open>Two runs over the same entity\<close>

text \<open>What a run over one row does once it has looked at the entity.\<close>

definition run_write ::
  "Router \<Rightarrow> string \<Rightarrow> Version \<Rightarrow> Result \<Rightarrow> time \<Rightarrow> time \<Rightarrow> Backfill \<Rightarrow> Entry option \<Rightarrow>
   ((ComputeError + nat) \<times> Result list \<times> Backfill) call" where
  "run_write r t version row t1 t2 b current =
     (let fs = add_counters current (res_Fields row);
          task = bump \<lparr>task_ID = t, task_TableID = v_TableID version, task_State = TaskRunning,
            task_Total = 1, task_Processed = 0, task_UpdatedAt = t1\<rparr>
      in seq (on_store (CompareAndWrite r (res_Entity row) fs version)) (\<lambda>ok.
           Return (Inr (if ok then 1 else 0), set_result (res_Entity row) fs [row],
             b\<lparr>bf_tasks := fmupd t (task\<lparr>task_UpdatedAt := t2\<rparr>) (bf_tasks b)\<rparr>)))"

lemma RunP_one:
  "t \<noteq> '''' \<Longrightarrow> RunP r t version [row] t1 t2 b =
     seq (ask (EntryFor r (res_Entity row))) (run_write r t version row t1 t2 b)"
  by (simp add: RunP_def BuildPlan_def writeResultP_def run_write_def [abs_def] seq_assoc Let_def cong: if_cong)

lemma alone_run_write:
  assumes "store_wf r s" and "accepted r version s (res_Entity row)"
  shows "\<exists>rows' b' s'. alone (run_write r t version row t1 t2 b current) (m, s) = Some ((Inr 1, rows', b'), (m, s')) \<and>
           store_wf r s' \<and>
           entries r s' = (entries r s)(res_Entity row \<mapsto>
             written (res_Entity row) (add_counters current (res_Fields row)) (v_ID version) (s_now s 0))"
proof -
  let ?tick = "s\<lparr>s_now := \<lambda>n. s_now s (Suc n)\<rparr>"
  have tick: "store_wf r ?tick" using assms(1) by (simp add: store_wf_frame)
  have "store_wf r (set_entry r (res_Entity row)
      (Some (written (res_Entity row) (add_counters current (res_Fields row)) (v_ID version) (s_now s 0))) ?tick)"
    using tick by (rule store_wf_set_entry) auto
  then show ?thesis
    using assms(2) entries_set_entry [OF tick]
    by (simp add: run_write_def CompareAndWrite_eq [OF assms(1)] accepted_def Let_def)
qed

text \<open>Two runs over the same entity lose an update: if both look at the entity before either writes it, the
  counter ends up with the second run's value added only, though both runs return and report the
  row as written. In either order of the two runs both values would be added.\<close>

theorem parallel_runs_lose_update:
  assumes "store_wf r s" and "t1 \<noteq> ''''" and "t2 \<noteq> ''''" and "res_Entity row1 = key" and "res_Entity row2 = key"
    and "fmlookup (res_Fields row1) n = Some (IntValue v1)" and "fmlookup (res_Fields row2) n = Some (IntValue v2)"
    and "counter r s key n x" and "accepted r version s key"
  shows "\<exists>rows1 rows2 b1 b2 ms.
           pool_step\<^sup>*\<^sup>* ([RunP r t1 version [row1] a1 a2 b, RunP r t2 version [row2] a1 a2 b], (m, s))
             ([Return (Inr 1, rows1, b1), Return (Inr 1, rows2, b2)], ms) \<and>
           counter r (snd ms) key n (x + v2)"
proof -
  let ?run1 = "RunP r t1 version [row1] a1 a2 b" and ?run2 = "RunP r t2 version [row2] a1 a2 b"
  let ?put1 = "run_write r t1 version row1 a1 a2 b (entries r s key)"
  let ?put2 = "run_write r t2 version row2 a1 a2 b (entries r s key)"
  have "pool_step ([?run1, ?run2], (m, s)) ([?put1, ?run2], (m, s))"
    unfolding RunP_one [OF assms(2)] ask_def seq_on_store by (rule pool_left) (simp add: EntryFor_wf [OF assms(1)] assms(4))
  moreover have "pool_step ([?put1, ?run2], (m, s)) ([?put1, ?put2], (m, s))"
    unfolding RunP_one [OF assms(3)] ask_def seq_on_store by (rule pool_right) (simp add: EntryFor_wf [OF assms(1)] assms(5))
  moreover obtain rows1 b1 s1 where 1: "alone ?put1 (m, s) = Some ((Inr 1, rows1, b1), (m, s1))" "store_wf r s1"
    "entries r s1 = (entries r s)(key \<mapsto> written key (add_counters (entries r s key) (res_Fields row1)) (v_ID version) (s_now s 0))"
    using alone_run_write [OF assms(1), of version row1] assms(4,9) by metis
  have "accepted r version s1 key" by (rule accepted_written) (simp add: 1(3))
  then obtain rows2 b2 s2 where 2: "alone ?put2 (m, s1) = Some ((Inr 1, rows2, b2), (m, s2))"
    "entries r s2 = (entries r s1)(key \<mapsto> written key (add_counters (entries r s key) (res_Fields row2)) (v_ID version) (s_now s1 0))"
    using alone_run_write [OF 1(2), of version row2] assms(5) by metis
  ultimately have "pool_step\<^sup>*\<^sup>* ([?run1, ?run2], (m, s)) ([Return (Inr 1, rows1, b1), Return (Inr 1, rows2, b2)], (m, s2))"
    using pool_left_alone [OF 1(1), of ?put2] pool_right_alone [OF 2(1), of "Return (Inr 1, rows1, b1)"]
    by (meson converse_rtranclp_into_rtranclp rtranclp_trans)
  moreover have "counter r s2 key n (x + v2)"
    using add_counter_Int [OF assms(8,7)] by (simp add: counter_def field_of_def 2(2) written_def)
  ultimately show ?thesis by (metis snd_conv)
qed

lemma parallel_runs_lose_update_witness:
  "\<exists>rows1 rows2 b1 b2 ms.
     pool_step\<^sup>*\<^sup>* ([RunP demo_router ''t'' (demo_version 1) [demo_result demo_user 12] 0 0 NewBackfill,
         RunP demo_router ''u'' (demo_version 1) [demo_result demo_user 5] 0 0 NewBackfill], (demo_published, demo_written))
       ([Return (Inr 1, rows1, b1), Return (Inr 1, rows2, b2)], ms) \<and>
     counter demo_router (snd ms) demo_user ''age'' 35"
proof -
  have row: "fmlookup (res_Fields (demo_result demo_user v)) ''age'' = Some (IntValue v)"
    "res_Entity (demo_result demo_user v) = demo_user" for v
    by (simp_all add: demo_result_def)
  have "''t'' \<noteq> ''''" "''u'' \<noteq> ''''" by simp_all
  from parallel_runs_lose_update [OF store_wf_demo_written this row(2,2,1,1) demo_counter demo_accepted,
      where ?v1.0 = 12 and ?v2.0 = 5 and ?a1.0 = 0 and ?a2.0 = 0 and b = NewBackfill and m = demo_published]
  show ?thesis by simp
qed

end
