(* ===== verification/AmongOthers.thy ===== *)
theory AmongOthers
  imports Interleaving
begin

text \<open>
  What an import and a scan promise while others run, as rely-guarantee judgements (\<open>safe\<close>) for each
  part of the call. An import decides the fields of its file, and nothing else, as long as the
  others leave these alone. A scan removes the entries that are expired, and nothing else, as long
  as the others neither renew an expired entry nor make one expire.
\<close>

section \<open>Others for the witnesses\<close>

text \<open>Merges of one field, and writes of an entity that is not expired.\<close>

definition merging :: "Router \<Rightarrow> Row \<Rightarrow> string list \<Rightarrow> string \<Rightarrow> Shared \<Rightarrow> Shared \<Rightarrow> bool" where
  "merging r row ow v a c \<longleftrightarrow>
     fst c = fst a \<and> MergeWrite r (row_Entity row) (build_patch row ow fmempty) ow v (snd a) = Some (snd c)"

lemma merging_field:
  assumes "merging r row ow v a c" and "store_wf r (snd a)"
  shows "store_wf r (snd c)" and "s_journal (snd c) = s_journal (snd a)"
    and "entries r (snd c) = (entries r (snd a))(row_Entity row \<mapsto> row_entry r row ow v (snd a))"
    and "field_of r (snd c) k n =
       (if k = row_Entity row \<and> n \<in> set ow then fmlookup (row_Fields row) n else field_of r (snd a) k n)"
proof -
  let ?s = "snd a" and ?k = "row_Entity row"
  let ?tick = "?s\<lparr>s_now := \<lambda>n. s_now ?s (Suc n)\<rparr>"
  have tick: "store_wf r ?tick" using assms(2) by (simp add: store_wf_frame)
  have c: "snd c = set_entry r ?k (Some (row_entry r row ow v ?s)) ?tick"
    using assms by (simp add: merging_def MergeWrite_eq row_entry_def)
  show "store_wf r (snd c)" unfolding c using tick by (rule store_wf_set_entry) (auto simp: row_entry_def)
  show "s_journal (snd c) = s_journal ?s" by (simp add: c)
  show "entries r (snd c) = (entries r ?s)(?k \<mapsto> row_entry r row ow v ?s)"
    using entries_set_entry [OF tick] by (simp add: c)
  then show "field_of r (snd c) k n =
      (if k = ?k \<and> n \<in> set ow then fmlookup (row_Fields row) n else field_of r (snd a) k n)"
    using row_entry_fields [of r row ow v ?s n] by (simp add: field_of_def)
qed

definition writing :: "Router \<Rightarrow> Scanner \<Rightarrow> time \<Rightarrow> EntityKey \<Rightarrow> Fields \<Rightarrow> string \<Rightarrow> Shared \<Rightarrow> Shared \<Rightarrow> bool" where
  "writing r sc now key fs v a c \<longleftrightarrow>
     fst c = fst a \<and> Write r key fs v (snd a) = Some (snd c) \<and> \<not> expired_in r sc now (snd a) key \<and>
     \<not> expired sc now (written key fs v (s_now (snd a) 0))"

section \<open>Contracts of imports\<close>

text \<open>
  What each row does to a property \<open>J\<close> of the rows written so far, the whole import does: \<open>J\<close> is
  kept by the others and established row by row.
\<close>

definition row_contract ::
  "(Shared \<Rightarrow> Shared \<Rightarrow> bool) \<Rightarrow> (Shared \<Rightarrow> Shared \<Rightarrow> bool) \<Rightarrow> (Row list \<Rightarrow> Shared \<Rightarrow> bool) \<Rightarrow>
   Router \<Rightarrow> Row set \<Rightarrow> string list \<Rightarrow> string \<Rightarrow> string \<Rightarrow> bool" where
  "row_contract E G J r R ow v b \<longleftrightarrow>
     (\<forall>xs. set xs \<subseteq> R \<longrightarrow> steady E (J xs)) \<and>
     (\<forall>xs row seg ms. set (xs @ [row]) \<subseteq> R \<longrightarrow> J xs ms \<longrightarrow>
        safe E G (\<lambda>_. J (xs @ [row])) (writeRowP r row ow v b seg) ms)"

lemma import_rows_contract:
  assumes "row_contract E G J r R ow v b"
  shows "set (xs @ rows) \<subseteq> R \<Longrightarrow> J xs ms \<Longrightarrow>
     safe E G (\<lambda>_. J (xs @ rows)) (import_rowsP r ow v b rows segment batch) ms"
proof (induction rows arbitrary: xs segment batch ms)
  case Nil
  then have "steady E (J xs)" using assms by (simp add: row_contract_def)
  with Nil show ?case unfolding import_rowsP.simps by (intro safe_Return) simp_all
next
  case (Cons row rows)
  have "safe E G (\<lambda>_. J (xs @ [row])) (writeRowP r row ow v b (seg_Index segment)) ms"
    using assms Cons.prems unfolding row_contract_def by (cases ms) simp
  then show ?case
    unfolding import_rowsP.simps
  proof (rule safe_seq [OF safe_mono])
    fix ms'
    assume "J (xs @ [row]) ms'"
    then show "safe E G (\<lambda>_. J (xs @ row # rows))
        (let segment = segment\<lparr>seg_Rows := seg_Rows segment + 1\<rparr>
         in import_rowsP r ow v b rows segment (set_last segment batch)) ms'"
      using Cons.IH [of "xs @ [row]" ms'] Cons.prems(1) by (simp add: Let_def)
  qed
qed

lemma import_loop_contract:
  assumes J: "row_contract E G J r (set rows) ow v b" and w: "0 < w"
  shows "J (take start rows) ms \<Longrightarrow> safe E G (\<lambda>_. J rows) (import_loopP r w rows ow v b start batch) ms"
proof (induction "length rows - start" arbitrary: start batch ms rule: less_induct)
  case less
  let ?next = "start + w"
  show ?case
  proof (cases "start < length rows")
    case False
    then have "J rows ms" using less.prems by simp
    then have "safe E G (\<lambda>_. J rows) (Return batch) ms"
      using J by (intro safe_Return) (simp_all add: row_contract_def)
    with False show ?thesis by (subst import_loopP.simps) (simp del: safe.simps)
  next
    case True
    let ?part = "take (min ?next (length rows) - start) (drop start rows)"
    have parts: "take start rows @ ?part = take ?next rows"
      unfolding take_add using True by (cases "?next \<le> length rows") simp_all
    have "safe E G (\<lambda>_. J (take ?next rows)) (import_rowsP r ow v b ?part segment batch') ms" for segment batch'
      using import_rows_contract [OF J, of "take start rows" ?part] less.prems set_take_subset [of ?next rows]
      unfolding parts by blast
    then have "safe E G (\<lambda>_. J rows)
        (seq (import_rowsP r ow v b ?part segment batch')
          (\<lambda>batch. import_loopP r w rows ow v b ?next (mark_done batch))) ms" for segment batch'
    proof (rule safe_seq [OF safe_mono])
      fix x :: Batch and ms'
      assume "J (take ?next rows) ms'"
      then show "safe E G (\<lambda>_. J rows) (import_loopP r w rows ow v b ?next (mark_done x)) ms'"
        using True w by (intro less.hyps) auto
    qed
    with True w show ?thesis by (subst import_loopP.simps) (simp del: safe.simps add: Let_def)
  qed
qed

lemma import_contract:
  assumes J: "row_contract E G J r (set rows) (fieldWindow (Some t) rows) v b" and "J [] ms"
    and "b \<noteq> ''''" and "rows \<noteq> []" and "Registry_Get reg table = Some t" and w: "0 < im_windowSize im"
  shows "safe E G (\<lambda>x ms'. (\<exists>batch. fst x = Inr batch) \<and> J rows ms') (ImportP r reg b table rows v now im) ms"
    (is "safe E G ?Q _ _")
proof -
  let ?ow = "fieldWindow (Some t) rows"
  have steady: "steady E (J rows)" using J by (simp add: row_contract_def)
  have must: "MustGet reg table = Some t" using assms(5) by (simp add: MustGet_def)
  have start: "J (take 0 rows) ms" using assms(2) by simp
  have "safe E G ?Q
      (seq (import_loopP r (im_windowSize im) rows ?ow v b 0 batch)
        (\<lambda>batch. Return (Inr batch, im\<lparr>im_batches := fmupd b batch (im_batches im)\<rparr>))) ms" for batch
  proof (rule safe_seq [OF safe_mono [OF import_loop_contract [OF J w start]]])
    fix x :: Batch and ms'
    assume "J rows ms'"
    then show "safe E G ?Q (Return (Inr x, im\<lparr>im_batches := fmupd b x (im_batches im)\<rparr>)) ms'"
      using steady by (intro safe_Return) (auto simp: steady_def)
  qed
  then show ?thesis using must assms(3,4) unfolding ImportP_def by (simp del: safe.simps)
qed

section \<open>An import among writers\<close>

text \<open>
  The others leave the fields of a file alone: the fields \<open>W\<close> of the entities \<open>K\<close>. \<open>outside\<close> is the
  rest of what is stored.
\<close>

definition leaves_file :: "Router \<Rightarrow> EntityKey set \<Rightarrow> string set \<Rightarrow> Shared \<Rightarrow> Shared \<Rightarrow> bool" where
  "leaves_file r K W a b \<longleftrightarrow>
     (store_wf r (snd a) \<longrightarrow>
        store_wf r (snd b) \<and> (\<forall>k \<in> K. \<forall>n \<in> W. field_of r (snd b) k n = field_of r (snd a) k n))"

definition outside :: "Router \<Rightarrow> EntityKey set \<Rightarrow> string set \<Rightarrow> Shared \<Rightarrow> EntityKey \<Rightarrow> string \<Rightarrow> FeatureValue option" where
  "outside r K W a k n = (if k \<in> K \<and> n \<in> W then None else field_of r (snd a) k n)"

definition only_file :: "Router \<Rightarrow> EntityKey set \<Rightarrow> string set \<Rightarrow> Shared \<Rightarrow> Shared \<Rightarrow> bool" where
  "only_file r K W a b \<longleftrightarrow> outside r K W b = outside r K W a"

text \<open>The rows \<open>xs\<close> of the file are in the store.\<close>

definition rows_in :: "Router \<Rightarrow> string set \<Rightarrow> Row list \<Rightarrow> Shared \<Rightarrow> bool" where
  "rows_in r W xs a \<longleftrightarrow>
     store_wf r (snd a) \<and>
     (\<forall>k fs. last_row xs k = Some fs \<longrightarrow> (\<forall>n \<in> W. field_of r (snd a) k n = fmlookup fs n))"

lemma only_file_refl [simp]: "only_file r K W a a"
  by (simp add: only_file_def)

lemma only_file_frame [simp]: "only_file r K W (m, s) (m, s\<lparr>s_journal := j\<rparr>)"
  by (simp add: only_file_def outside_def fun_eq_iff field_of_def)

lemma rows_in_steady:
  assumes "\<forall>a b. E a b \<longrightarrow> leaves_file r K W a b" and "row_Entity ` set xs \<subseteq> K"
  shows "steady E (rows_in r W xs)"
  unfolding steady_def
proof (intro allI impI)
  fix a b
  assume a: "rows_in r W xs a" and "E a b"
  then have b: "store_wf r (snd b)" "\<And>k n. k \<in> K \<Longrightarrow> n \<in> W \<Longrightarrow> field_of r (snd b) k n = field_of r (snd a) k n"
    using assms(1) unfolding leaves_file_def rows_in_def by blast+
  have "k \<in> K" if "last_row xs k = Some fs" for k fs
    using that assms(2) last_row_None [of xs k] by auto
  with a b show "rows_in r W xs b" by (auto simp: rows_in_def)
qed

lemma MergeWrite_row:
  assumes "rows_in r (set ow) xs (m, s)" and "row_Entity row \<in> K"
  shows "\<exists>s'. MergeWrite r (row_Entity row) (build_patch row ow fmempty) ow v s = Some s' \<and>
           only_file r K (set ow) (m, s) (m, s') \<and> rows_in r (set ow) (xs @ [row]) (m, s')"
proof -
  let ?k = "row_Entity row" and ?tick = "s\<lparr>s_now := \<lambda>n. s_now s (Suc n)\<rparr>"
  let ?e = "row_entry r row ow v s"
  let ?s = "set_entry r ?k (Some ?e) ?tick"
  have wf: "store_wf r s" and tick: "store_wf r ?tick"
    using assms(1) by (simp_all add: rows_in_def store_wf_frame)
  have e: "entries r ?s = (entries r s)(?k \<mapsto> ?e)" using entries_set_entry [OF tick] by simp
  have field: "field_of r ?s k n =
      (if k = ?k \<and> n \<in> set ow then fmlookup (row_Fields row) n else field_of r s k n)" for k n
    using row_entry_fields [of r row ow v s n] by (simp add: field_of_def e)
  have "store_wf r ?s" using tick by (rule store_wf_set_entry) (auto simp: row_entry_def)
  then have "rows_in r (set ow) (xs @ [row]) (m, ?s)"
    using assms(1) by (auto simp: rows_in_def field last_row_append last_row_Cons split: if_splits)
  moreover have "only_file r K (set ow) (m, s) (m, ?s)"
    using assms(2) by (simp add: only_file_def outside_def fun_eq_iff field)
  ultimately show ?thesis by (simp add: MergeWrite_eq [OF wf] row_entry_def)
qed

lemma safe_writeRowP:
  assumes E: "\<forall>a b. E a b \<longrightarrow> leaves_file r K (set ow) a b" and K: "row_Entity ` set (xs @ [row]) \<subseteq> K"
    and "rows_in r (set ow) xs ms"
  shows "safe E (only_file r K (set ow)) (\<lambda>_. rows_in r (set ow) (xs @ [row])) (writeRowP r row ow v b seg) ms"
proof -
  have steady: "steady E (rows_in r (set ow) xs)" "steady E (rows_in r (set ow) (xs @ [row]))"
    using K by (simp_all add: rows_in_steady [OF E])
  show ?thesis
    unfolding writeRowP_def
  proof (rule safe_ask [OF steady(1) assms(3) only_file_refl])
    fix m s
    assume in_s: "rows_in r (set ow) xs (m, s)"
    let ?append = "\<lambda>before s. s\<lparr>s_journal := Journal_Append \<lparr>op_BatchID = b, op_Segment = seg,
        op_Key = row_Entity row, op_Before = before\<rparr> (s_journal s)\<rparr>"
    let ?merge = "change (MergeWrite r (row_Entity row) (build_patch row ow fmempty) ow v)"
    have merge: "safe E (only_file r K (set ow)) (\<lambda>_. rows_in r (set ow) (xs @ [row])) ?merge ms'"
      if "rows_in r (set ow) xs ms'" for ms'
      by (rule safe_change_last [OF steady(1) that steady(2)]) (use MergeWrite_row K in auto)
    have "safe E (only_file r K (set ow)) (\<lambda>_. rows_in r (set ow) (xs @ [row]))
        (seq (change (\<lambda>s. Some (?append before s))) (\<lambda>_. ?merge)) (m, s)" for before
    proof (rule safe_change [OF steady(1) in_s])
      fix m s
      assume "rows_in r (set ow) xs (m, s)"
      then have "rows_in r (set ow) xs (m, ?append before s)"
        by (simp add: rows_in_def field_of_def store_wf_def journal_wf_Append)
      then show "\<exists>s'. Some (?append before s) = Some s' \<and> only_file r K (set ow) (m, s) (m, s') \<and>
          safe E (only_file r K (set ow)) (\<lambda>_. rows_in r (set ow) (xs @ [row])) ?merge (m, s')"
        using merge by simp
    qed
    then show "\<exists>x. EntryFor r (row_Entity row) s = Some x \<and>
        safe E (only_file r K (set ow)) (\<lambda>_. rows_in r (set ow) (xs @ [row]))
          (seq (change (\<lambda>s. Some (?append x s))) (\<lambda>_. ?merge)) (m, s)"
      using in_s by (simp add: rows_in_def EntryFor_wf)
  qed
qed

lemma safe_ImportP:
  assumes E: "\<forall>a b. E a b \<longrightarrow> leaves_file r (row_Entity ` set rows) (set (fieldWindow (Some t) rows)) a b"
    and "store_wf r (snd ms)" and "b \<noteq> ''''" and "rows \<noteq> []" and "Registry_Get reg table = Some t"
    and "0 < im_windowSize im"
  shows "safe E (only_file r (row_Entity ` set rows) (set (fieldWindow (Some t) rows)))
     (\<lambda>x ms'. (\<exists>batch. fst x = Inr batch) \<and> rows_in r (set (fieldWindow (Some t) rows)) rows ms')
     (ImportP r reg b table rows v now im) ms"
proof (rule import_contract [where J = "rows_in r (set (fieldWindow (Some t) rows))", OF _ _ assms(3-6)])
  let ?ow = "fieldWindow (Some t) rows" and ?K = "row_Entity ` set rows"
  show "row_contract E (only_file r ?K (set ?ow)) (rows_in r (set ?ow)) r (set rows) ?ow v b"
    unfolding row_contract_def
  proof (intro conjI allI impI)
    show "steady E (rows_in r (set ?ow) xs)" if "set xs \<subseteq> set rows" for xs
      using that by (intro rows_in_steady [OF E]) auto
    show "safe E (only_file r ?K (set ?ow)) (\<lambda>_. rows_in r (set ?ow) (xs @ [row])) (writeRowP r row ?ow v b seg) ms"
      if "set (xs @ [row]) \<subseteq> set rows" "rows_in r (set ?ow) xs ms" for xs row seg ms
      using that by (intro safe_writeRowP [OF E]) auto
  qed
  show "rows_in r (set ?ow) [] ms" using assms(2) by (simp add: rows_in_def)
qed

text \<open>C21: An import among other calls: whatever the others do to the entities outside the file and to the
  fields outside its window, and whenever they do it, the import does not panic, it answers with a
  batch, then every field of the window holds what the last row of its entity says, and everything
  else in the store is moved by the others alone.\<close>

theorem import_among_writers:
  fixes E rows t
  defines "K \<equiv> row_Entity ` set rows" and "W \<equiv> set (fieldWindow (Some t) rows)"
  assumes "store_wf r s" and "b \<noteq> ''''" and "rows \<noteq> []" and "Registry_Get reg table = Some t"
    and "0 < im_windowSize im" and "\<forall>x y. E x y \<longrightarrow> leaves_file r K W x y"
    and "(step_among E)\<^sup>*\<^sup>* (ImportP r reg b table rows v now im, (m, s)) (p, ms)"
  shows "(\<forall>f. p = Step f \<longrightarrow> f ms \<noteq> None) \<and>
         (\<forall>res im'. p = Return (res, im') \<longrightarrow>
            (\<exists>batch. res = Inr batch) \<and>
            (\<forall>k fs n. last_row rows k = Some fs \<and> n \<in> W \<longrightarrow> field_of r (snd ms) k n = fmlookup fs n)) \<and>
         (\<lambda>f g. \<exists>x y. E x y \<and> f = outside r K W x \<and> g = outside r K W y)\<^sup>*\<^sup>*
           (outside r K W (m, s)) (outside r K W ms)"
proof -
  let ?Q = "\<lambda>x ms'. (\<exists>batch. fst x = Inr batch) \<and> rows_in r W rows ms'"
  have "safe E (only_file r K W) ?Q (ImportP r reg b table rows v now im) (m, s)"
    using safe_ImportP [OF assms(8) [unfolded K_def W_def], of "(m, s)" b reg table im v now] assms(3-7)
    unfolding K_def W_def by simp
  note contract = safe_contract [OF assms(9) this, of "outside r K W"]
  show ?thesis using contract by (auto simp: only_file_def rows_in_def)
qed

lemma merging_leaves_file:
  "merging r row ow v a c \<Longrightarrow> set ow \<inter> W = {} \<Longrightarrow> leaves_file r K W a c"
  using merging_field(1,4) [of r row ow v a c] by (auto simp: leaves_file_def)

lemma asks_demo_import: "asks (ImportP demo_router seeded ''b'' ''user_profile'' demo_rows ''v2'' 0 demo_importer)"
proof -
  have "Registry_Get seeded ''user_profile'' = Some UserProfileTable" "demo_rows \<noteq> []" "0 < im_windowSize demo_importer"
    by (simp_all add: demo_importer_window demo_rows_def Get_seeded)
  then show ?thesis
    by (simp add: ImportP_def MustGet_def, subst import_loopP.simps)
      (simp add: demo_rows_def demo_importer_window Let_def)
qed

lemma import_among_writers_witness:
  defines "E \<equiv> merging demo_router \<lparr>row_Entity = demo_user, row_Fields = fmupd ''nick'' (StringValue ''bob'') fmempty\<rparr>
      [''nick''] ''w''"
  shows "\<exists>q ms1 ms2 res im ms.
     step_among E (ImportP demo_router seeded ''b'' ''user_profile'' demo_rows ''v2'' 0 demo_importer,
       (demo_published, demo_written)) (q, ms1) \<and>
     E ms1 ms2 \<and> (step_among E)\<^sup>*\<^sup>* (q, ms2) (Return (Inr res, im), ms) \<and>
     field_of demo_router (snd ms) demo_user ''age'' = Some (IntValue 42)"
proof -
  let ?K = "row_Entity ` set demo_rows" and ?W = "set (fieldWindow (Some UserProfileTable) demo_rows)"
  let ?import = "ImportP demo_router seeded ''b'' ''user_profile'' demo_rows ''v2'' 0 demo_importer"
  let ?ms = "(demo_published, demo_written)"
  have E: "\<forall>a c. E a c \<longrightarrow> leaves_file demo_router ?K ?W a c"
    using merging_leaves_file unfolding E_def demo_window by simp
  have ok: "0 < im_windowSize demo_importer" "demo_rows \<noteq> []" "''b'' \<noteq> ''''"
    "Registry_Get seeded ''user_profile'' = Some UserProfileTable"
    by (simp_all add: demo_importer_window demo_rows_def Get_seeded)
  obtain Q where Q: "safe E (only_file demo_router ?K ?W) Q ?import ?ms"
    using safe_ImportP [OF E _ ok(3,2,4,1)] store_wf_demo_written by fastforce
  obtain ms2 where ms2: "E ?ms ms2"
    unfolding E_def merging_def by (fastforce simp: MergeWrite_eq [OF store_wf_demo_written])
  from asks_runs [OF asks_demo_import Q ms2]
  obtain q res im ms where q: "step_among E (?import, ?ms) (q, ?ms)"
      "(step_among E)\<^sup>*\<^sup>* (q, ms2) (Return (res, im), ms)"
    and run: "(step_among E)\<^sup>*\<^sup>* (?import, ?ms) (Return (res, im), ms)" by auto
  from import_among_writers [OF store_wf_demo_written ok(3,2,4,1) E run]
  have "\<exists>batch. res = Inr batch" "field_of demo_router (snd ms) demo_user ''age'' = Some (IntValue 42)"
    by (simp_all add: demo_window) (simp add: demo_rows_def last_row_def)
  with q ms2 show ?thesis by blast
qed

section \<open>A scan among other calls\<close>

text \<open>\<open>expired_set\<close> is what a scan should remove, \<open>live\<close> the rest of the store.\<close>

definition expired_set :: "Router \<Rightarrow> Scanner \<Rightarrow> time \<Rightarrow> Shared \<Rightarrow> EntityKey set" where
  "expired_set r sc now a = {k. expired_in r sc now (snd a) k}"

definition live :: "Router \<Rightarrow> Scanner \<Rightarrow> time \<Rightarrow> Shared \<Rightarrow> EntityKey \<Rightarrow> Entry option" where
  "live r sc now a k = (if k \<in> expired_set r sc now a then None else entries r (snd a) k)"

definition leaves_expired :: "Router \<Rightarrow> Scanner \<Rightarrow> time \<Rightarrow> Shared \<Rightarrow> Shared \<Rightarrow> bool" where
  "leaves_expired r sc now a b \<longleftrightarrow>
     (store_wf r (snd a) \<longrightarrow> store_wf r (snd b) \<and> expired_set r sc now b = expired_set r sc now a)"

definition only_expired :: "Router \<Rightarrow> Scanner \<Rightarrow> time \<Rightarrow> Shared \<Rightarrow> Shared \<Rightarrow> bool" where
  "only_expired r sc now a b \<longleftrightarrow> live r sc now b = live r sc now a"

text \<open>A scan that has removed \<open>c\<close> of \<open>N\<close> entries; the rest are in \<open>U\<close>.\<close>

definition scanned :: "Router \<Rightarrow> Scanner \<Rightarrow> time \<Rightarrow> nat \<Rightarrow> nat \<Rightarrow> EntityKey set \<Rightarrow> Shared \<Rightarrow> bool" where
  "scanned r sc now N c U a \<longleftrightarrow>
     store_wf r (snd a) \<and> expired_set r sc now a \<subseteq> U \<and> c + card (expired_set r sc now a) = N"

lemma only_expired_refl [simp]: "only_expired r sc now a a"
  by (simp add: only_expired_def)

lemma finite_expired_set: "store_wf r (snd a) \<Longrightarrow> finite (expired_set r sc now a)"
  by (rule finite_subset [OF _ finite_entries]) (auto simp: expired_set_def expired_in_def)

lemma scanned_steady:
  assumes "\<forall>a b. E a b \<longrightarrow> leaves_expired r sc now a b"
  shows "steady E (scanned r sc now N c U)"
    and "steady E (\<lambda>a. scanned r sc now N c U a \<and> k \<in> expired_set r sc now a)"
  using assms by (simp_all add: steady_def scanned_def leaves_expired_def)

lemma Delete_expired:
  assumes "scanned r sc now N c U (m, s)" and "key \<in> expired_set r sc now (m, s)"
  shows "\<exists>s'. Delete r key s = Some s' \<and> only_expired r sc now (m, s) (m, s') \<and>
           scanned r sc now N (c + 1) (U - {key}) (m, s')"
proof -
  let ?s = "set_entry r key None s"
  have wf: "store_wf r s" using assms(1) by (simp add: scanned_def)
  have e: "entries r ?s = (entries r s)(key := None)" using entries_set_entry [OF wf] by simp
  have X: "expired_set r sc now (m, ?s) = expired_set r sc now (m, s) - {key}"
    by (auto simp: expired_set_def expired_in_def e)
  have "card (expired_set r sc now (m, s)) = Suc (card (expired_set r sc now (m, s) - {key}))"
    using card.remove [OF _ assms(2)] finite_expired_set wf by simp
  then have "scanned r sc now N (c + 1) (U - {key}) (m, ?s)"
    using assms(1) store_wf_remove [OF wf] by (auto simp: scanned_def X)
  moreover have "only_expired r sc now (m, s) (m, ?s)"
    using assms(2) by (auto simp: only_expired_def live_def fun_eq_iff X e)
  ultimately show ?thesis by (simp add: Delete_eq [OF wf])
qed

lemma safe_ExpireKeyP:
  assumes E: "\<forall>a b. E a b \<longrightarrow> leaves_expired r sc now a b" and "scanned r sc now N c U ms"
  shows "safe E (only_expired r sc now) (\<lambda>hit. scanned r sc now N (if hit then c + 1 else c) (U - {key}))
     (ExpireKeyP r sc key now) ms"
    (is "safe E ?G ?Q _ _")
  unfolding ExpireKeyP_def
proof (rule safe_ask [OF scanned_steady(1) [OF E] assms(2) only_expired_refl])
  fix m s
  assume in_s: "scanned r sc now N c U (m, s)"
  then have wf: "store_wf r s" by (simp add: scanned_def)
  have hit: "key \<in> expired_set r sc now (m, s) \<longleftrightarrow>
      (\<exists>e. entries r s key = Some e \<and> IsExpired sc (time_sub now (e_WrittenAt e)))"
    by (simp add: expired_set_def expired_in_def expired_def)
  let ?rest = "\<lambda>writtenAt. case writtenAt of
      None \<Rightarrow> Return False
    | Some t \<Rightarrow> if \<not> IsExpired sc (time_sub now t) then Return False
               else seq (change (Delete r key)) (\<lambda>_. Return True)"
  have "safe E ?G ?Q (?rest (map_option e_WrittenAt (entries r s key))) (m, s)"
  proof (cases "key \<in> expired_set r sc now (m, s)")
    case False
    then have "?Q False (m, s)" using in_s by (auto simp: scanned_def)
    then have "safe E ?G ?Q (Return False) (m, s)"
      using scanned_steady(1) [OF E] by (intro safe_Return) simp_all
    with False show ?thesis unfolding hit by (cases "entries r s key") (simp_all del: safe.simps)
  next
    case True
    have "safe E ?G ?Q (seq (change (Delete r key)) (\<lambda>_. Return True)) (m, s)"
    proof (rule safe_change [OF scanned_steady(2) [OF E]])
      show "scanned r sc now N c U (m, s) \<and> key \<in> expired_set r sc now (m, s)" using True in_s by simp
      fix m s
      assume "scanned r sc now N c U (m, s) \<and> key \<in> expired_set r sc now (m, s)"
      then obtain s' where s': "Delete r key s = Some s'" "only_expired r sc now (m, s) (m, s')"
        "?Q True (m, s')" using Delete_expired by (metis (full_types))
      then have "safe E ?G ?Q (Return True) (m, s')"
        using scanned_steady(1) [OF E] by (intro safe_Return) simp_all
      with s' show "\<exists>s'. Delete r key s = Some s' \<and> only_expired r sc now (m, s) (m, s') \<and>
          safe E ?G ?Q (Return True) (m, s')" by blast
    qed
    with True show ?thesis unfolding hit by (cases "entries r s key") (simp_all del: safe.simps)
  qed
  then show "\<exists>x. WrittenAt r key s = Some x \<and> safe E ?G ?Q (?rest x) (m, s)"
    by (simp add: WrittenAt_wf [OF wf])
qed


lemma safe_scan_keysP:
  assumes E: "\<forall>a b. E a b \<longrightarrow> leaves_expired r sc now a b"
  shows "scanned r sc now N c U ms \<Longrightarrow>
     safe E (only_expired r sc now) (\<lambda>num. scanned r sc now N num (U - set keys)) (scan_keysP r sc now keys c) ms"
proof (induction keys arbitrary: c U ms)
  case Nil
  then show ?case
    unfolding scan_keysP.simps using scanned_steady(1) [OF E] by (intro safe_Return) simp_all
next
  case (Cons key keys)
  show ?case
    unfolding scan_keysP.simps
  proof (rule safe_seq [OF safe_mono [OF safe_ExpireKeyP [OF E Cons.prems, of key]]])
    fix hit ms'
    assume "scanned r sc now N (if hit then c + 1 else c) (U - {key}) ms'"
    from Cons.IH [OF this]
    show "safe E (only_expired r sc now) (\<lambda>num. scanned r sc now N num (U - set (key # keys)))
        (scan_keysP r sc now keys (if hit then c + 1 else c)) ms'"
      by (simp add: Diff_insert2 [symmetric])
  qed
qed

text \<open>The keys a scan finds in a shard are all that the shard has to lose.\<close>

lemma scanned_shard:
  assumes "scanned r sc now N c U (m, s)" and "ranges iter" and "i < length (s_shards s)"
  shows "scanned r sc now N c (U \<inter> ({k. shard_of r k \<noteq> i} \<union> set (Keys iter (int i) s))) (m, s)"
  using assms(1) Keys_set [of r s iter i] assms(2,3)
  by (auto simp: scanned_def expired_set_def expired_in_def)

lemma scanned_mono: "scanned r sc now N c U a \<Longrightarrow> U \<subseteq> U' \<Longrightarrow> scanned r sc now N c U' a"
  by (auto simp: scanned_def)

lemma safe_scan_shardsP:
  assumes E: "\<forall>a b. E a b \<longrightarrow> leaves_expired r sc now a b" and iter: "\<forall>i. ranges (iter i)"
  shows "scanned r sc now N c U ms \<Longrightarrow> \<forall>i \<in> set shards. i < shard_total r \<Longrightarrow>
     safe E (only_expired r sc now) (\<lambda>num. scanned r sc now N num (U \<inter> {k. shard_of r k \<notin> set shards}))
       (scan_shardsP r iter sc now shards c) ms"
proof (induction shards arbitrary: c U ms)
  case Nil
  then show ?case
    unfolding scan_shardsP.simps using scanned_steady(1) [OF E] by (intro safe_Return) simp_all
next
  case (Cons i shards)
  let ?Q = "\<lambda>num. scanned r sc now N num (U \<inter> {k. shard_of r k \<notin> set (i # shards)})"
  show ?case
    unfolding scan_shardsP.simps
  proof (rule safe_ask [OF scanned_steady(1) [OF E] Cons.prems(1) only_expired_refl])
    fix m s
    let ?keys = "Keys (iter i) (int i) s"
    let ?U = "U \<inter> ({k. shard_of r k \<noteq> i} \<union> set ?keys)"
    assume "scanned r sc now N c U (m, s)"
    then have "scanned r sc now N c ?U (m, s)"
      using iter Cons.prems(2) store_wfD(2) [of r s] by (intro scanned_shard) (simp_all add: scanned_def)
    note keys = safe_scan_keysP [OF E this, of ?keys]
    have "safe E (only_expired r sc now) ?Q
        (seq (scan_keysP r sc now ?keys c) (\<lambda>num. scan_shardsP r iter sc now shards num)) (m, s)"
    proof (rule safe_seq [OF safe_mono [OF keys]])
      fix num ms'
      assume "scanned r sc now N num (?U - set ?keys) ms'"
      then have "scanned r sc now N num (U \<inter> {k. shard_of r k \<noteq> i}) ms'"
        by (rule scanned_mono) blast
      from Cons.IH [OF this] Cons.prems(2)
      show "safe E (only_expired r sc now) ?Q (scan_shardsP r iter sc now shards num) ms'"
        by (simp add: Int_assoc Collect_conj_eq [symmetric] conj_commute del: safe.simps)
    qed
    then show "\<exists>x. Some ?keys = Some x \<and> safe E (only_expired r sc now) ?Q
        (seq (scan_keysP r sc now x c) (\<lambda>num. scan_shardsP r iter sc now shards num)) (m, s)"
      by blast
  qed
qed


lemma safe_ScanP:
  assumes E: "\<forall>a b. E a b \<longrightarrow> leaves_expired r sc now a b" and iter: "\<forall>i. ranges (iter i)"
    and wf: "store_wf r (snd ms)"
  shows "safe E (only_expired r sc now) (\<lambda>num. scanned r sc now (card (expired_set r sc now ms)) num {})
     (ScanP r iter sc now) ms"
    (is "safe E ?G ?Q _ _")
  unfolding ScanP_def
proof (rule safe_ask [OF scanned_steady(1) [OF E] _ only_expired_refl])
  let ?N = "card (expired_set r sc now ms)"
  show "scanned r sc now ?N 0 UNIV ms" using wf by (simp add: scanned_def)
  fix m s
  assume in_s: "scanned r sc now ?N 0 UNIV (m, s)"
  then have s: "store_wf r s" by (simp add: scanned_def)
  have n: "nat (Store_ShardCount s) = shard_total r" using store_wfD(2) [OF s] by (simp add: Store_ShardCount_def)
  have "shard_of r k < shard_total r" for k using store_wfD(2,5) [OF s] by simp
  then have "UNIV \<inter> {k. shard_of r k \<notin> set [0 ..< shard_total r]} = {}" by auto
  with safe_scan_shardsP [OF E iter in_s, of "[0 ..< shard_total r]"] n
  show "\<exists>x. Some (Store_ShardCount s) = Some x \<and> safe E ?G ?Q (scan_shardsP r iter sc now [0 ..< nat x] 0) (m, s)"
    by simp
qed

text \<open>C24: A scan among other calls: as long as the others neither renew an expired entry nor make one
  expire, whatever else they do and whenever, the scan does not panic, it answers with the number
  of entries that were expired when it began, none of which is left, and the entries that are not
  expired are moved by the others alone.\<close>

theorem scan_among_others:
  assumes "store_wf r s" and "\<forall>i. ranges (iter i)" and "\<forall>x y. E x y \<longrightarrow> leaves_expired r sc now x y"
    and "(step_among E)\<^sup>*\<^sup>* (ScanP r iter sc now, (m, s)) (p, ms)"
  shows "(\<forall>f. p = Step f \<longrightarrow> f ms \<noteq> None) \<and>
         (\<forall>num. p = Return num \<longrightarrow>
            num = card (expired_set r sc now (m, s)) \<and> expired_set r sc now ms = {}) \<and>
         (\<lambda>f g. \<exists>x y. E x y \<and> f = live r sc now x \<and> g = live r sc now y)\<^sup>*\<^sup>*
           (live r sc now (m, s)) (live r sc now ms)"
proof -
  have "safe E (only_expired r sc now) (\<lambda>num. scanned r sc now (card (expired_set r sc now (m, s))) num {})
      (ScanP r iter sc now) (m, s)"
    using assms(1) by (intro safe_ScanP [OF assms(3,2)]) simp
  note contract = safe_contract [OF assms(4) this, of "live r sc now"]
  show ?thesis using contract by (auto simp: only_expired_def scanned_def)
qed

lemma writing_leaves_expired: "writing r sc now key fs v a c \<Longrightarrow> leaves_expired r sc now a c"
  unfolding leaves_expired_def
proof (intro impI conjI)
  assume w: "writing r sc now key fs v a c" and wf: "store_wf r (snd a)"
  let ?s = "snd a"
  let ?tick = "?s\<lparr>s_now := \<lambda>n. s_now ?s (Suc n)\<rparr>"
  have tick: "store_wf r ?tick" using wf by (simp add: store_wf_frame)
  have c: "snd c = set_entry r key (Some (written key fs v (s_now ?s 0))) ?tick"
    using w Write_eq [OF wf, of key fs v] by (simp add: writing_def)
  show "store_wf r (snd c)" unfolding c using tick by (rule store_wf_set_entry) auto
  have "entries r (snd c) = (entries r ?s)(key \<mapsto> written key fs v (s_now ?s 0))"
    using entries_set_entry [OF tick] by (simp add: c)
  then show "expired_set r sc now c = expired_set r sc now a"
    using w by (auto simp: expired_set_def expired_in_def writing_def)
qed

lemma scan_among_others_witness:
  defines "E \<equiv> writing demo_router (NewScanner 5) 1006 (EntityKey ''user_2'') demo_fields ''w''"
  shows "\<exists>q ms1 ms2 num ms.
     step_among E (ScanP demo_router (\<lambda>_. rev) (NewScanner 5) 1006,
       (demo_published, demo_written\<lparr>s_now := \<lambda>n. 1004\<rparr>)) (q, ms1) \<and>
     E ms1 ms2 \<and> (step_among E)\<^sup>*\<^sup>* (q, ms2) (Return num, ms) \<and>
     num = 1 \<and> expired_set demo_router (NewScanner 5) 1006 ms = {}"
proof -
  let ?s = "demo_written\<lparr>s_now := \<lambda>n. 1004\<rparr>"
  let ?ms = "(demo_published, ?s)" and ?scan = "ScanP demo_router (\<lambda>_. rev) (NewScanner 5) 1006"
  have E: "\<forall>a c. E a c \<longrightarrow> leaves_expired demo_router (NewScanner 5) 1006 a c"
    using writing_leaves_expired unfolding E_def by blast
  have wf: "store_wf demo_router ?s" using store_wf_demo_written by (simp add: store_wf_frame)
  have iter: "\<forall>i :: nat. ranges rev" by (simp add: ranges_def)
  obtain Q where Q: "safe E (only_expired demo_router (NewScanner 5) 1006) Q ?scan ?ms"
    using safe_ScanP [OF E iter] wf by fastforce
  have "\<not> expired_in demo_router (NewScanner 5) 1006 ?s (EntityKey ''user_2'')"
    by (simp add: expired_in_def entries_demo_written demo_user_def entries_demo)
  moreover have "\<not> expired (NewScanner 5) 1006 (written (EntityKey ''user_2'') demo_fields ''w'' 1004)"
    by (simp add: expired_def written_def IsExpired_def NewScanner_def time_sub_def duration_min_def duration_max_def)
  ultimately obtain ms2 where ms2: "E ?ms ms2"
    unfolding E_def writing_def by (fastforce simp: Write_eq [OF wf])
  from asks_runs [OF asks_calls(2) Q ms2]
  obtain q num ms where q: "step_among E (?scan, ?ms) (q, ?ms)" "(step_among E)\<^sup>*\<^sup>* (q, ms2) (Return num, ms)"
    and run: "(step_among E)\<^sup>*\<^sup>* (?scan, ?ms) (Return num, ms)" by blast
  from scan_among_others [OF wf iter E run]
  have "num = card (expired_set demo_router (NewScanner 5) 1006 ?ms)"
    "expired_set demo_router (NewScanner 5) 1006 ms = {}" by blast+
  moreover have "expired_set demo_router (NewScanner 5) 1006 ?ms = {demo_user}"
    by (auto simp: expired_set_def expired_in_def expired_def entries_demo_written entries_demo written_def
        IsExpired_def NewScanner_def time_sub_def duration_min_def duration_max_def split: if_splits)
  ultimately show ?thesis using q ms2 by (metis One_nat_def card_1_singleton_iff)
qed

end
