(* ===== verification/UndoContract.thy ===== *)
theory UndoContract
  imports AmongOthers
begin

text \<open>
  What the rollback of a batch promises while others run, provided these leave the entities and the
  journal records of the batch alone: the entities come back as they were, wherever the steps of
  the import, of the rollback and of the others fall. \<open>Races\<close> shows what happens when an import of
  the batch is still under way.
\<close>

section \<open>Others that leave a batch alone\<close>

definition leaves_batch :: "Router \<Rightarrow> string \<Rightarrow> EntityKey set \<Rightarrow> Shared \<Rightarrow> Shared \<Rightarrow> bool" where
  "leaves_batch r b K x y \<longleftrightarrow>
     (store_wf r (snd x) \<longrightarrow>
        store_wf r (snd y) \<and> OpsFor (s_journal (snd y)) b = OpsFor (s_journal (snd x)) b \<and>
        (\<forall>k \<in> K. entries r (snd y) k = entries r (snd x) k))"

text \<open>The rest: the other entities, and the journal records of the other batches.\<close>

definition beside :: "Router \<Rightarrow> string \<Rightarrow> EntityKey set \<Rightarrow> Shared \<Rightarrow>
    (EntityKey \<Rightarrow> Entry option) \<times> (string \<Rightarrow> JournalOp list)" where
  "beside r b K x =
     (\<lambda>k. if k \<in> K then None else entries r (snd x) k,
      \<lambda>c. if c = b then [] else OpsFor (s_journal (snd x)) c)"

definition only_batch :: "Router \<Rightarrow> string \<Rightarrow> EntityKey set \<Rightarrow> Shared \<Rightarrow> Shared \<Rightarrow> bool" where
  "only_batch r b K x y \<longleftrightarrow> beside r b K y = beside r b K x"

lemma only_batch_refl [simp]: "only_batch r b K x x"
  by (simp add: only_batch_def)

lemma only_batch_set_entry:
  "store_wf r s \<Longrightarrow> k \<in> K \<Longrightarrow> only_batch r b K (m, s) (m, set_entry r k e s)"
  using entries_set_entry [of r s k e] by (auto simp: only_batch_def beside_def fun_eq_iff)

text \<open>
  The records \<open>ops\<close> tell what the entities of \<open>K\<close> held at first, but for those in \<open>seen\<close>, which a
  rollback has already restored.
\<close>

definition pending ::
  "(EntityKey \<Rightarrow> Entry option) \<Rightarrow> EntityKey set \<Rightarrow> EntityKey set \<Rightarrow> JournalOp list \<Rightarrow> bool" where
  "pending base K seen ops \<longleftrightarrow>
     (\<forall>op \<in> set ops. op_fits op \<and> op_Key op \<in> K) \<and>
     (\<forall>k e. k \<notin> seen \<longrightarrow> map_of (undo_log ops) k = Some e \<longrightarrow> e = base k)"

definition undoable ::
  "Router \<Rightarrow> string \<Rightarrow> EntityKey set \<Rightarrow> (EntityKey \<Rightarrow> Entry option) \<Rightarrow> Shared \<Rightarrow> bool" where
  "undoable r b K base x \<longleftrightarrow>
     (let ops = OpsFor (s_journal (snd x)) b in
      store_wf r (snd x) \<and> pending base K {} ops \<and>
      (\<forall>k \<in> K. k \<notin> op_Key ` set ops \<longrightarrow> entries r (snd x) k = base k))"

definition undone ::
  "Router \<Rightarrow> string \<Rightarrow> EntityKey set \<Rightarrow> (EntityKey \<Rightarrow> Entry option) \<Rightarrow> Shared \<Rightarrow> bool" where
  "undone r b K base x \<longleftrightarrow>
     store_wf r (snd x) \<and> OpsFor (s_journal (snd x)) b = [] \<and> (\<forall>k \<in> K. entries r (snd x) k = base k)"

text \<open>Part of the way: the entities are back but for those the rest of the records is about.\<close>

definition undoing ::
  "Router \<Rightarrow> EntityKey set \<Rightarrow> (EntityKey \<Rightarrow> Entry option) \<Rightarrow> EntityKey set \<Rightarrow> Shared \<Rightarrow> bool" where
  "undoing r K base left x \<longleftrightarrow>
     store_wf r (snd x) \<and> (\<forall>k \<in> K. k \<notin> left \<longrightarrow> entries r (snd x) k = base k)"

lemma batch_steady:
  assumes "\<forall>x y. E x y \<longrightarrow> leaves_batch r b K x y"
  shows "steady E (undoable r b K base)" "steady E (undone r b K base)" "steady E (undoing r K base left)"
    and "k \<in> K \<Longrightarrow> steady E (\<lambda>x. undoable r b K base x \<and> entries r (snd x) k = e)"
  using assms by (simp_all add: steady_def leaves_batch_def undoable_def undone_def undoing_def Let_def)

section \<open>The rollback\<close>

lemma pending_Cons:
  assumes "pending base K seen (op # ops)"
  shows "op_Key op \<in> K" "op_fits op" "op_Key op \<in> seen \<Longrightarrow> pending base K seen ops"
    and "op_Key op \<notin> seen \<Longrightarrow> op_Before op = base (op_Key op)"
    and "pending base K (insert (op_Key op) seen) ops"
  using assms unfolding pending_def undo_log_def by (simp_all split: if_splits) metis+

lemma restore_step:
  assumes "op_fits op" and "store_wf r s"
  shows "(case op_Before op of
            None \<Rightarrow> change (Delete r (op_Key op))
          | Some e \<Rightarrow> change (WriteAt r (op_Key op) (e_Fields e) (e_VersionID e) (e_WrittenAt e))) =
         change (\<lambda>s. case op_Before op of
            None \<Rightarrow> Delete r (op_Key op) s
          | Some e \<Rightarrow> WriteAt r (op_Key op) (e_Fields e) (e_VersionID e) (e_WrittenAt e) s)"
    and "(case op_Before op of
            None \<Rightarrow> Delete r (op_Key op) s
          | Some e \<Rightarrow> WriteAt r (op_Key op) (e_Fields e) (e_VersionID e) (e_WrittenAt e) s) =
         Some (set_entry r (op_Key op) (op_Before op) s)"
    and "store_wf r (set_entry r (op_Key op) (op_Before op) s)"
  using assms
  by (auto simp: op_fits_def Delete_eq WriteAt_eq written_same split: option.splits intro!: store_wf_set_entry)

lemma safe_rollback_opsP:
  assumes E: "\<forall>x y. E x y \<longrightarrow> leaves_batch r b K x y"
  shows "pending base K seen ops \<Longrightarrow> undoing r K base (op_Key ` set ops - seen) ms \<Longrightarrow>
     safe E (only_batch r b K) (\<lambda>_. undoing r K base {}) (rollback_opsP r ops seen) ms"
proof (induction ops arbitrary: seen ms)
  case Nil
  then show ?case unfolding rollback_opsP.simps using batch_steady(3) [OF E] by (intro safe_Return) simp_all
next
  case (Cons op ops)
  note op = pending_Cons [OF Cons.prems(1)]
  show ?case
  proof (cases "op_Key op \<in> seen")
    case True
    then have "safe E (only_batch r b K) (\<lambda>_. undoing r K base {}) (rollback_opsP r ops seen) ms"
      using Cons.IH [OF op(3)] Cons.prems(2) by simp
    with True show ?thesis by (simp del: safe.simps)
  next
    case False
    let ?left = "op_Key ` set (op # ops) - seen"
    let ?seen = "insert (op_Key op) seen"
    let ?restore = "\<lambda>s. case op_Before op of
        None \<Rightarrow> Delete r (op_Key op) s
      | Some e \<Rightarrow> WriteAt r (op_Key op) (e_Fields e) (e_VersionID e) (e_WrittenAt e) s"
    have "safe E (only_batch r b K) (\<lambda>_. undoing r K base {})
        (seq (change ?restore) (\<lambda>_. rollback_opsP r ops ?seen)) ms"
    proof (rule safe_change [OF batch_steady(3) [OF E] Cons.prems(2)])
      fix m s
      assume s: "undoing r K base ?left (m, s)"
      let ?s = "set_entry r (op_Key op) (op_Before op) s"
      have wf: "store_wf r s" using s by (simp add: undoing_def)
      note put = restore_step(2,3) [OF op(2) wf]
      have "entries r ?s = (entries r s)(op_Key op := base (op_Key op))"
        using entries_set_entry [OF wf] op(4) False by simp
      then have "undoing r K base (op_Key ` set ops - ?seen) (m, ?s)"
        using s put(2) by (auto simp: undoing_def)
      from Cons.IH [OF op(5) this] put(1)
      show "\<exists>s'. ?restore s = Some s' \<and> only_batch r b K (m, s) (m, s') \<and>
          safe E (only_batch r b K) (\<lambda>_. undoing r K base {}) (rollback_opsP r ops ?seen) (m, s')"
        using only_batch_set_entry [OF wf op(1)] by blast
    qed
    moreover obtain m s where "ms = (m, s)" "store_wf r s"
      using Cons.prems(2) by (cases ms) (auto simp: undoing_def)
    ultimately show ?thesis
      using False restore_step(1) [OF op(2)] by (simp del: safe.simps)
  qed
qed

lemma safe_RollbackBatchP:
  assumes E: "\<forall>x y. E x y \<longrightarrow> leaves_batch r b K x y" and "undoable r b K base ms"
  shows "safe E (only_batch r b K) (\<lambda>_. undone r b K base) (RollbackBatchP r b) ms"
  unfolding RollbackBatchP_def
proof (rule safe_ask [OF batch_steady(1) [OF E] assms(2) only_batch_refl])
  fix m s
  assume s: "undoable r b K base (m, s)"
  let ?ops = "OpsFor (s_journal s) b"
  let ?clear = "change (\<lambda>s. Some (s\<lparr>s_journal := Journal_Clear b (s_journal s)\<rparr>))"
  have "safe E (only_batch r b K) (\<lambda>_. undone r b K base) (seq (rollback_opsP r ?ops {}) (\<lambda>_. ?clear)) (m, s)"
  proof (rule safe_seq [OF safe_mono [OF safe_rollback_opsP [OF E, where base = base]]])
    show "pending base K {} ?ops" "undoing r K base (op_Key ` set ?ops - {}) (m, s)"
      using s by (auto simp: undoable_def pending_def undoing_def Let_def)
    fix ms'
    assume "undoing r K base {} ms'"
    then show "safe E (only_batch r b K) (\<lambda>_. undone r b K base) ?clear ms'"
    proof (rule safe_change_last [OF batch_steady(3) [OF E] _ batch_steady(2) [OF E]])
      fix m s
      assume "undoing r K base {} (m, s)"
      then show "\<exists>s'. Some (s\<lparr>s_journal := Journal_Clear b (s_journal s)\<rparr>) = Some s' \<and>
          only_batch r b K (m, s) (m, s') \<and> undone r b K base (m, s')"
        by (auto simp: undoing_def undone_def only_batch_def beside_def OpsFor_Clear store_wf_journal
            Journal_Clear_wf store_wfD(4) fun_eq_iff)
    qed
  qed
  then show "\<exists>x. Some ?ops = Some x \<and> safe E (only_batch r b K) (\<lambda>_. undone r b K base)
      (seq (rollback_opsP r x {}) (\<lambda>_. ?clear)) (m, s)" by blast
qed


section \<open>The import before it\<close>

text \<open>A row's step between its record and its merge: the record is there.\<close>

definition recorded ::
  "Router \<Rightarrow> string \<Rightarrow> EntityKey set \<Rightarrow> (EntityKey \<Rightarrow> Entry option) \<Rightarrow> EntityKey \<Rightarrow> Shared \<Rightarrow> bool" where
  "recorded r b K base k x \<longleftrightarrow>
     undoable r b K base x \<and> k \<in> op_Key ` set (OpsFor (s_journal (snd x)) b)"

lemma recorded_steady:
  "\<forall>x y. E x y \<longrightarrow> leaves_batch r b K x y \<Longrightarrow> steady E (recorded r b K base k)"
  by (simp add: steady_def leaves_batch_def recorded_def undoable_def Let_def)

lemma undoable_append:
  fixes row seg before
  assumes s: "undoable r b K base (m, s)" and k: "row_Entity row \<in> K" and e: "entries r s (row_Entity row) = before"
  defines "s' \<equiv> s\<lparr>s_journal := Journal_Append (row_op row b seg before) (s_journal s)\<rparr>"
  shows "recorded r b K base (row_Entity row) (m, s')" and "only_batch r b K (m, s) (m, s')"
proof -
  let ?ops = "OpsFor (s_journal s) b" and ?op = "row_op row b seg before"
  have wf: "store_wf r s" using s by (simp add: undoable_def Let_def)
  have ops: "OpsFor (s_journal s') c = (if c = b then ?ops @ [?op] else OpsFor (s_journal s) c)" for c
    by (simp add: s'_def OpsFor_Append row_op_def)
  have "op_fits ?op" using entries_Key [OF wf] e by (auto simp: op_fits_def row_op_def fits_key_def)
  moreover have "before = base (row_Entity row)" if "map_of (undo_log ?ops) (row_Entity row) = None"
    using that s k e by (auto simp: undoable_def Let_def undo_log_def map_of_eq_None_iff image_iff)
  ultimately have "pending base K {} (?ops @ [?op])"
    using s k by (auto simp: undoable_def pending_def Let_def undo_log_def row_op_def map_add_def split: option.splits)
  moreover have "store_wf r s'" unfolding s'_def using wf by (intro store_wf_journal journal_wf_Append store_wfD(4))
  ultimately show "recorded r b K base (row_Entity row) (m, s')"
    using s by (auto simp: recorded_def undoable_def Let_def ops row_op_def) (simp add: s'_def)
  show "only_batch r b K (m, s) (m, s')"
    by (auto simp: only_batch_def beside_def fun_eq_iff ops) (simp add: s'_def)
qed

lemma undoable_merge:
  assumes s: "recorded r b K base k (m, s)" and k: "k \<in> K"
  shows "\<exists>s'. MergeWrite r k patch ow v s = Some s' \<and> only_batch r b K (m, s) (m, s') \<and> undoable r b K base (m, s')"
proof -
  let ?tick = "s\<lparr>s_now := \<lambda>n. s_now s (Suc n)\<rparr>"
  let ?e = "written k (merge_fields patch ow (old_fields (entries r s k))) v (s_now s 0)"
  let ?s = "set_entry r k (Some ?e) ?tick"
  have wf: "store_wf r s" using s by (simp add: recorded_def undoable_def Let_def)
  then have tick: "store_wf r ?tick" by (simp add: store_wf_frame)
  have e: "entries r ?s = (entries r s)(k \<mapsto> ?e)" using entries_set_entry [OF tick] by simp
  have "store_wf r ?s" using tick by (rule store_wf_set_entry) auto
  then have "undoable r b K base (m, ?s)"
    using s by (auto simp: recorded_def undoable_def Let_def e)
  moreover have "only_batch r b K (m, s) (m, ?s)"
    using k by (auto simp: only_batch_def beside_def fun_eq_iff e)
  ultimately show ?thesis using MergeWrite_eq [OF wf] by blast
qed

lemma safe_writeRowP_undoable:
  assumes E: "\<forall>x y. E x y \<longrightarrow> leaves_batch r b K x y" and k: "row_Entity row \<in> K"
    and "undoable r b K base ms"
  shows "safe E (only_batch r b K) (\<lambda>_. undoable r b K base) (writeRowP r row ow v b seg) ms"
  unfolding writeRowP_def
proof (rule safe_ask [OF batch_steady(1) [OF E] assms(3) only_batch_refl])
  fix m s
  assume s: "undoable r b K base (m, s)"
  let ?k = "row_Entity row"
  let ?append = "\<lambda>before s. s\<lparr>s_journal := Journal_Append (row_op row b seg before) (s_journal s)\<rparr>"
  let ?merge = "change (MergeWrite r ?k (build_patch row ow fmempty) ow v)"
  let ?safe = "\<lambda>p. safe E (only_batch r b K) (\<lambda>_. undoable r b K base) p"
  have merge: "?safe ?merge ms'" if "recorded r b K base ?k ms'" for ms'
    by (rule safe_change_last [OF recorded_steady [OF E] that batch_steady(1) [OF E]])
      (use undoable_merge k in blast)
  show "\<exists>x. EntryFor r ?k s = Some x \<and>
      ?safe (seq (change (\<lambda>s. Some (s\<lparr>s_journal := Journal_Append
          \<lparr>op_BatchID = b, op_Segment = seg, op_Key = ?k, op_Before = x\<rparr> (s_journal s)\<rparr>))) (\<lambda>_. ?merge)) (m, s)"
  proof (intro exI conjI)
    show "EntryFor r ?k s = Some (entries r s ?k)"
      using s by (simp add: EntryFor_wf undoable_def Let_def)
    let ?before = "entries r s ?k"
    have "?safe (seq (change (\<lambda>s. Some (?append ?before s))) (\<lambda>_. ?merge)) (m, s)"
    proof (rule safe_change [OF batch_steady(4) [OF E k]])
      show "undoable r b K base (m, s) \<and> entries r (snd (m, s)) ?k = ?before" using s by simp
      fix m s
      assume "undoable r b K base (m, s) \<and> entries r (snd (m, s)) ?k = ?before"
      then show "\<exists>s'. Some (?append ?before s) = Some s' \<and> only_batch r b K (m, s) (m, s') \<and> ?safe ?merge (m, s')"
        using undoable_append [of r b K base m s row ?before seg] k merge by auto
    qed
    then show "?safe (seq (change (\<lambda>s. Some (s\<lparr>s_journal := Journal_Append
          \<lparr>op_BatchID = b, op_Segment = seg, op_Key = ?k, op_Before = ?before\<rparr> (s_journal s)\<rparr>))) (\<lambda>_. ?merge)) (m, s)"
      by (simp add: row_op_def)
  qed
qed

text \<open>An import that refuses its file leaves the batch as it is.\<close>

lemma safe_ImportP_undoable:
  assumes E: "\<forall>x y. E x y \<longrightarrow> leaves_batch r b (row_Entity ` set rows) x y"
    and "undoable r b (row_Entity ` set rows) base ms" and "Registry_Get reg table = Some t" and "0 < im_windowSize im"
  shows "safe E (only_batch r b (row_Entity ` set rows)) (\<lambda>_. undoable r b (row_Entity ` set rows) base)
     (ImportP r reg b table rows v now im) ms"
proof (cases "b = '''' \<or> rows = []")
  case True
  then obtain err where "ImportP r reg b table rows v now im = Return (Inl err, im)"
    by (cases "b = ''''") (auto simp: ImportP_def)
  then show ?thesis using batch_steady(1) [OF E] assms(2) by (simp del: safe.simps add: safe_Return)
next
  case False
  let ?K = "row_Entity ` set rows" and ?ow = "fieldWindow (Some t) rows"
  have J: "row_contract E (only_batch r b ?K) (\<lambda>_. undoable r b ?K base) r (set rows) ?ow v b"
    unfolding row_contract_def using batch_steady(1) [OF E] safe_writeRowP_undoable [OF E] by simp
  show ?thesis
    by (rule safe_mono [OF import_contract [where J = "\<lambda>_. undoable r b ?K base", OF J]]) (use False assms in auto)
qed

text \<open>C22: An import can be undone while others run: if the batch is new and the others leave the file's
  entities and the batch's records alone, then an import followed by its rollback does not panic,
  wherever the others' steps fall, and once both have returned every entity of the file holds what
  it held at first, the batch has no records left, and the other entities and the records of the
  other batches are moved by the others alone.\<close>

theorem import_undone_among_others:
  fixes rows
  defines "K \<equiv> row_Entity ` set rows"
  assumes "store_wf r s" and "OpsFor (s_journal s) b = []" and "Registry_Get reg table = Some t"
    and "0 < im_windowSize im" and "\<forall>x y. E x y \<longrightarrow> leaves_batch r b K x y"
    and "(step_among E)\<^sup>*\<^sup>* (seq (ImportP r reg b table rows v now im) (\<lambda>_. RollbackBatchP r b), (m, s)) (p, ms)"
  shows "(\<forall>f. p = Step f \<longrightarrow> f ms \<noteq> None) \<and>
         (p = Return () \<longrightarrow>
            (\<forall>k \<in> K. entries r (snd ms) k = entries r s k) \<and> OpsFor (s_journal (snd ms)) b = []) \<and>
         (\<lambda>f g. \<exists>x y. E x y \<and> f = beside r b K x \<and> g = beside r b K y)\<^sup>*\<^sup>*
           (beside r b K (m, s)) (beside r b K ms)"
proof -
  have "undoable r b K (entries r s) (m, s)" using assms(2,3) by (simp add: undoable_def pending_def undo_log_def)
  then have "safe E (only_batch r b K) (\<lambda>_. undoable r b K (entries r s)) (ImportP r reg b table rows v now im) (m, s)"
    using safe_ImportP_undoable [of E r b rows] assms(4-6) unfolding K_def by blast
  then have "safe E (only_batch r b K) (\<lambda>_. undone r b K (entries r s))
      (seq (ImportP r reg b table rows v now im) (\<lambda>_. RollbackBatchP r b)) (m, s)"
    by (rule safe_seq [OF safe_mono]) (rule safe_RollbackBatchP [OF assms(6)])
  note contract = safe_contract [OF assms(7) this, of "beside r b K"]
  show ?thesis using contract by (auto simp: only_batch_def undone_def)
qed


lemma merging_leaves_batch: "merging r row ow v x y \<Longrightarrow> row_Entity row \<notin> K \<Longrightarrow> leaves_batch r b K x y"
  using merging_field(1-3) [of r row ow v x y] by (auto simp: leaves_batch_def)

lemma import_undone_among_others_witness:
  defines "E \<equiv> merging demo_router \<lparr>row_Entity = EntityKey ''user_3'', row_Fields = fmupd ''nick'' (StringValue ''bob'') fmempty\<rparr>
      [''nick''] ''w''"
    and "p \<equiv> seq (ImportP demo_router seeded ''b'' ''user_profile'' demo_rows ''v2'' 0 demo_importer)
      (\<lambda>_. RollbackBatchP demo_router ''b'')"
  shows "\<exists>q ms2 ms.
     step_among E (p, (demo_published, demo_written)) (q, (demo_published, demo_written)) \<and>
     E (demo_published, demo_written) ms2 \<and> (step_among E)\<^sup>*\<^sup>* (q, ms2) (Return (), ms) \<and>
     entries demo_router (snd ms) demo_user = entries demo_router demo_written demo_user \<and>
     OpsFor (s_journal (snd ms)) ''b'' = []"
proof -
  let ?K = "row_Entity ` set demo_rows" and ?ms = "(demo_published, demo_written)"
  let ?undone = "undone demo_router ''b'' ?K (entries demo_router demo_written)"
  have E: "\<forall>x y. E x y \<longrightarrow> leaves_batch demo_router ''b'' ?K x y"
    unfolding E_def by (auto intro!: merging_leaves_batch simp: demo_rows_def demo_user_def)
  have ok: "0 < im_windowSize demo_importer" "Registry_Get seeded ''user_profile'' = Some UserProfileTable"
    and fresh: "OpsFor (s_journal demo_written) ''b'' = []"
    by (simp_all add: demo_importer_window Get_seeded OpsFor_def NewJournal_def cache_demo_written)
  have "undoable demo_router ''b'' ?K (entries demo_router demo_written) ?ms"
    using store_wf_demo_written fresh by (simp add: undoable_def pending_def undo_log_def)
  note safe = safe_ImportP_undoable [OF E this ok(2,1)]
  have "safe E (only_batch demo_router ''b'' ?K) (\<lambda>_. ?undone) p ?ms"
    unfolding p_def by (rule safe_seq [OF safe_mono [OF safe]]) (rule safe_RollbackBatchP [OF E])
  moreover obtain ms2 where ms2: "E ?ms ms2"
    unfolding E_def merging_def by (fastforce simp: MergeWrite_eq [OF store_wf_demo_written])
  moreover have "asks p" unfolding p_def by (rule asks_seq [OF asks_demo_import])
  ultimately obtain q ms where q: "step_among E (p, ?ms) (q, ?ms)" "(step_among E)\<^sup>*\<^sup>* (q, ms2) (Return (), ms)"
    and run: "(step_among E)\<^sup>*\<^sup>* (p, ?ms) (Return (), ms)"
    using asks_runs by (metis (full_types) unit.exhaust)
  from import_undone_among_others [OF store_wf_demo_written fresh ok(2,1) E run [unfolded p_def]]
  have "\<forall>k \<in> ?K. entries demo_router (snd ms) k = entries demo_router demo_written k"
    "OpsFor (s_journal (snd ms)) ''b'' = []" by simp_all
  moreover have "demo_user \<in> ?K" by (simp add: demo_rows_def)
  ultimately show ?thesis using q ms2 by blast
qed

end
