(* ===== verification/ReadContract.thy ===== *)
theory ReadContract
  imports AmongOthers
begin

text \<open>
  What a read promises while others run that leave its entity alone but may switch versions: it
  answers with the view of the entity under one version, the one active when the read began, even
  if versions are published or rolled back before it ends, and reads and fillings of the cache by
  others fall in between.
\<close>

section \<open>Others that leave an entity alone\<close>

definition leaves_entity :: "Router \<Rightarrow> EntityKey \<Rightarrow> Shared \<Rightarrow> Shared \<Rightarrow> bool" where
  "leaves_entity r key x y \<longleftrightarrow>
     (shared_ok r {key} x \<longrightarrow>
        shared_ok r {key} y \<and> shared_moves r (\<lambda>k. if k = key then Fixed else Free) x y)"

lemma leaves_entity_star:
  "(leaves_entity r key)\<^sup>*\<^sup>* x y \<Longrightarrow> shared_ok r {key} x \<Longrightarrow>
     shared_ok r {key} y \<and> shared_moves r (\<lambda>k. if k = key then Fixed else Free) x y"
proof (induction rule: rtranclp_induct)
  case base
  then show ?case by (simp add: pool.refl)
next
  case (step y z)
  then show ?case using pool.trans unfolding leaves_entity_def by metis
qed

lemma rely_star: "E\<^sup>*\<^sup>* x y \<Longrightarrow> \<forall>x y. E x y \<longrightarrow> F x y \<Longrightarrow> F\<^sup>*\<^sup>* x y"
  by (metis mono_rtranclp)

text \<open>The view at the moment of a read's answer is the one at the moment it picked its version.\<close>

definition same_view :: "Router \<Rightarrow> EntityKey \<Rightarrow> string \<Rightarrow> Shared \<Rightarrow> Shared \<Rightarrow> bool" where
  "same_view r key v x y \<longleftrightarrow>
     shared_ok r {key} y \<and> known (fst y) v \<and> fresh r (fst y) (snd y) key v = fresh r (fst x) (snd x) key v"

lemma same_view_steady:
  assumes "\<forall>x y. E x y \<longrightarrow> leaves_entity r key x y"
  shows "steady E (same_view r key v x)"
  unfolding steady_def
proof (intro allI impI)
  fix y z
  assume y: "same_view r key v x y" and "E y z"
  obtain m s m' s' where [simp]: "y = (m, s)" "z = (m', s')" by (metis surj_pair)
  have z: "shared_ok r {key} (m', s')" "shared_moves r (\<lambda>k. if k = key then Fixed else Free) (m, s) (m', s')"
    using assms y \<open>E y z\<close> by (auto simp: leaves_entity_def same_view_def)
  then have e: "restates (m_versions m) (m_versions m')" "entries r s' key = entries r s key"
    unfolding shared_moves_def by (auto dest: spec [of _ key])
  have "known m v" using y by (simp add: same_view_def)
  with fresh_restates [OF e(1) this e(2)] known_restates [OF e(1)] z(1) y
  show "same_view r key v x z" by (simp add: same_view_def)
qed

section \<open>The read\<close>

lemma safe_ReadP:
  assumes E: "\<forall>x y. E x y \<longrightarrow> leaves_entity r key x y" and ok: "shared_ok r {key} a"
  shows "safe E (\<lambda>_ _. True)
     (\<lambda>snap _. \<exists>m s. E\<^sup>*\<^sup>* a (m, s) \<and> snap = fresh r m s key (resolveActiveVersionID m)) (ReadP r key '''') a"
    (is "safe E ?G ?Q _ _")
  unfolding ReadP_steps on_manager_def
proof (rule safe_act [where P = "E\<^sup>*\<^sup>* a"])
  show "steady E (E\<^sup>*\<^sup>* a)" by (auto simp: steady_def intro: rtranclp.rtrancl_into_rtrancl)
  show "E\<^sup>*\<^sup>* a a" by simp
  fix x
  assume x: "E\<^sup>*\<^sup>* a x"
  obtain m s where ms [simp]: "x = (m, s)" by (cases x)
  let ?v = "resolveActiveVersionID m"
  have answer: "?Q (fresh r m s key ?v) t" for t using x by auto
  have ok_x: "shared_ok r {key} x" using leaves_entity_star rely_star [OF x E] ok by blast
  then have view: "same_view r key ?v x x"
    using known_active [OF shared_okD(1)] by (auto simp: same_view_def)
  let ?put = "\<lambda>snap. seq (change (\<lambda>s. Some (s\<lparr>s_cache := Cache_Put (s_cache s) key ?v snap\<rparr>)))
      (\<lambda>_. Return (Snapshot_Clone snap))"
  have return: "safe E ?G ?Q (Return (fresh r m s key ?v)) t" for t using answer by simp
  have put: "safe E ?G ?Q (?put (fresh r m s key ?v)) t" for t
    by (rule safe_change [where P = "\<lambda>_. True"]) (use return in \<open>auto simp: steady_def simp del: safe.simps\<close>)
  have look_up: "safe E ?G ?Q (look_up r key ?v) t" if "same_view r key ?v x t" for t
    unfolding look_up_def
  proof (rule safe_act [OF same_view_steady [OF E] that])
    fix u
    assume u: "same_view r key ?v x u"
    obtain m' s' where [simp]: "u = (m', s')" by (cases u)
    have "shared_ok r {key} (m', s')" using u by (simp add: same_view_def)
    then have "read_entry r s' key = Some (entries r s' key)" by (rule read_entry_wf [OF shared_okD(3)])
    moreover have "fresh r m' s' key ?v = fresh r m s key ?v" using u by (simp add: same_view_def)
    ultimately show "\<exists>snap w. (case u of (m, s) \<Rightarrow> map_option
          (\<lambda>entry. (case entry of None \<Rightarrow> EmptySnapshot key ?v | Some e \<Rightarrow> entrySnapshot m e ?v, (m, s)))
          (read_entry r s key)) = Some (snap, w) \<and> True \<and> safe E ?G ?Q (?put snap) w"
      using put by (simp add: fresh_def del: safe.simps)
  qed
  have "safe E ?G ?Q (seq (ask (\<lambda>s. Some (Cache_Get (s_cache s) key ?v)))
      (\<lambda>cached. case cached of Some snap \<Rightarrow> Return (Snapshot_Clone snap) | None \<Rightarrow> look_up r key ?v)) x"
  proof (rule safe_ask [OF same_view_steady [OF E] view])
    fix m' s'
    assume t: "same_view r key ?v x (m', s')"
    then have "snap = fresh r m s key ?v" if "Cache_Get (s_cache s') key ?v = Some snap" for snap
      using shared_okD(4) [of r "{key}" m' s' key ?v snap] that by (simp add: same_view_def)
    then show "\<exists>c. Some (Cache_Get (s_cache s') key ?v) = Some c \<and> safe E ?G ?Q
        (case c of Some snap \<Rightarrow> Return (Snapshot_Clone snap) | None \<Rightarrow> look_up r key ?v) (m', s')"
      using look_up [OF t] return by (auto split: option.splits simp del: safe.simps)
  qed simp_all
  then show "\<exists>v w. (case x of (m, s) \<Rightarrow> case (resolveActiveVersionID m, m) of (v, m) \<Rightarrow> Some (v, (m, s))) = Some (v, w) \<and>
      True \<and> safe E ?G ?Q (seq (ask (\<lambda>s. Some (Cache_Get (s_cache s) key v)))
        (\<lambda>cached. case cached of Some snap \<Rightarrow> Return (Snapshot_Clone snap) | None \<Rightarrow> look_up r key v)) w"
    by (simp del: safe.simps Snapshot_Clone_id)
qed

text \<open>C5: A read sees one version: among calls that leave its entity alone, version switches included, a
  read does not panic, and what it answers is the entity's view, under the layout and the identifier
  of the version that was active at one moment after the call was made, when only the others had
  moved; a switch that comes later does not mix with it.\<close>

theorem read_sees_one_version:
  assumes "shared_ok r {key} (m, s)" and "\<forall>x y. E x y \<longrightarrow> leaves_entity r key x y"
    and "(step_among E)\<^sup>*\<^sup>* (ReadP r key '''', (m, s)) (p, ms)"
  shows "(\<forall>f. p = Step f \<longrightarrow> f ms \<noteq> None) \<and>
         (\<forall>snap. p = Return snap \<longrightarrow>
            (\<exists>m' s'. E\<^sup>*\<^sup>* (m, s) (m', s') \<and> snap = fresh r m' s' key (resolveActiveVersionID m')))"
proof -
  note contract = safe_contract [OF assms(3) safe_ReadP [OF assms(2,1)], of "\<lambda>_. ()"]
  show ?thesis using contract(1,2) by simp
qed


lemma publish_leaves_entity: "leaves_entity r key x (snd (Publish_store vid x))"
  unfolding leaves_entity_def
proof (intro impI)
  assume ok: "shared_ok r {key} x"
  let ?F = "\<lambda>k. if k = key then Fixed else Free"
  have "keeps r {key} ?F (PublishP vid) x" using ok by (rule keeps_PublishP)
  note safe = pool.keeps_safe [OF this ok]
  have "alone (PublishP vid) x = Some (fst (Publish_store vid x), snd (Publish_store vid x))"
    by (simp add: alone_PublishP)
  from safe_answer [OF safe_run [OF step_among_alone [OF this] safe]]
  show "shared_ok r {key} (snd (Publish_store vid x)) \<and> shared_moves r ?F x (snd (Publish_store vid x))" .
qed

lemma read_sees_one_version_witness:
  defines "E \<equiv> \<lambda>x y. y = snd (Publish_store ''user_profile-v2'' x)"
  shows "\<exists>q ms2 snap ms m' s'.
     step_among E (ReadP demo_router demo_user '''', (demo_published, demo_written)) (q, (demo_published, demo_written)) \<and>
     E (demo_published, demo_written) ms2 \<and> resolveActiveVersionID (fst ms2) = ''user_profile-v2'' \<and>
     (step_among E)\<^sup>*\<^sup>* (q, ms2) (Return snap, ms) \<and>
     E\<^sup>*\<^sup>* (demo_published, demo_written) (m', s') \<and>
     snap = fresh demo_router m' s' demo_user (resolveActiveVersionID m')"
proof -
  let ?ms = "(demo_published, demo_written)" and ?read = "ReadP demo_router demo_user ''''"
  let ?ms2 = "snd (Publish_store ''user_profile-v2'' ?ms)"
  have E: "\<forall>x y. E x y \<longrightarrow> leaves_entity demo_router demo_user x y"
    unfolding E_def using publish_leaves_entity by blast
  have ok: "shared_ok demo_router {demo_user} ?ms" by (rule sound_shared_ok [OF sound_demo])
  have ms2: "E ?ms ?ms2" by (simp add: E_def)
  obtain v where v: "fmlookup (m_versions demo_published) ''user_profile-v2'' = Some v" "v_State v = VersionDraft"
    by (simp add: demo_published_eq demo_created_eq)
  then have v2: "resolveActiveVersionID (fst ?ms2) = ''user_profile-v2''"
    using Publish_wf_eq [OF wf_demo_published v] manager_wfD(2) [OF wf_demo_published v(1)]
    by (simp add: Publish_store_def resolveActiveVersionID_def ResolveActive_def active_record_def IsActive_def
        after_publish_lookup published_record_def)
  from asks_runs [OF asks_calls(3) safe_ReadP [OF E ok] ms2]
  obtain q snap ms where q: "step_among E (?read, ?ms) (q, ?ms)" "(step_among E)\<^sup>*\<^sup>* (q, ?ms2) (Return snap, ms)"
    and run: "(step_among E)\<^sup>*\<^sup>* (?read, ?ms) (Return snap, ms)" by blast
  from read_sees_one_version [OF ok E run]
  obtain m' s' where "E\<^sup>*\<^sup>* ?ms (m', s')" "snap = fresh demo_router m' s' demo_user (resolveActiveVersionID m')" by blast
  with q ms2 v2 show ?thesis by blast
qed

end
