(* ===== verification/BackfillContract.thy ===== *)
theory BackfillContract
  imports AmongOthers
begin

text \<open>
  What a backfill promises while others run that leave its entities alone: each row is compared,
  added to what its entity held at first, and written exactly when the version guard lets it, and
  the number of rows written is returned. Two backfills of the same entity are not alone in this
  sense: \<open>Races\<close> shows that one may lose the other's update.
\<close>

section \<open>Others that leave a set of entities alone\<close>

definition leaves_entries :: "Router \<Rightarrow> EntityKey set \<Rightarrow> Shared \<Rightarrow> Shared \<Rightarrow> bool" where
  "leaves_entries r K x y \<longleftrightarrow>
     (store_wf r (snd x) \<longrightarrow>
        store_wf r (snd y) \<and> (\<forall>k \<in> K. entries r (snd y) k = entries r (snd x) k))"

definition other_entries :: "Router \<Rightarrow> EntityKey set \<Rightarrow> Shared \<Rightarrow> EntityKey \<Rightarrow> Entry option" where
  "other_entries r K x k = (if k \<in> K then None else entries r (snd x) k)"

definition only_entries :: "Router \<Rightarrow> EntityKey set \<Rightarrow> Shared \<Rightarrow> Shared \<Rightarrow> bool" where
  "only_entries r K x y \<longleftrightarrow> other_entries r K y = other_entries r K x"

lemma only_entries_refl [simp]: "only_entries r K x x"
  by (simp add: only_entries_def)

section \<open>A run\<close>

text \<open>
  A run that began with \<open>base\<close> and has come to the entities \<open>D\<close>: those whose guard lets the version in
  hold the sum of their row and what they held, all other entities of \<open>K\<close> what they held.
\<close>

definition lets :: "(EntityKey \<Rightarrow> Entry option) \<Rightarrow> Version \<Rightarrow> EntityKey \<Rightarrow> bool" where
  "lets base version k \<longleftrightarrow> \<not> stale_write (base k) (v_ID version)"

definition ran ::
  "Router \<Rightarrow> EntityKey set \<Rightarrow> (EntityKey \<Rightarrow> Entry option) \<Rightarrow> Version \<Rightarrow> (EntityKey \<Rightarrow> Result) \<Rightarrow> EntityKey set \<Rightarrow>
   Shared \<Rightarrow> bool" where
  "ran r K base version row D x \<longleftrightarrow>
     store_wf r (snd x) \<and>
     (\<forall>k \<in> K. if k \<in> D \<and> lets base version k
              then \<exists>t. entries r (snd x) k =
                     Some (written k (add_counters (base k) (res_Fields (row k))) (v_ID version) t)
              else entries r (snd x) k = base k)"

lemma ranD:
  assumes "ran r K base version row D (m, s)"
  shows "store_wf r s" "k \<in> K \<Longrightarrow> k \<notin> D \<Longrightarrow> entries r s k = base k"
  using assms by (auto simp: ran_def)

lemma ran_steady:
  "\<forall>x y. E x y \<longrightarrow> leaves_entries r K x y \<Longrightarrow> steady E (ran r K base version row D)"
  by (simp add: steady_def leaves_entries_def ran_def)

lemma ran_write:
  assumes s: "ran r K base version row D (m, s)" and k: "k \<in> K" "k \<notin> D"
  defines "fs \<equiv> add_counters (base k) (res_Fields (row k))"
  shows "\<exists>s'. CompareAndWrite r k fs version s = Some (lets base version k, s') \<and>
           only_entries r K (m, s) (m, s') \<and> ran r K base version row (insert k D) (m, s')"
proof -
  have wf: "store_wf r s" and e: "entries r s k = base k" using ranD [OF s] k by simp_all
  let ?tick = "s\<lparr>s_now := \<lambda>n. s_now s (Suc n)\<rparr>" and ?w = "written k fs (v_ID version) (s_now s 0)"
  let ?s = "set_entry r k (Some ?w) ?tick"
  have tick: "store_wf r ?tick" using wf by (simp add: store_wf_frame)
  have new: "entries r ?s = (entries r s)(k \<mapsto> ?w)" using entries_set_entry [OF tick] by simp
  have wf': "store_wf r ?s" using tick by (rule store_wf_set_entry) auto
  show ?thesis
  proof (cases "lets base version k")
    case True
    have "ran r K base version row (insert k D) (m, ?s)"
      using s wf' True by (auto simp: ran_def new fs_def [symmetric])
    moreover have "only_entries r K (m, s) (m, ?s)"
      using k by (simp add: only_entries_def other_entries_def fun_eq_iff new)
    ultimately show ?thesis using True e by (simp add: CompareAndWrite_eq [OF wf] lets_def)
  next
    case False
    then have "ran r K base version row (insert k D) (m, s)" using s by (auto simp: ran_def)
    with False e show ?thesis by (simp add: CompareAndWrite_eq [OF wf] lets_def)
  qed
qed

lemma safe_writeResultP:
  assumes E: "\<forall>x y. E x y \<longrightarrow> leaves_entries r K x y" and "ran r K base version row D ms"
    and k: "k \<in> K" "k \<notin> D" and res: "res_Entity res = k" "res_Fields res = res_Fields (row k)"
  shows "safe E (only_entries r K)
     (\<lambda>x ms. fst x = lets base version k \<and> ran r K base version row (insert k D) ms) (writeResultP r res version) ms"
    (is "safe E ?G ?Q _ _")
  unfolding writeResultP_def
proof (rule safe_ask [OF ran_steady [OF E] assms(2) only_entries_refl])
  fix m s
  assume s: "ran r K base version row D (m, s)"
  let ?fs = "add_counters (base k) (res_Fields (row k))"
  have "safe E ?G ?Q (seq (on_store (CompareAndWrite r k ?fs version)) (\<lambda>ok. Return (ok, ?fs))) (m, s)"
    unfolding on_store_def
  proof (rule safe_act [OF ran_steady [OF E] s])
    fix x
    assume x: "ran r K base version row D x"
    obtain m s where [simp]: "x = (m, s)" by (cases x)
    have "ran r K base version row D (m, s)" using x by simp
    from ran_write [OF this k]
    obtain s' where s': "CompareAndWrite r k ?fs version s = Some (lets base version k, s')"
      "only_entries r K (m, s) (m, s')" "ran r K base version row (insert k D) (m, s')" by blast
    have "safe E ?G ?Q (Return (lets base version k, ?fs)) (m, s')"
      using s'(3) ran_steady [OF E] by (intro safe_Return) (simp_all add: steady_def)
    with s' show "\<exists>y u. (case x of (m, s) \<Rightarrow> map_option (\<lambda>(y, s). (y, (m, s))) (CompareAndWrite r k ?fs version s)) =
        Some (y, u) \<and> ?G x u \<and> safe E ?G ?Q (Return (y, ?fs)) u" by (simp del: safe.simps)
  qed
  moreover have "EntryFor r k s = Some (base k)" using ranD [OF s] k by (simp add: EntryFor_wf)
  ultimately show "\<exists>x. EntryFor r (res_Entity res) s = Some x \<and> safe E ?G ?Q
      (let fs = add_counters x (res_Fields res)
       in seq (on_store (CompareAndWrite r (res_Entity res) fs version)) (\<lambda>ok. Return (ok, fs))) (m, s)"
    by (simp add: res Let_def del: safe.simps)
qed

lemma set_result_keys: "res_Entity ` set (set_result key fs rows) = res_Entity ` set rows"
  by (induction key fs rows rule: set_result.induct) auto

lemma safe_run_loopP:
  assumes E: "\<forall>x y. E x y \<longrightarrow> leaves_entries r K x y"
  shows "ran r K base version row D ms \<Longrightarrow> distinct keys \<Longrightarrow> set keys \<subseteq> K \<Longrightarrow> set keys \<inter> D = {} \<Longrightarrow>
     (\<forall>k \<in> set keys. k \<in> res_Entity ` set rows \<and> res_Fields (resultFor rows k) = res_Fields (row k)) \<Longrightarrow>
     safe E (only_entries r K)
       (\<lambda>(n, _, _) ms. n = num + length (filter (lets base version) keys) \<and>
          ran r K base version row (D \<union> set keys) ms)
       (run_loopP r version keys num task rows) ms"
proof (induction keys arbitrary: D num task rows ms)
  case Nil
  then show ?case
    unfolding run_loopP.simps using ran_steady [OF E] by (intro safe_Return) (simp_all add: steady_def)
next
  case (Cons k keys)
  let ?Q = "\<lambda>(n, _, _) ms. n = num + length (filter (lets base version) (k # keys)) \<and>
      ran r K base version row (D \<union> set (k # keys)) ms"
  have res: "res_Entity (resultFor rows k) = k" "res_Fields (resultFor rows k) = res_Fields (row k)"
    using Cons.prems(5) resultFor_Entity by auto
  have k: "k \<in> K" "k \<notin> D" using Cons.prems(3,4) by auto
  show ?case
    unfolding run_loopP.simps
  proof (rule safe_seq [OF safe_mono [OF safe_writeResultP [OF E Cons.prems(1) k res]]])
    fix x :: "bool \<times> Fields" and ms'
    assume x: "fst x = lets base version k \<and> ran r K base version row (insert k D) ms'"
    obtain ok fs where [simp]: "x = (ok, fs)" by (cases x)
    have keep: "\<forall>j \<in> set keys. j \<in> res_Entity ` set (set_result k fs rows) \<and>
        res_Fields (resultFor (set_result k fs rows) j) = res_Fields (row j)"
      using Cons.prems(2,5) by (auto simp: resultFor_set_result set_result_keys)
    have "safe E (only_entries r K)
        (\<lambda>(n, _, _) ms. n = (if ok then num + 1 else num) + length (filter (lets base version) keys) \<and>
           ran r K base version row (insert k D \<union> set keys) ms)
        (run_loopP r version keys (if ok then num + 1 else num) (bump task) (set_result k fs rows)) ms'"
      using x Cons.prems keep by (intro Cons.IH) auto
    then have "safe E (only_entries r K) ?Q
        (run_loopP r version keys (if ok then num + 1 else num) (bump task) (set_result k fs rows)) ms'"
      by (rule safe_mono) (use x in \<open>auto split: if_splits\<close>)
    then show "safe E (only_entries r K) ?Q (case x of (ok, fs) \<Rightarrow>
        run_loopP r version keys (if ok then num + 1 else num) (bump task) (set_result k fs rows)) ms'"
      by simp
  qed
qed


lemma safe_RunP:
  fixes rows
  defines "K \<equiv> res_Entity ` set rows"
  assumes E: "\<forall>x y. E x y \<longrightarrow> leaves_entries r K x y" and wf: "store_wf r s" and "t \<noteq> ''''"
    and d: "distinct (map res_Entity rows)"
  shows "safe E (only_entries r K)
     (\<lambda>(res, _, _) ms. res = Inr (card {k \<in> K. lets (entries r s) version k}) \<and>
        ran r K (entries r s) version (resultFor rows) K ms)
     (RunP r t version rows t1 t2 b) (m, s)"
    (is "safe E ?G ?Q _ _")
proof -
  let ?keys = "plan_Order (BuildPlan rows)" and ?lets = "lets (entries r s) version"
  have keys: "set ?keys = K" "distinct ?keys" using d by (simp_all add: plan_keys K_def)
  have "distinct (filter ?lets ?keys)" using keys(2) by simp
  then have n: "length (filter ?lets ?keys) = card {k \<in> K. ?lets k}"
    using keys(1) by (simp add: distinct_card [symmetric])
  have start: "ran r K (entries r s) version (resultFor rows) {} (m, s)" using wf by (simp add: ran_def)
  have "safe E ?G ?Q (seq (run_loopP r version ?keys 0 task rows) (\<lambda>(num, task, rows).
      Return (Inr num, rows, b\<lparr>bf_tasks := fmupd t (task\<lparr>task_UpdatedAt := t2\<rparr>) (bf_tasks b)\<rparr>))) (m, s)" for task
  proof (rule safe_seq [OF safe_mono [OF safe_run_loopP [OF E start keys(2)]]])
    show "set ?keys \<subseteq> K" "set ?keys \<inter> {} = {}" using keys(1) by simp_all
    show "\<forall>k \<in> set ?keys. k \<in> res_Entity ` set rows \<and> res_Fields (resultFor rows k) = res_Fields (resultFor rows k)"
      using keys(1) by (simp add: K_def)
    fix x :: "nat \<times> Task \<times> Result list" and ms'
    assume "(case x of (n, _, _) \<Rightarrow> \<lambda>ms. n = 0 + length (filter ?lets ?keys) \<and>
        ran r K (entries r s) version (resultFor rows) ({} \<union> set ?keys) ms) ms'"
    then show "safe E ?G ?Q (case x of (num, task, rows) \<Rightarrow>
        Return (Inr num, rows, b\<lparr>bf_tasks := fmupd t (task\<lparr>task_UpdatedAt := t2\<rparr>) (bf_tasks b)\<rparr>)) ms'"
      using ran_steady [OF E] keys(1) n by (cases x) (auto simp: steady_def simp del: safe.simps intro!: safe_Return)
  qed
  then show ?thesis using assms(4) by (simp add: RunP_def del: safe.simps)
qed

text \<open>C23: A backfill among other calls: as long as the others leave its entities alone, a run over rows with
  distinct entities does not panic, wherever their steps fall; it returns the number of rows whose
  entity was not stored under a newer version when it began, then each of these entities holds
  the row's fields under the task's version, a counter added once to what was there, the refused
  ones what they held, and the other entities are moved by the others alone.\<close>

theorem run_among_others:
  fixes rows
  defines "K \<equiv> res_Entity ` set rows"
  assumes "store_wf r s" and "t \<noteq> ''''" and "distinct (map res_Entity rows)"
    and "\<forall>x y. E x y \<longrightarrow> leaves_entries r K x y"
    and "(step_among E)\<^sup>*\<^sup>* (RunP r t version rows t1 t2 b, (m, s)) (p, ms)"
  shows "(\<forall>f. p = Step f \<longrightarrow> f ms \<noteq> None) \<and>
         (\<forall>res rows' b'. p = Return (res, rows', b') \<longrightarrow>
            res = Inr (card {k \<in> K. \<not> stale_write (entries r s k) (v_ID version)}) \<and>
            (\<forall>row \<in> set rows. let k = res_Entity row in
               if stale_write (entries r s k) (v_ID version) then entries r (snd ms) k = entries r s k
               else map_option e_VersionID (entries r (snd ms) k) = Some (v_ID version) \<and>
                 (\<forall>name. field_of r (snd ms) k name =
                    (case fmlookup (res_Fields row) name of
                       None \<Rightarrow> None
                     | Some v \<Rightarrow> Some (case field_of r s k name of
                           None \<Rightarrow> v
                         | Some old \<Rightarrow>
                             if fv_Type v = FieldInt \<and> fv_Type old = FieldInt
                             then IntValue (fv_Int old + fv_Int v) else v))))) \<and>
         (\<lambda>f g. \<exists>x y. E x y \<and> f = other_entries r K x \<and> g = other_entries r K y)\<^sup>*\<^sup>*
           (other_entries r K (m, s)) (other_entries r K ms)"
proof -
  have "safe E (only_entries r K)
     (\<lambda>(res, _, _) ms. res = Inr (card {k \<in> K. lets (entries r s) version k}) \<and>
        ran r K (entries r s) version (resultFor rows) K ms) (RunP r t version rows t1 t2 b) (m, s)"
    using safe_RunP [of E r rows] assms(2-5) unfolding K_def by blast
  note contract = safe_contract [OF assms(6) this, of "other_entries r K"]
  have "res = Inr (card {k \<in> K. \<not> stale_write (entries r s k) (v_ID version)})"
    and "ran r K (entries r s) version (resultFor rows) K ms" if "p = Return (res, rows', b')" for res rows' b'
    using contract(2) [OF _ that] by (simp_all add: lets_def only_entries_def)
  moreover have "let k = res_Entity row in
      if stale_write (entries r s k) (v_ID version) then entries r (snd ms) k = entries r s k
      else map_option e_VersionID (entries r (snd ms) k) = Some (v_ID version) \<and>
        (\<forall>name. field_of r (snd ms) k name =
           (case fmlookup (res_Fields row) name of
              None \<Rightarrow> None
            | Some v \<Rightarrow> Some (case field_of r s k name of
                  None \<Rightarrow> v
                | Some old \<Rightarrow> if fv_Type v = FieldInt \<and> fv_Type old = FieldInt
                    then IntValue (fv_Int old + fv_Int v) else v)))"
    if ran: "ran r K (entries r s) version (resultFor rows) K ms" and row: "row \<in> set rows" for row
  proof -
    let ?k = "res_Entity row"
    have k: "?k \<in> K" using row by (simp add: K_def)
    have "resultFor rows ?k = row" using assms(4) row by (rule resultFor_distinct)
    with bspec [OF conjunct2 [OF ran [unfolded ran_def]] k] k show ?thesis
      by (auto simp: lets_def Let_def field_of_def written_def add_counters_lookup add_counter_def split: option.splits)
  qed
  ultimately show ?thesis using contract(1,3) by (simp add: only_entries_def)
qed


lemma merging_leaves_entries: "merging r row ow v x y \<Longrightarrow> row_Entity row \<notin> K \<Longrightarrow> leaves_entries r K x y"
  using merging_field(1,3) [of r row ow v x y] by (auto simp: leaves_entries_def)

lemma asks_run_one: "t \<noteq> '''' \<Longrightarrow> asks (RunP r t version [row] t1 t2 b)"
  by (simp add: RunP_def BuildPlan_def writeResultP_def)

lemma run_among_others_witness:
  defines "E \<equiv> merging demo_router \<lparr>row_Entity = EntityKey ''user_3'', row_Fields = fmupd ''nick'' (StringValue ''bob'') fmempty\<rparr>
      [''nick''] ''w''"
    and "p \<equiv> RunP demo_router ''task'' (demo_version 1) [demo_result demo_user 12] 0 0 NewBackfill"
  shows "\<exists>q ms2 rows' b' ms.
     step_among E (p, (demo_published, demo_written)) (q, (demo_published, demo_written)) \<and>
     E (demo_published, demo_written) ms2 \<and> (step_among E)\<^sup>*\<^sup>* (q, ms2) (Return (Inr 1, rows', b'), ms) \<and>
     field_of demo_router (snd ms) demo_user ''age'' = Some (IntValue 42)"
proof -
  let ?ms = "(demo_published, demo_written)" and ?rows = "[demo_result demo_user 12]"
  have E: "\<forall>x y. E x y \<longrightarrow> leaves_entries demo_router (res_Entity ` set ?rows) x y"
    unfolding E_def by (auto intro!: merging_leaves_entries simp: demo_result_def demo_user_def)
  have d: "distinct (map res_Entity ?rows)" and ne: "''task'' \<noteq> ''''" by simp_all
  have acc: "\<not> stale_write (entries demo_router demo_written demo_user) (v_ID (demo_version 1))"
    using demo_accepted by (simp add: accepted_def)
  obtain ms2 where ms2: "E ?ms ms2"
    unfolding E_def merging_def by (fastforce simp: MergeWrite_eq [OF store_wf_demo_written])
  have "asks p" unfolding p_def by (rule asks_run_one [OF ne])
  moreover have "\<exists>Q. safe E (only_entries demo_router (res_Entity ` set ?rows)) Q p ?ms"
    unfolding p_def using safe_RunP [OF E store_wf_demo_written ne d] by blast
  ultimately
  obtain q x ms where q: "step_among E (p, ?ms) (q, ?ms)" "(step_among E)\<^sup>*\<^sup>* (q, ms2) (Return x, ms)"
    and run: "(step_among E)\<^sup>*\<^sup>* (p, ?ms) (Return x, ms)"
    using asks_runs ms2 by metis
  obtain res rows' b' where [simp]: "x = (res, rows', b')" by (cases x)
  have "{k \<in> res_Entity ` set ?rows. \<not> stale_write (entries demo_router demo_written k) (v_ID (demo_version 1))} =
      {demo_user}" using acc by (auto simp: demo_result_def)
  with run_among_others [OF store_wf_demo_written ne d E run [unfolded p_def]]
  have "res = Inr 1" "field_of demo_router (snd ms) demo_user ''age'' = Some (IntValue (30 + 12))"
    using acc demo_counter by (auto simp: demo_result_def counter_def value_ctor_defs Let_def)
  then have "(step_among E)\<^sup>*\<^sup>* (q, ms2) (Return (Inr 1, rows', b'), ms)"
    and "field_of demo_router (snd ms) demo_user ''age'' = Some (IntValue 42)" using q(2) by simp_all
  with q(1) ms2 show ?thesis by blast
qed

end
