(* ===== verification/Serving.thy ===== *)
theory Serving
  imports Interleaving
begin

text \<open>
  HTTP requests at the same time. \<open>serve\<close> is the handler of a request as a call cut into atomic
  steps: what it decodes and answers is its own, what it asks of the store and the manager goes
  through their locks. \<open>net/http\<close> runs every handler in a goroutine of its own, so the requests in
  flight are a pool. Served alone, a request is answered as \<open>handle\<close> answers it; served together
  with any others, it is answered too. A request to expand the shards is not among them
  (\<open>ParallelExpansion\<close>), so \<open>serve\<close> is partial.
\<close>

section \<open>The handlers as calls (handlers.go)\<close>

definition serveRead :: "string \<Rightarrow> World \<Rightarrow> Response call" where
  "serveRead key w =
     (if key = '''' then Return (400, PError MissingKey)
      else case ParseEntity key of
        Inl err \<Rightarrow> Return (400, PError (KeyError err))
      | Inr key \<Rightarrow>
          reply (\<lambda>snapshot. (200, PRead (snap_Entity snapshot) (snap_VersionID snapshot) (fieldsAsStrings snapshot)))
            (ReadP (w_router w) key ''''))"

definition serveWrite :: "Runtime \<Rightarrow> string + WriteRequest \<Rightarrow> World \<Rightarrow> Response call" where
  "serveWrite rt body w =
     (case body of
        Inl err \<Rightarrow> Return (400, PError (BadRequest err))
      | Inr req \<Rightarrow>
          if wr_Key req = '''' then Return (400, PError MissingKey)
          else case ParseEntity (wr_Key req) of
            Inl err \<Rightarrow> Return (400, PError (KeyError err))
          | Inr parsed \<Rightarrow>
            (case decodeFields (rt_outside rt) (rt_names rt) (wr_Fields req) of
               Inl name \<Rightarrow> Return (400, PError (CannotDecode name))
             | Inr fs \<Rightarrow> reply (\<lambda>_. (200, PWritten)) (WriteP (w_router w) parsed fs (wr_VersionID req))))"

definition switched :: "VersionError + Version \<Rightarrow> Response" where
  "switched res = (case res of Inl err \<Rightarrow> (409, PError (VersionError err)) | Inr v \<Rightarrow> (200, PActive (v_ID v)))"

definition servePublish :: "string + string \<Rightarrow> Response call" where
  "servePublish body =
     (case body of
        Inl err \<Rightarrow> Return (400, PError (BadRequest err))
      | Inr versionID \<Rightarrow> reply switched (PublishP versionID))"

definition serveRollback :: "string + string \<Rightarrow> Response call" where
  "serveRollback body =
     (case body of
        Inl err \<Rightarrow> Return (400, PError (BadRequest err))
      | Inr versionID \<Rightarrow> reply switched (RollbackP versionID))"

definition serveImport :: "Runtime \<Rightarrow> string + ImportRequest \<Rightarrow> World \<Rightarrow> Response call" where
  "serveImport rt body w =
     (case body of
        Inl err \<Rightarrow> Return (400, PError (BadRequest err))
      | Inr req \<Rightarrow>
        (case decode_rows rt (ireq_Rows req) of
           Inl name \<Rightarrow> Return (400, PError (CannotDecode name))
         | Inr decoded \<Rightarrow>
             reply (\<lambda>(res, im). case res of
                        Inl err \<Rightarrow> (500, PError (ImportError err))
                      | Inr batch \<Rightarrow> (200, PImport (b_ID batch) (length (b_Segments batch))))
               (ImportP (w_router w) (w_tables w) (ireq_BatchID req) (ireq_TableID req) (map import_row decoded)
                 (ireq_VersionID req) (fst (tick (w_now w))) (w_importer w))))"

definition serveBackfill :: "Runtime \<Rightarrow> string + BackfillRequest \<Rightarrow> World \<Rightarrow> Response call" where
  "serveBackfill rt body w =
     (case body of
        Inl err \<Rightarrow> Return (400, PError (BadRequest err))
      | Inr req \<Rightarrow>
        seq (on_manager (\<lambda>m. (Manager_Get m (breq_VersionID req), m))) (\<lambda>found.
        case found of
          None \<Rightarrow> Return (404, PError VersionUnknown)
        | Some version \<Rightarrow>
          (case decode_rows rt (breq_Rows req) of
             Inl name \<Rightarrow> Return (400, PError (CannotDecode name))
           | Inr decoded \<Rightarrow>
               let rows = map result_row decoded in
               if breq_Retry req
               then reply (\<lambda>(n, rows). (200, PCount n)) (RetryP (w_router w) (breq_TaskID req) version rows)
               else
                 let (t1, clk) = tick (w_now w);
                     (t2, clk) = tick clk
                 in reply (\<lambda>(res, rows, b). case res of
                             Inl err \<Rightarrow> (500, PError (RunError err))
                           | Inr n \<Rightarrow> (200, PCount n))
                      (RunP (w_router w) (breq_TaskID req) version rows t1 t2 (w_backfill w)))))"

definition serveSyncCheck :: "Runtime \<Rightarrow> time \<Rightarrow> time \<Rightarrow> World \<Rightarrow> Response call" where
  "serveSyncCheck rt begin until w =
     (let until = (if until = 0 then fst (tick (w_now w)) else until);
          begin = (if begin = 0 then until - nanos_per_hour else begin)
      in reply (\<lambda>res. case res of
                  Inl err \<Rightarrow> (500, PError (RangeError err))
                | Inr diffs \<Rightarrow> (200, PDiffs diffs (length diffs)))
           (CheckP (w_router w) (w_checker w) (rt_shards rt) begin until offlineView))"

definition serveTTLScan :: "Runtime \<Rightarrow> World \<Rightarrow> Response call" where
  "serveTTLScan rt w =
     reply (\<lambda>expired. (200, PExpired expired))
       (ScanP (w_router w) (rt_shards rt 0) (w_scanner w) (fst (tick (w_now w))))"

definition serveHealth :: "World \<Rightarrow> Response call" where
  "serveHealth w =
     (case Registry_List (w_tables w) of
        None \<Rightarrow> panic
      | Some tables \<Rightarrow> Return (200, PHealth (map t_ID tables) (Router_ShardCount (w_router w)) (w_startedAt w)))"

definition serveVersions :: "Response call" where
  "serveVersions =
     seq (on_manager (\<lambda>m. (Manager_List m, m))) (\<lambda>listed.
     case listed of
       None \<Rightarrow> panic
     | Some versions \<Rightarrow> Return (200, PVersions (map (\<lambda>v. (v_ID v, v_TableID v, v_State v)) versions)))"

definition serve :: "Runtime \<Rightarrow> World \<Rightarrow> Request \<Rightarrow> Response call option" where
  "serve rt w req =
     (case req of
        ReqHealth \<Rightarrow> Some (serveHealth w)
      | ReqRead key \<Rightarrow> Some (serveRead key w)
      | ReqWrite body \<Rightarrow> Some (serveWrite rt body w)
      | ReqPublish body \<Rightarrow> Some (servePublish body)
      | ReqRollback body \<Rightarrow> Some (serveRollback body)
      | ReqImport body \<Rightarrow> Some (serveImport rt body w)
      | ReqBackfill body \<Rightarrow> Some (serveBackfill rt body w)
      | ReqExpand body \<Rightarrow> None
      | ReqSyncCheck begin until \<Rightarrow> Some (serveSyncCheck rt begin until w)
      | ReqTTLScan \<Rightarrow> Some (serveTTLScan rt w)
      | ReqVersions \<Rightarrow> Some serveVersions)"

section \<open>A request on its own\<close>

definition answer :: "Response \<times> World \<Rightarrow> Response \<times> Shared" where
  "answer = (\<lambda>(resp, w). (resp, (w_versions w, w_store w)))"

lemma alone_reply_bind: "alone (reply f p) ms = map_option (\<lambda>(x, ms). (f x, ms)) (alone p ms)"
  by (cases "alone p ms") (auto simp: reply_def)

lemmas alone_served = alone_reply_bind alone_ReadP alone_WriteP alone_PublishP alone_RollbackP alone_ImportP
  alone_RunP alone_RetryP alone_ScanP alone_CheckP with_manager_def answer_def option.map_comp comp_def

lemma alone_serveRead:
  "alone (serveRead key w) (w_versions w, w_store w) = map_option answer (handleRead key w)"
  by (auto simp: serveRead_def handleRead_def alone_served Read_def ReadVersion_def split: sum.splits Option.bind_splits)

lemma alone_serveWrite:
  "alone (serveWrite rt body w) (w_versions w, w_store w) = map_option answer (handleWrite rt body w)"
  by (auto simp: serveWrite_def handleWrite_def alone_served split: sum.splits Option.bind_splits)

lemma alone_servePublish:
  "alone (servePublish body) (w_versions w, w_store w) = map_option answer (handlePublish body w)"
  by (auto simp: servePublish_def handlePublish_def alone_served switched_def split: sum.splits prod.splits)

lemma alone_serveRollback:
  "alone (serveRollback body) (w_versions w, w_store w) = map_option answer (handleRollback body w)"
  by (auto simp: serveRollback_def handleRollback_def alone_served switched_def split: sum.splits prod.splits)

lemma alone_serveImport:
  "alone (serveImport rt body w) (w_versions w, w_store w) = map_option answer (handleImport rt body w)"
  by (auto simp: serveImport_def handleImport_def alone_served tick_def Let_def
      split: sum.splits prod.splits Option.bind_splits)

lemma alone_serveBackfill:
  "alone (serveBackfill rt body w) (w_versions w, w_store w) = map_option answer (handleBackfill rt body w)"
  by (auto simp: serveBackfill_def handleBackfill_def alone_served tick_def Let_def
      split: sum.splits prod.splits option.splits Option.bind_splits)

lemma alone_serveSyncCheck:
  "alone (serveSyncCheck rt begin until w) (w_versions w, w_store w) = map_option answer (handleSyncCheck rt begin until w)"
  by (auto simp: serveSyncCheck_def handleSyncCheck_def alone_served tick_def world_tick_def Let_def
      split: sum.splits prod.splits Option.bind_splits)

lemma alone_serveTTLScan:
  "alone (serveTTLScan rt w) (w_versions w, w_store w) = map_option answer (handleTTLScan rt w)"
  by (auto simp: serveTTLScan_def handleTTLScan_def alone_served tick_def world_tick_def Let_def
      split: prod.splits Option.bind_splits)

text \<open>A request served with no other at the same time gets the response of its handler and leaves the
  manager and the store as the handler does, and panics where it panics.\<close>

theorem served_alone:
  assumes "serve rt w req = Some p"
  shows "alone p (w_versions w, w_store w) =
           map_option (\<lambda>(resp, w'). (resp, (w_versions w', w_store w'))) (handle rt req w)"
proof -
  have "alone p (w_versions w, w_store w) = map_option answer (handle rt req w)"
  proof (cases req)
    case ReqHealth
    with assms show ?thesis
      by (auto simp: serve_def handle_def serveHealth_def handleHealth_def answer_def split: option.splits)
  next
    case ReqVersions
    with assms show ?thesis
      by (auto simp: serve_def handle_def serveVersions_def handleVersions_def answer_def split: option.splits)
  qed (use assms in \<open>auto simp: serve_def handle_def alone_serveRead alone_serveWrite alone_servePublish
      alone_serveRollback alone_serveImport alone_serveBackfill alone_serveSyncCheck alone_serveTTLScan\<close>)
  then show ?thesis by (simp add: answer_def)
qed


lemma served_alone_witness:
  "\<exists>p ms. serve demo_runtime demo_world (ReqPublish (Inr ''user_profile-v2'')) = Some p \<and>
     alone p (demo_published, demo_written) = Some ((200, PActive ''user_profile-v2''), ms)"
proof -
  let ?req = "ReqPublish (Inr ''user_profile-v2'')"
  obtain v where v: "fmlookup (m_versions demo_published) ''user_profile-v2'' = Some v" "v_State v = VersionDraft"
    by (simp add: demo_published_eq demo_created_eq)
  obtain m s where p: "Publish_store ''user_profile-v2'' (demo_published, demo_written) =
      (Inr (published_record demo_published v), m, s)"
    using Publish_wf_eq [OF wf_demo_published v] by (simp add: Publish_store_def)
  have "v_ID (published_record demo_published v) = ''user_profile-v2''"
    using manager_wfD(2) [OF wf_demo_published v(1)] by (simp add: published_record_def)
  with p have "\<exists>w'. handle demo_runtime ?req demo_world = Some ((200, PActive ''user_profile-v2''), w')"
    by (simp add: handle_def handlePublish_def)
  moreover have q: "serve demo_runtime demo_world ?req = Some (servePublish (Inr ''user_profile-v2''))"
    by (simp add: serve_def)
  ultimately show ?thesis using served_alone [OF q] by auto
qed

section \<open>Requests at the same time\<close>

text \<open>The entities whose view a request may read, and those it may change.\<close>

fun request_reads :: "Request \<Rightarrow> EntityKey \<Rightarrow> bool" where
  "request_reads (ReqRead key) k \<longleftrightarrow> ParseEntity key = Inr k"
| "request_reads (ReqSyncCheck begin until) k \<longleftrightarrow> True"
| "request_reads _ k \<longleftrightarrow> False"

fun request_changes :: "Request \<Rightarrow> EntityKey \<Rightarrow> bool" where
  "request_changes (ReqWrite (Inr req)) k \<longleftrightarrow> ParseEntity (wr_Key req) = Inr k"
| "request_changes (ReqImport (Inr req)) k \<longleftrightarrow> k \<in> (\<lambda>row. EntityKey (ir_Key row)) ` set (ireq_Rows req)"
| "request_changes (ReqBackfill (Inr req)) k \<longleftrightarrow> k \<in> (\<lambda>row. EntityKey (ir_Key row)) ` set (breq_Rows req)"
| "request_changes ReqTTLScan k \<longleftrightarrow> True"
| "request_changes _ k \<longleftrightarrow> False"

text \<open>An import needs its table, as \<open>MustGet\<close> panics on an unknown one.\<close>

definition request_ok :: "World \<Rightarrow> Request \<Rightarrow> bool" where
  "request_ok w req \<longleftrightarrow>
     (\<forall>ireq. req = ReqImport (Inr ireq) \<longrightarrow> Registry_Get (w_tables w) (ireq_TableID ireq) \<noteq> None)"

text \<open>
  Memory that two handlers touch under no common lock, one of them to change it: the importer's map of
  batches, the backfill's map of tasks, the fields of an entry (which a read snapshots after it has
  released the lock) and the records of versions (which a listing and a backfill read after the
  manager has released its own). Go defines a program only if no two such accesses are concurrent,
  and its run time may abort the process for two that meet in a map. Without them the steps under
  the locks are all there is, and the importer and the backfill belong to the one request that uses
  them.
\<close>

fun request_imports :: "Request \<Rightarrow> bool" where
  "request_imports (ReqImport (Inr req)) \<longleftrightarrow> True"
| "request_imports _ \<longleftrightarrow> False"

fun request_runs_task :: "Request \<Rightarrow> bool" where
  "request_runs_task (ReqBackfill (Inr req)) \<longleftrightarrow> \<not> breq_Retry req"
| "request_runs_task _ \<longleftrightarrow> False"

fun looks_at_versions :: "Request \<Rightarrow> bool" where
  "looks_at_versions (ReqBackfill (Inr req)) \<longleftrightarrow> True"
| "looks_at_versions req \<longleftrightarrow> req = ReqVersions"

fun switches_versions :: "Request \<Rightarrow> bool" where
  "switches_versions (ReqPublish (Inr vid)) \<longleftrightarrow> True"
| "switches_versions (ReqRollback (Inr vid)) \<longleftrightarrow> True"
| "switches_versions _ \<longleftrightarrow> False"

definition races_with :: "Request \<Rightarrow> Request \<Rightarrow> bool" where
  "races_with q q' \<longleftrightarrow>
     request_imports q \<and> request_imports q' \<or>
     request_runs_task q \<and> request_runs_task q' \<or>
     (\<exists>k. request_reads q k \<and> request_changes q' k \<and> q' \<noteq> ReqTTLScan) \<or>
     looks_at_versions q \<and> switches_versions q'"

definition no_data_race :: "Request list \<Rightarrow> bool" where
  "no_data_race reqs \<longleftrightarrow>
     (\<forall>i < length reqs. \<forall>j < length reqs. i \<noteq> j \<longrightarrow> \<not> races_with (reqs ! i) (reqs ! j))"

text \<open>Requests in flight, each with its own readings of the clock.\<close>

definition in_flight :: "Runtime \<Rightarrow> World \<Rightarrow> (clock \<times> Request) list \<Rightarrow> Response call list \<Rightarrow> bool" where
  "in_flight rt w = list_all2 (\<lambda>(clk, req) p. serve rt (w\<lparr>w_now := clk\<rparr>) req = Some p)"

lemma decode_rows_keys:
  "decode_rows rt rows = Inr decoded \<Longrightarrow> map fst decoded = map (\<lambda>row. EntityKey (ir_Key row)) rows"
  by (induction rt rows arbitrary: decoded rule: decode_rows.induct) (auto split: sum.splits)

lemma decode_rows_set:
  assumes "decode_rows rt rows = Inr decoded"
  shows "row_Entity ` set (map import_row decoded) = (\<lambda>row. EntityKey (ir_Key row)) ` set rows"
    and "res_Entity ` set (map result_row decoded) = (\<lambda>row. EntityKey (ir_Key row)) ` set rows"
  using arg_cong [OF decode_rows_keys [OF assms], of set]
  by (simp_all add: import_row_def result_row_def image_image)

lemma keeps_look:
  assumes "shared_ok r K ms" and "\<And>m s. shared_ok r K (m, s) \<Longrightarrow> keeps r K F (k (f m)) (m, s)"
  shows "keeps r K F (seq (on_manager (\<lambda>m. (f m, m))) k) ms"
  unfolding on_manager_def
proof (rule pool.keeps_act [OF assms(1)])
  fix t
  assume t: "shared_ok r K t"
  obtain m s where [simp]: "t = (m, s)" by (cases t)
  show "\<exists>x u. (case t of (m, s) \<Rightarrow> case (f m, m) of (x, m) \<Rightarrow> Some (x, (m, s))) = Some (x, u) \<and>
      shared_ok r K u \<and> shared_moves r F t u \<and> keeps r K F (k x) u"
    using t assms(2) pool.refl [where s = t] by (intro exI [of _ "f m"] exI [of _ t]) simp
qed

lemma serve_keeps:
  assumes ok: "shared_ok (w_router w) K ms" and "registry_wf (w_tables w)"
    and "0 < im_windowSize (w_importer w)" and "0 < ck_step (w_checker w)"
    and "serve rt w req = Some p" and "request_ok w req"
    and changes: "\<And>k. request_changes req k \<Longrightarrow> F k = Free"
    and reads: "\<And>k. request_reads req k \<Longrightarrow> k \<in> K \<Longrightarrow> F k = Fixed"
  shows "keeps (w_router w) K F p ms"
proof (cases req)
  case ReqHealth
  then show ?thesis using assms(5) Registry_List_ids [OF assms(2)] by (auto simp: serve_def serveHealth_def)
next
  case (ReqRead key)
  then show ?thesis
    using assms(5) ok reads by (auto simp: serve_def serveRead_def intro!: keeps_reply keeps_ReadP split: sum.splits)
next
  case (ReqWrite body)
  then show ?thesis
    using assms(5) ok changes
    by (auto simp: serve_def serveWrite_def intro!: keeps_reply keeps_WriteP split: sum.splits)
next
  case (ReqPublish body)
  then show ?thesis
    using assms(5) ok by (auto simp: serve_def servePublish_def intro!: keeps_reply keeps_PublishP split: sum.splits)
next
  case (ReqRollback body)
  then show ?thesis
    using assms(5) ok by (auto simp: serve_def serveRollback_def intro!: keeps_reply keeps_RollbackP split: sum.splits)
next
  case (ReqImport body)
  have rows: "\<forall>row \<in> set (map import_row decoded). F (row_Entity row) = Free"
    if "body = Inr ireq" "decode_rows rt (ireq_Rows ireq) = Inr decoded" for ireq decoded
    using decode_rows_set(1) [OF that(2)] changes ReqImport that(1) by auto
  have "MustGet (w_tables w) (ireq_TableID ireq) \<noteq> None" if "body = Inr ireq" for ireq
    using assms(6) ReqImport that by (auto simp: request_ok_def MustGet_def split: option.splits)
  then show ?thesis
    using assms(3,5) ok rows ReqImport
    by (auto simp: serve_def serveImport_def intro!: keeps_reply keeps_ImportP split: sum.splits)
next
  case (ReqBackfill body)
  have rows: "\<forall>k \<in> res_Entity ` set (map result_row decoded). backs version (F k)"
    if "body = Inr breq" "decode_rows rt (breq_Rows breq) = Inr decoded" for breq decoded version
    unfolding decode_rows_set(2) [OF that(2)] using changes ReqBackfill that(1) by (auto simp: backs_def)
  show ?thesis
  proof (cases body)
    case (Inr breq)
    have "keeps (w_router w) K F (serveBackfill rt body w) ms"
      unfolding serveBackfill_def Inr sum.case
    proof (rule keeps_look [OF ok])
      fix m s
      assume "shared_ok (w_router w) K (m, s)"
      then show "keeps (w_router w) K F (case Manager_Get m (breq_VersionID breq) of
          None \<Rightarrow> Return (404, PError VersionUnknown)
        | Some version \<Rightarrow>
          (case decode_rows rt (breq_Rows breq) of
             Inl name \<Rightarrow> Return (400, PError (CannotDecode name))
           | Inr decoded \<Rightarrow>
               let rows = map result_row decoded in
               if breq_Retry breq
               then reply (\<lambda>(n, rows). (200, PCount n)) (RetryP (w_router w) (breq_TaskID breq) version rows)
               else
                 let (t1, clk) = tick (w_now w);
                     (t2, clk) = tick clk
                 in reply (\<lambda>(res, rows, b). case res of
                             Inl err \<Rightarrow> (500, PError (RunError err))
                           | Inr n \<Rightarrow> (200, PCount n))
                      (RunP (w_router w) (breq_TaskID breq) version rows t1 t2 (w_backfill w)))) (m, s)"
        using rows [OF Inr]
        by (auto simp: Let_def intro!: keeps_reply keeps_RetryP keeps_RunP split: option.splits sum.splits prod.splits)
    qed
    then show ?thesis using assms(5) ReqBackfill by (simp add: serve_def)
  qed (use assms(5) ReqBackfill in \<open>auto simp: serve_def serveBackfill_def\<close>)
next
  case (ReqSyncCheck b u)
  then have "\<forall>k \<in> K. F k = Fixed" using reads by simp
  with ReqSyncCheck assms(4,5) ok show ?thesis
    by (auto simp: serve_def serveSyncCheck_def Let_def intro!: keeps_reply keeps_CheckP)
next
  case ReqTTLScan
  then have "F = (\<lambda>_. Free)" using changes by auto
  with ReqTTLScan assms(5) ok show ?thesis by (auto simp: serve_def serveTTLScan_def intro!: keeps_reply keeps_ScanP)
next
  case ReqVersions
  have "keeps (w_router w) K F serveVersions ms"
    unfolding serveVersions_def
  proof (rule keeps_look [OF ok])
    fix m s
    assume "shared_ok (w_router w) K (m, s)"
    then obtain vs where "Manager_List m = Some vs" using Manager_List_returns shared_okD(1) by blast
    then show "keeps (w_router w) K F (case Manager_List m of
        None \<Rightarrow> panic
      | Some versions \<Rightarrow> Return (200, PVersions (map (\<lambda>v. (v_ID v, v_TableID v, v_State v)) versions))) (m, s)"
      by simp
  qed
  with ReqVersions assms(5) show ?thesis by (simp add: serve_def)
qed (use assms(5) in \<open>simp add: serve_def\<close>)

text \<open>The statuses of the interface: a response is an error exactly when it is not 200.\<close>

definition proper :: "Response \<Rightarrow> bool" where
  "proper resp \<longleftrightarrow>
     (case resp of (status, payload) \<Rightarrow>
        status \<in> {200, 400, 404, 409, 500} \<and> (status = 200 \<longleftrightarrow> (\<forall>err. payload \<noteq> PError err)))"

lemma answers_in_reply: "(\<And>x. Q (f x)) \<Longrightarrow> answers_in Q (reply f p)"
  unfolding reply_def by (rule answers_in_seq) simp

lemma serve_proper: "serve rt w req = Some p \<Longrightarrow> answers_in proper p"
  by (cases req)
    (auto simp: serve_def serveHealth_def serveRead_def serveWrite_def servePublish_def serveRollback_def
      serveImport_def serveBackfill_def serveSyncCheck_def serveTTLScan_def serveVersions_def switched_def
      proper_def Let_def intro!: answers_in_reply answers_in_seq
      split: option.splits sum.splits prod.splits if_splits)

lemma in_flight_member:
  assumes "in_flight rt w reqs ps" and "p \<in> set ps"
  shows "\<exists>clk req. (clk, req) \<in> set reqs \<and> serve rt (w\<lparr>w_now := clk\<rparr>) req = Some p"
  using assms unfolding in_flight_def by (induction rule: list_all2_induct) auto

lemma in_flight_keeps:
  assumes "in_flight rt w reqs ps" and "shared_ok (w_router w) K ms" and "registry_wf (w_tables w)"
    and "0 < im_windowSize (w_importer w)" and "0 < ck_step (w_checker w)"
    and "\<forall>(clk, req) \<in> set reqs. request_ok w req"
    and "\<And>clk req k. (clk, req) \<in> set reqs \<Longrightarrow> request_changes req k \<Longrightarrow> F k = Free"
    and "\<And>clk req k. (clk, req) \<in> set reqs \<Longrightarrow> request_reads req k \<Longrightarrow> k \<in> K \<Longrightarrow> F k = Fixed"
  shows "\<forall>p \<in> set ps. keeps (w_router w) K F p ms"
proof
  fix p
  assume "p \<in> set ps"
  then obtain clk req where req: "(clk, req) \<in> set reqs" "serve rt (w\<lparr>w_now := clk\<rparr>) req = Some p"
    using in_flight_member [OF assms(1)] by blast
  have "request_ok (w\<lparr>w_now := clk\<rparr>) req" using assms(6) req(1) by (auto simp: request_ok_def)
  then have "keeps (w_router (w\<lparr>w_now := clk\<rparr>)) K F p ms"
    using assms(2-5) assms(7,8) [OF req(1)] by (intro serve_keeps [OF _ _ _ _ req(2)]) simp_all
  then show "keeps (w_router w) K F p ms" by simp
qed

text \<open>C20: HTTP requests at the same time are answered, when no two of them race in memory without a lock
  (\<open>no_data_race\<close>: at most one import, at most one run of a backfill, no read or check of an entity
  that another request writes, no listing or backfill while a version is switched): whatever such
  requests are in flight, expansions and imports into unknown tables apart, and wherever the steps
  of their handlers under the locks fall, no handler is about to panic at any point of any run, the
  run goes on until all have answered and cannot go on for ever, and each answer has one of the
  statuses of the interface and is an error exactly when that is not 200. For requests that do race,
  Go promises nothing, and two imports or two runs at once may abort the process.\<close>

theorem requests_in_parallel_answered:
  assumes "world_ok w" and "in_flight rt w reqs ps" and "\<forall>(clk, req) \<in> set reqs. request_ok w req"
    and "no_data_race (map snd reqs)"
    and "pool_step\<^sup>*\<^sup>* (ps, (w_versions w, w_store w)) (ps', ms)"
  shows "calm ps' ms \<and> (answered_all ps' \<or> (\<exists>c. pool_step (ps', ms) c)) \<and>
         wf {(c', c :: Response call list \<times> Shared). pool_step c c'} \<and>
         (\<forall>status payload. Return (status, payload) \<in> set ps' \<longrightarrow>
            status \<in> {200, 400, 404, 409, 500} \<and> (status = 200 \<longleftrightarrow> (\<forall>err. payload \<noteq> PError err)))"
proof -
  have "shared_ok (w_router w) {} (w_versions w, w_store w)"
    using assms(1) by (auto simp: world_ok_def sound_def shared_ok_def)
  moreover have "\<forall>p \<in> set ps. keeps (w_router w) {} (\<lambda>_. Free) p (w_versions w, w_store w)"
    using assms(1,3) by (intro in_flight_keeps [OF assms(2) calculation]) (simp_all add: world_ok_def)
  ultimately have "calm ps' ms" using pool.pool_keeps(3) assms(5) by blast
  moreover have "\<forall>p \<in> set ps. answers_in proper p"
    using in_flight_member [OF assms(2)] serve_proper by blast
  note proper = pool_answers [OF assms(5) this]
  have "proper resp" if "Return resp \<in> set ps'" for resp
    using bspec [OF proper that] by simp
  ultimately show ?thesis
    using calm_goes_on [of ps' ms] pool_terminates by (auto simp: proper_def)
qed

lemma requests_in_parallel_answered_witness:
  "\<exists>ps ps' ms. in_flight demo_runtime demo_world
       [(int, ReqRead ''user_1''), (int, ReqTTLScan), (int, ReqPublish (Inr ''user_profile-v2''))] ps \<and>
     pool_step (ps, (demo_published, demo_written)) (ps', ms) \<and>
     calm ps' ms \<and> (answered_all ps' \<or> (\<exists>c. pool_step (ps', ms) c))"
proof -
  let ?reqs = "[(int, ReqRead ''user_1''), (int, ReqTTLScan), (int, ReqPublish (Inr ''user_profile-v2''))]"
  let ?s = "(w_versions demo_world, w_store demo_world)"
  obtain ps where ps: "in_flight demo_runtime demo_world ?reqs ps" "servePublish (Inr ''user_profile-v2'') \<in> set ps"
    by (simp add: in_flight_def serve_def list_all2_Cons1)
  have ok: "\<forall>(clk, req) \<in> set ?reqs. request_ok demo_world req" by (simp add: request_ok_def)
  have "no_data_race (map snd ?reqs)"
    by (simp add: no_data_race_def races_with_def less_Suc_eq nth_Cons' numeral_3_eq_3)
  note answered = requests_in_parallel_answered [OF world_ok_demo ps(1) ok this]
  have "\<not> answered_all ps"
    using ps(2) by (auto simp: answered_all_def servePublish_def PublishP_def switchP_def reply_def
        on_manager_def atomic_def)
  with answered [OF rtranclp.rtrancl_refl] obtain ps' ms where step: "pool_step (ps, ?s) (ps', ms)" by auto
  from answered [OF r_into_rtranclp [of pool_step, OF step]]
  have "calm ps' ms \<and> (answered_all ps' \<or> (\<exists>c. pool_step (ps', ms) c))" by (elim conjE) (intro conjI)
  with ps(1) step show ?thesis by (metis demo_world_simps(2,4))
qed

end
