(* ===== verification/ParallelExpansion.thy ===== *)
theory ParallelExpansion
  imports Interleaving ShardExpansion
begin

text \<open>
  Requests to expand the shards at the same time (\<open>handleExpand\<close> in \<open>cmd/featurestore/handlers.go\<close>
  with \<open>Router.Expand\<close>). The handler asks the router and the store one after the other, each under
  its own lock, so here the shared state is the router with the store. Whatever the order of the
  steps, the store never has more shards than the router routes to, and when all have answered both
  have the largest count asked for. What the requests report of it may be wrong, and in between a
  write may go astray.
\<close>

type_synonym Plant = "Router \<times> Store"
type_synonym 'r resize = "(Plant, 'r) prog"

section \<open>The handler as a call\<close>

definition on_router :: "(Router \<Rightarrow> ('r \<times> Router) go) \<Rightarrow> 'r resize" where
  "on_router f = atomic (\<lambda>(r, s). map_option (\<lambda>(x, r). (x, (r, s))) (f r))"

definition ask_router :: "(Router \<Rightarrow> 'r) \<Rightarrow> 'r resize" where
  "ask_router f = on_router (\<lambda>r. Some (f r, r))"

definition resize_router :: "int \<Rightarrow> int \<Rightarrow> Router \<Rightarrow> (EntityError option \<times> Router) go" where
  "resize_router lim target r =
     map_option (\<lambda>res. case res of Inl err \<Rightarrow> (Some err, r) | Inr r \<Rightarrow> (None, r))
       (Router_ExpandShards lim target r)"

definition resize_store :: "int \<Rightarrow> int \<Rightarrow> unit resize" where
  "resize_store lim target =
     atomic (\<lambda>(r, s). map_option (\<lambda>s. ((), (r, s))) (Store_ExpandShards lim target s))"

definition ExpandP :: "int \<Rightarrow> int \<Rightarrow> (EntityError + Expansion) resize" where
  "ExpandP lim target =
     seq (ask_router Router_ShardCount) (\<lambda>before.
     seq (on_router (resize_router lim target)) (\<lambda>failed.
     case failed of
       Some err \<Rightarrow> Return (Inl err)
     | None \<Rightarrow>
         seq (ask_router Router_ShardCount) (\<lambda>after.
         Return (if after \<le> before then Inl ExpansionDidNotChange
                 else Inr \<lparr>exp_Previous = before, exp_Current = after, exp_Added = after - before\<rparr>))))"

text \<open>
  The loop asks for the count again before each shard, so other expansions may prolong it; \<open>fuel\<close>
  bounds its rounds, and any bound above all counts asked for is enough.
\<close>

primrec list_states :: "nat \<Rightarrow> int \<Rightarrow> int list \<Rightarrow> int list resize" where
  "list_states 0 shard states = panic"
| "list_states (Suc fuel) shard states =
     seq (ask_router Router_ShardCount) (\<lambda>count.
     if shard < count
     then seq (ask_router (\<lambda>r. ShardState r shard)) (\<lambda>x. list_states fuel (shard + 1) (states @ [x]))
     else Return states)"

definition serveExpand :: "int \<Rightarrow> nat \<Rightarrow> string + int \<Rightarrow> Response resize" where
  "serveExpand lim fuel body =
     (case body of
        Inl err \<Rightarrow> Return (400, PError (BadRequest err))
      | Inr shards \<Rightarrow>
        seq (ExpandP lim shards) (\<lambda>res.
        case res of
          Inl err \<Rightarrow> Return (409, PError (ExpandError err))
        | Inr expansion \<Rightarrow>
            seq (resize_store lim shards) (\<lambda>_.
            seq (ask_router Router_ShardCount) (\<lambda>_.
            seq (list_states fuel 0 []) (\<lambda>states.
            Return (200, PExpand expansion states))))))"

section \<open>Served alone\<close>

lemma alone_ask_router [simp]: "alone (ask_router f) (r, s) = Some (f r, (r, s))"
  by (simp add: ask_router_def on_router_def)

lemma alone_on_router [simp]: "alone (on_router f) (r, s) = map_option (\<lambda>(x, r). (x, (r, s))) (f r)"
  by (simp add: on_router_def)

lemma alone_resize_store [simp]:
  "alone (resize_store lim n) (r, s) = map_option (\<lambda>s. ((), (r, s))) (Store_ExpandShards lim n s)"
  by (simp add: resize_store_def)

lemma alone_ExpandP: "alone (ExpandP lim n) (r, s) = map_option (\<lambda>(res, r). (res, (r, s))) (Expand lim n r)"
  by (cases "Router_ExpandShards lim n r")
    (simp_all add: ExpandP_def resize_router_def Expand_def Let_def split: sum.splits)

lemma ShardState_wf: "router_wf r \<Longrightarrow> 0 \<le> i \<Longrightarrow> i < shardCount r \<Longrightarrow> ShardState r i = 0"
  by (simp add: router_wf_def ShardState_def)

lemma alone_list_states:
  "router_wf r \<Longrightarrow> 0 \<le> i \<Longrightarrow> i \<le> shardCount r \<Longrightarrow> shardCount r < i + int fuel \<Longrightarrow>
     alone (list_states fuel i zs) (r, s) = Some (zs @ replicate (nat (shardCount r - i)) 0, (r, s))"
proof (induction fuel arbitrary: i zs)
  case (Suc fuel)
  show ?case
  proof (cases "i < shardCount r")
    case True
    then have "nat (shardCount r - i) = Suc (nat (shardCount r - (i + 1)))" by simp
    then show ?thesis
      using True Suc by (simp add: Router_ShardCount_def ShardState_wf)
  next
    case False
    then show ?thesis using Suc.prems by (simp add: Router_ShardCount_def)
  qed
qed simp

text \<open>A request to expand that is served with no other in between is answered by its handler.\<close>

theorem expand_served_alone:
  assumes "router_wf (w_router w)" and "shardCount (w_router w) < int fuel"
    and "\<And>n. body = Inr n \<Longrightarrow> n < int fuel"
  shows "alone (serveExpand (rt_slice rt) fuel body) (w_router w, w_store w) =
     map_option (\<lambda>(resp, w'). (resp, (w_router w', w_store w'))) (handleExpand rt body w)"
proof (cases body)
  case (Inl err)
  then show ?thesis by (simp add: serveExpand_def handleExpand_def)
next
  case (Inr n)
  show ?thesis
  proof (cases "Expand (rt_slice rt) n (w_router w)")
    case None
    then show ?thesis using Inr by (simp add: serveExpand_def handleExpand_def alone_ExpandP)
  next
    case (Some out)
    obtain res r where out: "out = (res, r)" by fastforce
    show ?thesis
    proof (cases res)
      case (Inl err)
      then show ?thesis using Inr Some out by (simp add: serveExpand_def handleExpand_def alone_ExpandP)
    next
      case e: (Inr e)
      then have x: "Expand (rt_slice rt) n (w_router w) = Some (Inr e, r)" using Some out by simp
      have r: "router_wf r" "shardCount r = n" using x assms(1) router_wf_Expand Expand_Inr by blast+
      have "map (\<lambda>i. ShardState r (int i)) [0 ..< nat n] = replicate (nat n) 0"
        using r by (intro nth_equalityI) (simp_all add: ShardState_wf)
      then show ?thesis
        using Inr x r assms(3) [OF Inr] store_expands [OF x]
        by (simp add: serveExpand_def handleExpand_def alone_ExpandP alone_list_states router_wf_def
            Router_ShardCount_def Let_def)
    qed
  qed
qed

section \<open>What expansions keep\<close>

text \<open>\<open>M\<close> is the largest count asked for.\<close>

definition plant_ok :: "int \<Rightarrow> Plant \<Rightarrow> bool" where
  "plant_ok M = (\<lambda>(r, s). router_wf r \<and> int (length (s_shards s)) \<le> shardCount r \<and> shardCount r \<le> M)"

definition plant_grows :: "Plant \<Rightarrow> Plant \<Rightarrow> bool" where
  "plant_grows = (\<lambda>(r, s) (r', s').
     shardCount r \<le> shardCount r' \<and> (\<exists>k. s' = s\<lparr>s_shards := s_shards s @ replicate k fmempty\<rparr>))"

interpretation plant: interference "plant_ok M" plant_grows for M
proof
  show "plant_grows s s" for s
    by (cases s) (auto simp: plant_grows_def intro: exI [of _ 0])
  fix s t u :: Plant
  assume st: "plant_grows s t" and tu: "plant_grows t u"
  show "plant_grows s u"
  proof -
    obtain k where k: "snd t = (snd s)\<lparr>s_shards := s_shards (snd s) @ replicate k fmempty\<rparr>"
      using st by (auto simp: plant_grows_def)
    obtain l where "snd u = (snd t)\<lparr>s_shards := s_shards (snd t) @ replicate l fmempty\<rparr>"
      using tu by (auto simp: plant_grows_def)
    then have "snd u = (snd s)\<lparr>s_shards := s_shards (snd s) @ replicate (k + l) fmempty\<rparr>"
      using k by (simp add: replicate_add)
    then show ?thesis using st tu by (auto simp: plant_grows_def)
  qed
qed

text \<open>At a point of a run where the count is known to have reached \<open>m\<close>.\<close>

definition reached :: "int \<Rightarrow> int \<Rightarrow> Plant \<Rightarrow> bool" where
  "reached M m st \<longleftrightarrow> plant_ok M st \<and> m \<le> shardCount (fst st)"

lemma plant_growsD: "plant_grows st st' \<Longrightarrow> shardCount (fst st) \<le> shardCount (fst st')"
  by (auto simp: plant_grows_def)

lemma steady_reached: "steady (plant.moves M) (reached M m)"
  unfolding steady_def plant.moves_def reached_def using plant_growsD by fastforce

lemma steady_reached_and: "steady (plant.moves M) (\<lambda>st. reached M m st \<and> A)"
  using steady_reached [of M m] by (auto simp: steady_def)

lemma moves_refl: "plant.moves M st st"
  by (simp add: plant.moves_def plant.refl)

lemma safe_ask_router:
  assumes "reached M m st"
    and "\<And>r s. reached M m (r, s) \<Longrightarrow> safe (plant.moves M) (plant.moves M) Q (k (f r)) (r, s)"
  shows "safe (plant.moves M) (plant.moves M) Q (seq (ask_router f) k) st"
  unfolding ask_router_def on_router_def
  by (rule safe_act [OF steady_reached assms(1)]) (use assms(2) moves_refl in auto)

lemma reachedD: "reached M m (r, s) \<Longrightarrow> router_wf r \<and> m \<le> shardCount r \<and> shardCount r \<le> M"
  by (simp add: reached_def plant_ok_def)

lemma safe_list_states:
  assumes "reached M m st" and "0 \<le> i" and "i \<le> M" and "M < i + int fuel" and "zs = replicate (nat i) 0"
  shows "safe (plant.moves M) (plant.moves M)
     (\<lambda>states st. reached M m st \<and> states = replicate (length states) 0 \<and>
        m \<le> int (length states) \<and> int (length states) \<le> M) (list_states fuel i zs) st"
  using assms
proof (induction fuel arbitrary: i zs st)
  case (Suc fuel)
  let ?Q = "\<lambda>states st. reached M m st \<and> states = replicate (length states) 0 \<and>
        m \<le> int (length states) \<and> int (length states) \<le> M"
  note prems = Suc.prems
  show ?case
    unfolding list_states.simps
  proof (rule safe_ask_router [OF prems(1)])
    fix r s
    assume rs: "reached M m (r, s)"
    note r = reachedD [OF rs]
    show "safe (plant.moves M) (plant.moves M) ?Q
       (if i < Router_ShardCount r
        then seq (ask_router (\<lambda>r. ShardState r i)) (\<lambda>x. list_states fuel (i + 1) (zs @ [x]))
        else Return zs) (r, s)"
    proof (cases "i < Router_ShardCount r")
      case True
      then have i: "i < shardCount r" by (simp add: Router_ShardCount_def)
      have "reached M (max m (i + 1)) (r, s)" using rs i by (simp add: reached_def)
      then have "safe (plant.moves M) (plant.moves M) ?Q
         (seq (ask_router (\<lambda>r. ShardState r i)) (\<lambda>x. list_states fuel (i + 1) (zs @ [x]))) (r, s)"
      proof (rule safe_ask_router)
        fix r' s'
        assume now: "reached M (max m (i + 1)) (r', s')"
        then have "ShardState r' i = 0" using reachedD [OF now] prems(2) by (simp add: ShardState_wf)
        moreover have "nat (i + 1) = Suc (nat i)" using prems(2) by simp
        ultimately show "safe (plant.moves M) (plant.moves M) ?Q (list_states fuel (i + 1) (zs @ [ShardState r' i])) (r', s')"
          using now prems r i by (intro Suc.IH) (simp_all add: reached_def replicate_append_same)
      qed
      then show ?thesis using True by simp
    next
      case False
      then have "?Q zs (r, s)" using rs r prems by (auto simp: Router_ShardCount_def)
      then have "safe (plant.moves M) (plant.moves M) ?Q (Return zs) (r, s)"
        by (intro safe_Return steady_reached_and)
      then show ?thesis using False by simp
    qed
  qed
qed simp

section \<open>The contract of a request to expand\<close>

text \<open>
  \<open>m\<close> is the count when the request arrives. The counts reported are those the handler has seen,
  and the shards listed are all of the current ones, each free.
\<close>

definition expand_answer :: "int \<Rightarrow> string + int \<Rightarrow> Response \<Rightarrow> bool" where
  "expand_answer m body resp \<longleftrightarrow>
     (case body of
        Inl err \<Rightarrow> resp = (400, PError (BadRequest err))
      | Inr n \<Rightarrow>
          (\<exists>err. resp = (409, PError (ExpandError err))) \<or>
          (\<exists>e k. resp = (200, PExpand e (replicate k 0)) \<and> m \<le> exp_Previous e \<and> n \<le> exp_Current e \<and>
             exp_Previous e < exp_Current e \<and> exp_Added e = exp_Current e - exp_Previous e \<and>
             exp_Current e \<le> int k))"

definition asked :: "int \<Rightarrow> string + int \<Rightarrow> int" where
  "asked m body = (case body of Inl err \<Rightarrow> m | Inr n \<Rightarrow> max m n)"

definition expand_contract :: "int \<Rightarrow> int \<Rightarrow> string + int \<Rightarrow> Response \<Rightarrow> Plant \<Rightarrow> bool" where
  "expand_contract M m body resp st \<longleftrightarrow> reached M (asked m body) st \<and> expand_answer m body resp"

lemma steady_contract: "steady (plant.moves M) (expand_contract M m body resp)"
  unfolding expand_contract_def by (rule steady_reached_and)

lemma resize_router_eq:
  "resize_router lim n r =
     (if n \<le> 0 then Some (Some NonPositiveShardCount, r)
      else if n = shardCount r then Some (None, r)
      else if n < shardCount r then Some (Some (CannotShrink (shardCount r) n), r)
      else if n \<le> lim then Some (None, full_router n) else None)"
  by (simp add: resize_router_def ExpandShards_eq)

lemma safe_resize:
  assumes "reached M m st" and "n \<le> M" and "M \<le> lim"
    and "\<And>x r s. reached M (max m n) (r, s) \<Longrightarrow> safe (plant.moves M) (plant.moves M) Q (k x) (r, s)"
  shows "safe (plant.moves M) (plant.moves M) Q (seq (on_router (resize_router lim n)) k) st"
  unfolding on_router_def
proof (rule safe_act [OF steady_reached assms(1)])
  fix t
  assume t: "reached M m t"
  obtain r s where st: "t = (r, s)" by fastforce
  note rs = t [unfolded st]
  have r: "router_wf r" "0 < shardCount r" using rs by (auto simp: reached_def plant_ok_def router_wf_def)
  have "\<exists>x r'. resize_router lim n r = Some (x, r') \<and> router_wf r' \<and> shardCount r' = max (shardCount r) n"
    using r assms(2,3) by (auto simp: resize_router_eq router_wf_full)
  then obtain x r' where x: "resize_router lim n r = Some (x, r')" "router_wf r'" "shardCount r' = max (shardCount r) n"
    by blast
  then have ok: "plant_ok M (r', s)" "plant_grows (r, s) (r', s)"
    using rs assms(2) by (auto simp: reached_def plant_ok_def plant_grows_def intro: exI [of _ 0])
  then have "plant.moves M t (r', s)" by (simp add: st plant.moves_def)
  moreover have "reached M (max m n) (r', s)" using ok x rs by (auto simp: reached_def)
  then have "safe (plant.moves M) (plant.moves M) Q (k x) (r', s)" by (rule assms(4))
  moreover have "(case t of (r, s) \<Rightarrow> map_option (\<lambda>(x, r). (x, (r, s))) (resize_router lim n r)) = Some (x, (r', s))"
    by (simp add: st x(1))
  ultimately show "\<exists>x u. (case t of (r, s) \<Rightarrow> map_option (\<lambda>(x, r). (x, (r, s))) (resize_router lim n r)) = Some (x, u) \<and>
      plant.moves M t u \<and> safe (plant.moves M) (plant.moves M) Q (k x) u"
    by blast
qed

lemma store_resized:
  assumes "reached M m (r, s)" and "n \<le> m"
  shows "reached M m (r, grown_store n s) \<and> plant_grows (r, s) (r, grown_store n s)"
  using assms by (auto simp: reached_def plant_ok_def plant_grows_def grown_store_def)

lemma safe_serveExpand:
  assumes "reached M m st" and "M < int fuel" and "M \<le> lim" and "\<And>n. body = Inr n \<Longrightarrow> n \<le> M"
  shows "safe (plant.moves M) (plant.moves M) (expand_contract M m body) (serveExpand lim fuel body) st"
proof (cases body)
  case (Inl err)
  then show ?thesis
    using assms(1) safe_Return [where Q = "expand_contract M m body" and x = "(400, PError (BadRequest err))", OF steady_contract]
    by (simp add: serveExpand_def expand_contract_def asked_def expand_answer_def del: safe.simps)
next
  case (Inr n)
  let ?safe = "safe (plant.moves M) (plant.moves M) (expand_contract M m body)"
  let ?refuse = "\<lambda>err. Return (409, PError (ExpandError err)) :: Response resize"
  let ?m = "max m n"
  note n = assms(4) [OF Inr]
  have refuse: "?safe (?refuse err) st" if "reached M ?m st" for err st
    using that Inr by (intro safe_Return [OF steady_contract])
      (simp add: expand_contract_def asked_def expand_answer_def)
  have accept: "?safe (seq (resize_store lim n) (\<lambda>_.
      seq (ask_router Router_ShardCount) (\<lambda>_. seq (list_states fuel 0 []) (\<lambda>states.
      Return (200, PExpand \<lparr>exp_Previous = b, exp_Current = a, exp_Added = a - b\<rparr> states))))) st"
    if "reached M (max ?m a) st" "m \<le> b" "b < a" "n \<le> a" for a b st
    unfolding resize_store_def
  proof (rule safe_act [OF steady_reached that(1)])
    fix t
    assume t: "reached M (max ?m a) t"
    obtain r s where rs: "t = (r, s)" by fastforce
    note grown = store_resized [OF t [unfolded rs], of n]
    let ?f = "\<lambda>(r, s). map_option (\<lambda>s. ((), (r, s))) (Store_ExpandShards lim n s)"
    let ?k = "seq (ask_router Router_ShardCount) (\<lambda>_. seq (list_states fuel 0 []) (\<lambda>states.
      Return (200, PExpand \<lparr>exp_Previous = b, exp_Current = a, exp_Added = a - b\<rparr> states)))"
    have "?f t = Some ((), (r, grown_store n s))"
      using order.trans [OF n assms(3)] by (simp add: rs Store_ExpandShards_eq)
    moreover have "plant.moves M t (r, grown_store n s)"
      using grown by (simp add: rs plant.moves_def reached_def)
    moreover have "reached M (max ?m a) (r, grown_store n s)" using grown by simp
    then have "?safe (seq (ask_router Router_ShardCount) (\<lambda>_. seq (list_states fuel 0 []) (\<lambda>states.
      Return (200, PExpand \<lparr>exp_Previous = b, exp_Current = a, exp_Added = a - b\<rparr> states)))) (r, grown_store n s)"
    proof (rule safe_ask_router)
      fix r s
      assume rs: "reached M (max ?m a) (r, s)"
      then have "0 \<le> M" using reachedD [OF rs] by (simp add: router_wf_def)
      then show "?safe (seq (list_states fuel 0 []) (\<lambda>states.
        Return (200, PExpand \<lparr>exp_Previous = b, exp_Current = a, exp_Added = a - b\<rparr> states))) (r, s)"
        using assms(2) that(2-4) Inr
        by (intro safe_seq safe_mono [OF safe_list_states [OF rs]] safe_Return [OF steady_contract])
          (auto simp: expand_contract_def asked_def expand_answer_def reached_def)
    qed
    ultimately show "\<exists>x u. ?f t = Some (x, u) \<and> plant.moves M t u \<and> ?safe ?k u" by blast
  qed
  have "?safe (seq (ExpandP lim n) (\<lambda>res.
        case res of
          Inl err \<Rightarrow> ?refuse err
        | Inr e \<Rightarrow>
            seq (resize_store lim n) (\<lambda>_.
            seq (ask_router Router_ShardCount) (\<lambda>_. seq (list_states fuel 0 []) (\<lambda>states.
            Return (200, PExpand e states)))))) st"
    unfolding ExpandP_def seq_assoc
  proof (rule safe_ask_router [OF assms(1)], rule safe_resize [OF _ n assms(3)], assumption, goal_cases)
    case (1 r s x r' s')
    show ?case
    proof (cases x)
      case None
      have "?safe (seq (ask_router Router_ShardCount) (\<lambda>after.
          seq (Return (if after \<le> Router_ShardCount r then Inl ExpansionDidNotChange
             else Inr \<lparr>exp_Previous = Router_ShardCount r, exp_Current = after,
                        exp_Added = after - Router_ShardCount r\<rparr>)) (\<lambda>res.
          case res of
            Inl err \<Rightarrow> ?refuse err
          | Inr e \<Rightarrow>
              seq (resize_store lim n) (\<lambda>_.
              seq (ask_router Router_ShardCount) (\<lambda>_. seq (list_states fuel 0 []) (\<lambda>states.
              Return (200, PExpand e states))))))) (r', s')"
        by (rule safe_ask_router [OF 1(2)])
          (use 1(1) in \<open>auto simp: reached_def Router_ShardCount_def simp del: safe.simps intro!: refuse accept\<close>)
      then show ?thesis using None by (simp add: seq_assoc)
    qed (use refuse [OF 1(2)] in \<open>simp del: safe.simps\<close>)
  qed
  then show ?thesis
    using Inr by (simp add: serveExpand_def)
qed

section \<open>The store follows the router\<close>

text \<open>
  A call owes the store a count when it gives it that many shards before it answers, whatever comes
  in between. A request that has resized the router does, so while any count is not yet matched some
  request of the pool owes it.
\<close>

inductive owes :: "int \<Rightarrow> 'r resize \<Rightarrow> bool" for n where
  "(\<And>r s q r' s'. n \<le> shardCount r \<Longrightarrow> f (r, s) = Some (q, (r', s')) \<Longrightarrow>
      n \<le> int (length (s_shards s')) \<or> owes n q) \<Longrightarrow> owes n (Step f)"

inductive dutiful :: "int \<Rightarrow> 'r resize \<Rightarrow> bool" where
  answered: "dutiful m (Return x)"
| step: "(\<And>r s q r' s'. m \<le> shardCount r \<Longrightarrow> f (r, s) = Some (q, (r', s')) \<Longrightarrow>
      dutiful (shardCount r') q \<and> (shardCount r' = shardCount r \<or> owes (shardCount r') q)) \<Longrightarrow>
    dutiful m (Step f)"

inductive_cases owes_StepE: "owes n (Step f)"
inductive_cases owes_ReturnE: "owes n (Return x)"
inductive_cases dutiful_StepE: "dutiful m (Step f)"

lemma seq_on_router:
  "seq (on_router f) k = Step (\<lambda>(r, s). map_option (\<lambda>(x, r). (k x, (r, s))) (f r))"
  by (auto simp: on_router_def atomic_def fun_eq_iff option.map_comp intro!: option.map_cong0)

lemma seq_ask_router: "seq (ask_router f) k = Step (\<lambda>(r, s). Some (k (f r), (r, s)))"
  by (simp add: ask_router_def seq_on_router)

lemma owes_ask: "(\<And>r. n \<le> shardCount r \<Longrightarrow> owes n (k (f r))) \<Longrightarrow> owes n (seq (ask_router f) k)"
  by (auto simp: seq_ask_router intro: owes.intros)

lemma dutiful_ask:
  "(\<And>r. m \<le> shardCount r \<Longrightarrow> dutiful (shardCount r) (k (f r))) \<Longrightarrow> dutiful m (seq (ask_router f) k)"
  by (auto simp: seq_ask_router intro: dutiful.intros)

lemma dutiful_list_states:
  "(\<And>m zs. dutiful m (k zs)) \<Longrightarrow> dutiful m (seq (list_states fuel i zs) k)"
proof (induction fuel arbitrary: m i zs)
  case 0
  then show ?case by (auto simp: panic_def intro: dutiful.intros)
next
  case (Suc fuel)
  then show ?case by (auto simp: seq_assoc intro!: dutiful_ask)
qed

lemma owes_store: "owes n (seq (resize_store lim n) k)"
  by (auto simp: resize_store_def atomic_def Store_ExpandShards_eq grown_store_def intro!: owes.intros
      split: if_splits)

lemma dutiful_store: "(\<And>m. dutiful m (k ())) \<Longrightarrow> dutiful m (seq (resize_store lim n) k)"
  by (auto simp: resize_store_def atomic_def intro!: dutiful.intros)

lemma dutiful_resize:
  assumes "\<And>x m. dutiful m (k x)"
    and "\<And>r :: Router. m \<le> shardCount r \<Longrightarrow> shardCount r < n \<Longrightarrow> owes n (k None)"
  shows "dutiful m (seq (on_router (resize_router lim n)) k)"
  unfolding seq_on_router
proof (rule dutiful.step, clarsimp, rule conjI)
  fix r r' :: Router and x
  assume m: "m \<le> shardCount r" and x: "resize_router lim n r = Some (x, r')"
  show "shardCount r' = shardCount r \<or> owes (shardCount r') (k x)"
  proof (cases "shardCount r' = shardCount r")
    case False
    then have "x = None" "r' = full_router n" "shardCount r < n"
      using x by (auto simp: resize_router_def ExpandShards_eq split: if_splits)
    then show ?thesis using assms(2) m by simp
  qed simp
qed (rule assms(1))

lemma dutiful_serveExpand: "dutiful m (serveExpand lim fuel body)"
proof (cases body)
  case (Inl err)
  then show ?thesis by (simp add: serveExpand_def dutiful.answered)
next
  case (Inr n)
  then show ?thesis
    unfolding serveExpand_def ExpandP_def
    by (auto simp: seq_assoc Router_ShardCount_def intro!: dutiful_ask dutiful_resize dutiful_store
        dutiful_list_states owes_ask owes_store dutiful.answered split: option.splits)
qed

lemma store_follows:
  assumes "pool_step\<^sup>*\<^sup>* (ps, st) (ps', st')" and "plant_ok M st"
    and "list_all2 (\<lambda>Q p. safe (plant.moves M) (plant.moves M) Q p st) Qs ps"
    and "\<forall>p \<in> set ps. dutiful (shardCount (fst st)) p"
    and "int (length (s_shards (snd st))) = shardCount (fst st)"
  shows "(\<forall>p \<in> set ps'. \<exists>m \<le> shardCount (fst st'). dutiful m p) \<and>
     (int (length (s_shards (snd st'))) = shardCount (fst st') \<or> (\<exists>p \<in> set ps'. owes (shardCount (fst st')) p))"
  using assms
proof (induction rule: rtranclp_induct2)
  case (step ps' st' ps'' st'')
  then have dut: "\<forall>p \<in> set ps'. \<exists>m \<le> shardCount (fst st'). dutiful m p"
    and owed: "int (length (s_shards (snd st'))) = shardCount (fst st') \<or>
      (\<exists>p \<in> set ps'. owes (shardCount (fst st')) p)"
    by blast+
  from step.hyps(2) obtain i f q where i: "i < length ps'" "ps' ! i = Step f" "f st' = Some (q, st'')"
    "ps'' = ps'[i := q]" by (auto elim: pool_stepE)
  have run: "pool_step\<^sup>*\<^sup>* (ps, st) (ps'', st'')" using step.hyps by (rule rtranclp.rtrancl_into_rtrancl)
  have ok: "plant_ok M st'" "plant_ok M st''"
    using pool_contracts [OF step.hyps(1) step.prems(2)] pool_contracts [OF run step.prems(2)]
      plant.moves_trans step.prems(1) by blast+
  have "plant.moves M st' st''"
  proof -
    have "safe (plant.moves M) (plant.moves M) (Qs ! i) (Step f) st'"
      using pool_contracts [OF step.hyps(1) step.prems(2)] i by (metis list_all2_nthD2)
    then show ?thesis using safe_next i(3) by fastforce
  qed
  then have grows: "plant_grows st' st''" using ok(1) by (simp add: plant.moves_def)
  obtain m where m: "m \<le> shardCount (fst st')" "dutiful m (Step f)" using dut i(1,2) by (metis nth_mem)
  obtain r s r' s' where st: "st' = (r, s)" "st'' = (r', s')" by fastforce
  have q: "dutiful (shardCount r') q" "shardCount r' = shardCount r \<or> owes (shardCount r') q"
    using dutiful_StepE [OF m(2)] m(1) i(3) st by (metis fst_conv)+
  have mem: "p \<in> set ps'' \<longleftrightarrow> p = q \<or> (\<exists>j < length ps'. j \<noteq> i \<and> p = ps' ! j)" for p
    using i(1,4) by (auto simp: in_set_conv_nth nth_list_update)
  have "\<exists>m \<le> shardCount r'. dutiful m p" if "p \<in> set ps''" for p
    using that q(1) dut plant_growsD [OF grows] st unfolding mem by (metis fst_conv nth_mem order.refl order.trans)
  moreover have "int (length (s_shards s')) = shardCount r' \<or> (\<exists>p \<in> set ps''. owes (shardCount r') p)"
  proof (cases "shardCount r' = shardCount r")
    case same: True
    have le: "int (length (s_shards s')) \<le> shardCount r'" "length (s_shards s) \<le> length (s_shards s')"
      using ok(2) grows st by (auto simp: plant_ok_def plant_grows_def)
    show ?thesis
    proof (cases "int (length (s_shards s)) = shardCount r")
      case True
      then show ?thesis using le same by simp
    next
      case False
      then obtain j where j: "j < length ps'" "owes (shardCount r) (ps' ! j)"
        using owed st by (auto simp: in_set_conv_nth)
      show ?thesis
      proof (cases "j = i")
        case True
        then have "owes (shardCount r) (Step f)" using j(2) i(2) by simp
        then have "shardCount r \<le> int (length (s_shards s')) \<or> owes (shardCount r) q"
          by (rule owes_StepE) (use i(3) st in blast)
        then show ?thesis using le(1) same mem by auto
      qed (use j mem same in metis)
    qed
  qed (use q(2) mem in auto)
  ultimately show ?case by (simp add: st)
qed auto

section \<open>A pool of expansions\<close>

definition target_count :: "Router \<Rightarrow> (string + int) list \<Rightarrow> int" where
  "target_count r bodies = foldr (\<lambda>body m. asked m body) bodies (shardCount r)"

lemma target_count_le: "target_count r bodies \<le> M \<longleftrightarrow> shardCount r \<le> M \<and> (\<forall>n. Inr n \<in> set bodies \<longrightarrow> n \<le> M)"
  by (induction bodies) (auto simp: target_count_def asked_def split: sum.splits)

lemma target_count_least:
  "shardCount r \<le> M \<Longrightarrow> (\<And>body. body \<in> set bodies \<Longrightarrow> asked (shardCount r) body \<le> M) \<Longrightarrow> target_count r bodies \<le> M"
  unfolding target_count_le by (force simp: asked_def)

lemma pool_of_expansions:
  fixes r s bodies fuel lim
  defines "M \<equiv> target_count r bodies"
  assumes "store_wf r s" and "M < int fuel" and "M \<le> lim"
    and run: "pool_step\<^sup>*\<^sup>* (map (serveExpand lim fuel) bodies, (r, s)) (ps, (r', s'))"
  shows "list_all2 (\<lambda>Q p. safe (plant.moves M) (plant.moves M) Q p (r', s'))
            (map (expand_contract M (shardCount r)) bodies) ps"
    and "plant_ok M (r', s')" and "plant_grows (r, s) (r', s')"
    and "answered_all ps \<Longrightarrow> int (length (s_shards s')) = shardCount r'"
proof -
  note wf = store_wfD(1,2) [OF assms(2)]
  have bound: "shardCount r \<le> M" "\<And>n. Inr n \<in> set bodies \<Longrightarrow> n \<le> M"
    using target_count_le [of r bodies M] by (auto simp: M_def)
  have count: "int (length (s_shards s)) = shardCount r" using wf by (simp add: shard_total_def router_wf_def)
  then have ok: "plant_ok M (r, s)" using wf bound by (simp add: plant_ok_def)
  then have "reached M (shardCount r) (r, s)" by (simp add: reached_def)
  then have safe: "list_all2 (\<lambda>Q p. safe (plant.moves M) (plant.moves M) Q p (r, s))
     (map (expand_contract M (shardCount r)) bodies) (map (serveExpand lim fuel) bodies)"
    using bound(2) assms(3,4) by (auto simp: list_all2_map1 list_all2_map2 list.rel_refl_strong intro!: safe_serveExpand list.rel_refl_strong)
  show "list_all2 (\<lambda>Q p. safe (plant.moves M) (plant.moves M) Q p (r', s'))
            (map (expand_contract M (shardCount r)) bodies) ps"
    and "plant_ok M (r', s')" "plant_grows (r, s) (r', s')"
    using pool_contracts [OF run safe] plant.moves_trans ok by blast+
  have "int (length (s_shards s')) = shardCount r' \<or> (\<exists>p \<in> set ps. owes (shardCount r') p)"
    using store_follows [OF run ok safe] count by (simp add: dutiful_serveExpand)
  then show "int (length (s_shards s')) = shardCount r'" if "answered_all ps"
    using that by (auto simp: answered_all_def elim: owes_ReturnE)
qed

section \<open>What goes wrong in between\<close>

text \<open>A request to expand after it has resized the router, and after it has read the count.\<close>

definition resized :: "int \<Rightarrow> nat \<Rightarrow> int \<Rightarrow> int \<Rightarrow> EntityError option \<Rightarrow> Response resize" where
  "resized lim fuel n before failed =
     seq (case failed of
            Some err \<Rightarrow> Return (Inl err)
          | None \<Rightarrow>
              seq (ask_router Router_ShardCount) (\<lambda>after.
              Return (if after \<le> before then Inl ExpansionDidNotChange
                      else Inr \<lparr>exp_Previous = before, exp_Current = after, exp_Added = after - before\<rparr>))) (\<lambda>res.
     case res of
       Inl err \<Rightarrow> Return (409, PError (ExpandError err))
     | Inr expansion \<Rightarrow>
         seq (resize_store lim n) (\<lambda>_.
         seq (ask_router Router_ShardCount) (\<lambda>_.
         seq (list_states fuel 0 []) (\<lambda>states.
         Return (200, PExpand expansion states)))))"

definition counted :: "int \<Rightarrow> nat \<Rightarrow> int \<Rightarrow> int \<Rightarrow> Response resize" where
  "counted lim fuel n before = seq (on_router (resize_router lim n)) (resized lim fuel n before)"

lemma serveExpand_counted: "serveExpand lim fuel (Inr n) = seq (ask_router Router_ShardCount) (counted lim fuel n)"
  unfolding serveExpand_def ExpandP_def counted_def [abs_def] resized_def [abs_def] by (simp add: seq_assoc)

text \<open>What an expansion that went through is told.\<close>

definition told :: "int \<Rightarrow> int \<Rightarrow> Response" where
  "told before n =
     (200, PExpand \<lparr>exp_Previous = before, exp_Current = n, exp_Added = n - before\<rparr> (replicate (nat n) 0))"

lemma alone_resized:
  "router_wf r \<Longrightarrow> shardCount r = n \<Longrightarrow> b < n \<Longrightarrow> n < int fuel \<Longrightarrow> n \<le> lim \<Longrightarrow>
     alone (resized lim fuel n b None) (r, s) = Some (told b n, (r, grown_store n s))"
  by (simp add: resized_def told_def Router_ShardCount_def alone_list_states router_wf_def Store_ExpandShards_eq)

lemma resize_router_up:
  assumes "router_wf r" and "shardCount r \<le> n" and "n \<le> lim"
  shows "resize_router lim n r = Some (None, full_router n)" and "router_wf (full_router n)"
  using assms full_router_wf [OF assms(1)]
  by (auto simp: resize_router_def ExpandShards_eq router_wf_def full_router_def)

lemma alone_counted:
  assumes "router_wf r" and "shardCount r \<le> n" and "b < n" and "n < int fuel" and "n \<le> lim"
  shows "alone (counted lim fuel n b) (r, s) = Some (told b n, (full_router n, grown_store n s))"
  using resize_router_up [OF assms(1,2,5)] assms(3-5) by (simp add: counted_def alone_resized)

text \<open>
  Two requests to expand to the same count that overlap may both be told that they added all of the
  new shards, though alone, in either order, the second is refused.
\<close>

theorem parallel_expansions_both_added:
  assumes "store_wf r s" and "shardCount r < n" and "n < int fuel" and "n \<le> lim"
  shows "pool_step\<^sup>*\<^sup>* ([serveExpand lim fuel (Inr n), serveExpand lim fuel (Inr n)], (r, s))
           ([Return (told (shardCount r) n), Return (told (shardCount r) n)], (full_router n, grown_store n s)) \<and>
         (\<exists>rs. alone (serveExpand lim fuel (Inr n)) (r, s) = Some (told (shardCount r) n, rs) \<and>
            alone (serveExpand lim fuel (Inr n)) rs = Some ((409, PError (ExpandError ExpansionDidNotChange)), rs))"
proof -
  let ?c = "shardCount r" and ?r = "full_router n" and ?s = "grown_store n s"
  let ?told = "Return (told ?c n) :: Response resize"
  note r = store_wfD(1) [OF assms(1)]
  note r' = resize_router_up [OF r less_imp_le [OF assms(2)] assms(4)]
  have s': "grown_store n ?s = ?s" by (simp add: grown_store_def)
  have 1: "alone (counted lim fuel n ?c) (r, s) = Some (told ?c n, (?r, ?s))"
    using alone_counted [OF r _ assms(2-4)] assms(2) by simp
  have 2: "alone (counted lim fuel n ?c) (?r, ?s) = Some (told ?c n, (?r, ?s))"
    using alone_counted [OF r'(2) _ assms(2-4)] s' by simp
  have "pool_step ([serveExpand lim fuel (Inr n), serveExpand lim fuel (Inr n)], (r, s))
      ([counted lim fuel n ?c, serveExpand lim fuel (Inr n)], (r, s))"
    unfolding serveExpand_counted seq_ask_router by (rule pool_left) (simp add: Router_ShardCount_def)
  moreover have "pool_step ([counted lim fuel n ?c, serveExpand lim fuel (Inr n)], (r, s))
      ([counted lim fuel n ?c, counted lim fuel n ?c], (r, s))"
    unfolding serveExpand_counted seq_ask_router by (rule pool_right) (simp add: Router_ShardCount_def)
  moreover note pool_left_alone [OF 1, of "counted lim fuel n ?c"] pool_right_alone [OF 2, of ?told]
  ultimately have "pool_step\<^sup>*\<^sup>* ([serveExpand lim fuel (Inr n), serveExpand lim fuel (Inr n)], (r, s)) ([?told, ?told], (?r, ?s))"
    by (meson converse_rtranclp_into_rtranclp rtranclp_trans)
  moreover have "alone (serveExpand lim fuel (Inr n)) (r, s) = Some (told ?c n, (?r, ?s))"
    using 1 by (simp add: serveExpand_counted Router_ShardCount_def)
  moreover have "alone (serveExpand lim fuel (Inr n)) (?r, ?s) =
      Some ((409, PError (ExpandError ExpansionDidNotChange)), (?r, ?s))"
    using resize_router_up(1) [OF r'(2) _ assms(4)]
    by (simp add: serveExpand_counted counted_def resized_def Router_ShardCount_def)
  ultimately show ?thesis by blast
qed

text \<open>
  A write between the two resizes of an expansion, of an entity the new table sends to a new shard:
  the store has no such shard yet and falls back to its first one, so the write is acknowledged and
  the entity is not found once the expansion is done. After the expansion the same write is found.
\<close>

definition serve_write :: "EntityKey \<Rightarrow> Fields \<Rightarrow> string \<Rightarrow> Response resize" where
  "serve_write key fs v =
     atomic (\<lambda>(r, s). map_option (\<lambda>s. ((200, PWritten), (r, s))) (Write r key fs v s))"

lemma Write_falls_back:
  assumes "router_wf r" and "length (s_shards s) \<le> shard_of r key" and "s_shards s \<noteq> []"
  shows "\<exists>s' e. Write r key fs v s = Some s' \<and> s_shards s' = (s_shards s)[0 := fmupd key e (s_shards s ! 0)]"
  using assms by (simp add: Write_def tick_def WriteAt_def shard_index_def Route_wf Let_def
      invalidate_entity_def store_shard_def) blast

theorem write_between_resizes_goes_astray:
  assumes "store_wf r s" and "shardCount r < n" and "n < int fuel" and "n \<le> lim"
    and "shard_total r \<le> shard_of (full_router n) key"
  shows "\<exists>s'. pool_step\<^sup>*\<^sup>* ([serveExpand lim fuel (Inr n), serve_write key fs v], (r, s))
            ([Return (told (shardCount r) n), Return (200, PWritten)], (full_router n, s')) \<and>
          EntryFor (full_router n) key s' = Some None \<and> key \<in> set (Keys id 0 s')"
proof -
  let ?c = "shardCount r" and ?r = "full_router n"
  note r = store_wfD(1) [OF assms(1)] and len = store_wfD(2) [OF assms(1)]
  note r' = resize_router_up [OF r less_imp_le [OF assms(2)] assms(4)]
  have shards: "s_shards s \<noteq> []" using store_wfD(5) [OF assms(1), of key] by auto
  obtain s1 e where s1: "Write ?r key fs v s = Some s1"
    "s_shards s1 = (s_shards s)[0 := fmupd key e (s_shards s ! 0)]"
    using Write_falls_back [OF r'(2) _ shards] assms(5) len by metis
  let ?s = "grown_store n s1"
  let ?put = "serve_write key fs v"
  have "pool_step ([serveExpand lim fuel (Inr n), ?put], (r, s)) ([counted lim fuel n ?c, ?put], (r, s))"
    unfolding serveExpand_counted seq_ask_router by (rule pool_left) (simp add: Router_ShardCount_def)
  moreover have "pool_step ([counted lim fuel n ?c, ?put], (r, s)) ([resized lim fuel n ?c None, ?put], (?r, s))"
    unfolding counted_def seq_on_router by (rule pool_left) (simp add: r')
  moreover have "pool_step\<^sup>*\<^sup>* ([resized lim fuel n ?c None, ?put], (?r, s)) ([resized lim fuel n ?c None, Return (200, PWritten)], (?r, s1))"
    by (rule pool_right_alone) (simp add: serve_write_def s1)
  moreover have "pool_step\<^sup>*\<^sup>* ([resized lim fuel n ?c None, Return (200, PWritten)], (?r, s1))
      ([Return (told ?c n), Return (200, PWritten)], (?r, ?s))"
    using assms(2-4) by (intro pool_left_alone) (simp add: alone_resized r')
  ultimately have "pool_step\<^sup>*\<^sup>* ([serveExpand lim fuel (Inr n), ?put], (r, s))
      ([Return (told ?c n), Return (200, PWritten)], (?r, ?s))"
    by (meson converse_rtranclp_into_rtranclp rtranclp_trans)
  moreover have "EntryFor ?r key ?s = Some None \<and> key \<in> set (Keys id 0 ?s)"
  proof -
    have grown: "s_shards ?s = s_shards s1 @ replicate (nat n - length (s_shards s)) fmempty"
      using assms(2) len r s1(2) by (auto simp: grown_store_def shard_total_def router_wf_def)
    have "shard_of ?r key < nat n" using shard_of_less [OF r'(2), of key] by (simp add: shard_total_def)
    then have less: "shard_of ?r key < length (s_shards ?s)" using grown s1(2) by simp
    then have "fmlookup (s_shards ?s ! shard_of ?r key) key = None"
      unfolding grown using s1(2) len assms(5) by (simp add: nth_append)
    then have "store_lookup ?r ?s key = Some None"
      using less by (simp add: store_lookup_def shard_index_def Route_wf [OF r'(2)] Let_def)
    moreover have "key \<in> set (Keys id 0 ?s)"
    proof -
      have "s_shards ?s \<noteq> []" "s_shards ?s ! 0 = fmupd key e (s_shards s ! 0)"
        unfolding grown s1(2) using shards by (simp_all add: nth_append)
      then show ?thesis by (simp add: Keys_def)
    qed
    ultimately show ?thesis by (simp add: EntryFor_def)
  qed
  ultimately show ?thesis by blast
qed

lemma expanded_demo: "full_router 4 = demo_router4"
  using Expand_Inr [OF Expand_demo] by simp

lemma demo_count: "shardCount demo_router = 2" "shard_total demo_router = 2"
  by (simp_all add: demo_router_def shard_total_def)

lemma write_between_resizes_goes_astray_witness:
  "\<exists>s. pool_step\<^sup>*\<^sup>* ([serveExpand 1024 5 (Inr 4), serve_write demo_user demo_fields ''v''], (demo_router, demo_written))
         ([Return (told 2 4), Return (200, PWritten)], (demo_router4, s)) \<and>
       EntryFor demo_router4 demo_user s = Some None"
proof -
  have "shard_total demo_router \<le> shard_of (full_router 4) demo_user"
    by (simp add: expanded_demo shard_demo_user demo_count)
  from write_between_resizes_goes_astray [OF store_wf_demo_written _ _ _ this, of 5 1024 demo_fields "''v''"]
  show ?thesis by (simp add: expanded_demo demo_count) blast
qed

section \<open>The outcome of expansions at the same time\<close>

text \<open>C29: Requests to expand the shards at the same time, in any number and any order of their steps, all to
  counts of which a slice can be made (at most \<open>lim\<close>; a larger count panics, see
  \<open>every_request_answered\<close>): no handler panics, all are answered and no run is infinite; the store
  never has more shards than the router routes to, keeps what it has and only gains empty shards,
  and each answer is of the form of \<open>expand_answer\<close>. When all have answered, the router and the
  store both have the largest of the old count and the counts asked for.\<close>

theorem expansions_in_parallel_agree:
  assumes "store_wf r s" and "target_count r bodies < int fuel" and "target_count r bodies \<le> lim"
    and "pool_step\<^sup>*\<^sup>* (map (serveExpand lim fuel) bodies, (r, s)) (ps, (r', s'))"
  shows "calm ps (r', s') \<and> (answered_all ps \<or> (\<exists>c. pool_step (ps, (r', s')) c)) \<and>
         wf {(c', c :: Response resize list \<times> Plant). pool_step c c'} \<and>
         int (length (s_shards s')) \<le> shardCount r' \<and>
         (\<exists>k. s' = s\<lparr>s_shards := s_shards s @ replicate k fmempty\<rparr>) \<and>
         (\<forall>i resp. i < length ps \<and> ps ! i = Return resp \<longrightarrow> expand_answer (shardCount r) (bodies ! i) resp) \<and>
         (answered_all ps \<longrightarrow>
            shardCount r' = target_count r bodies \<and> int (length (s_shards s')) = target_count r bodies)"
proof -
  let ?M = "target_count r bodies"
  note pool = pool_of_expansions [OF assms]
  have len: "length ps = length bodies" using list_all2_lengthD [OF pool(1)] by simp
  have contract: "expand_contract ?M (shardCount r) (bodies ! i) resp (r', s')"
    if "i < length ps" "ps ! i = Return resp" for i resp
    using list_all2_nthD2 [OF pool(1) that(1)] that safe_answer len by fastforce
  have calm: "calm ps (r', s')"
    by (rule safe_calm [where E = "plant.moves ?M"])
      (use pool(1) in \<open>fastforce simp: list_all2_conv_all_nth in_set_conv_nth\<close>)
  have "shardCount r' = ?M" if all: "answered_all ps"
  proof (rule antisym)
    show "shardCount r' \<le> ?M" using pool(2) by (simp add: plant_ok_def)
    show "?M \<le> shardCount r'"
    proof (rule target_count_least)
      show "shardCount r \<le> shardCount r'" using plant_growsD [OF pool(3)] by simp
      fix body
      assume "body \<in> set bodies"
      then obtain i where i: "i < length ps" "bodies ! i = body" using len by (metis in_set_conv_nth)
      moreover obtain resp where "ps ! i = Return resp" using all i(1) by (metis answered_all_def nth_mem)
      ultimately show "asked (shardCount r) body \<le> shardCount r'"
        using contract by (fastforce simp: expand_contract_def reached_def)
    qed
  qed
  with pool(4) have "answered_all ps \<longrightarrow> shardCount r' = ?M \<and> int (length (s_shards s')) = ?M" by simp
  moreover have "int (length (s_shards s')) \<le> shardCount r'" using pool(2) by (simp add: plant_ok_def)
  moreover have "\<exists>k. s' = s\<lparr>s_shards := s_shards s @ replicate k fmempty\<rparr>" using pool(3) by (simp add: plant_grows_def)
  moreover have "\<forall>i resp. i < length ps \<and> ps ! i = Return resp \<longrightarrow> expand_answer (shardCount r) (bodies ! i) resp"
    using contract by (simp add: expand_contract_def)
  ultimately show ?thesis using calm calm_goes_on [OF calm] pool_terminates by blast
qed

lemma expansions_in_parallel_agree_witness:
  "\<exists>ps r s. pool_step\<^sup>*\<^sup>* (map (serveExpand 1024 5) [Inr 4, Inr 4], (demo_router, demo_written)) (ps, (r, s)) \<and>
     answered_all ps \<and> shardCount r = 4 \<and> length (s_shards s) = 4"
proof -
  have target: "target_count demo_router [Inr 4, Inr 4] = 4"
    by (simp add: target_count_def asked_def demo_count)
  let ?ps = "[Return (told 2 4), Return (told 2 4)] :: Response resize list"
  let ?s = "grown_store 4 demo_written"
  have run: "pool_step\<^sup>*\<^sup>* (map (serveExpand 1024 5) [Inr 4, Inr 4], (demo_router, demo_written)) (?ps, (demo_router4, ?s))"
    using parallel_expansions_both_added [OF store_wf_demo_written, of 4 5 1024]
    by (simp add: expanded_demo demo_count)
  have all: "answered_all ?ps" by (simp add: answered_all_def)
  have "shardCount demo_router4 = 4 \<and> int (length (s_shards ?s)) = 4"
    using expansions_in_parallel_agree [OF store_wf_demo_written _ _ run] all unfolding target by simp
  with run all show ?thesis
    by (intro exI [of _ ?ps] exI [of _ demo_router4] exI [of _ ?s]) simp
qed

end
