(* ===== verification/Routes.thy ===== *)
theory Routes
  imports Server
begin

text \<open>
  \<open>Server.Handler\<close> in \<open>cmd/featurestore/server.go\<close>: which handler a path goes to. The patterns without
  a final slash match one path each, the one with a final slash all paths below it, and the mux
  sends the path without that slash there. Paths are clean: the mux redirects any other to its
  clean form before it looks for a pattern. What the file server finds under the rest of a path is
  the file system's.
\<close>

datatype Endpoint =
    EpHealth | EpRead | EpWrite | EpPublish | EpRollback | EpImport | EpBackfill | EpExpand | EpSyncCheck
  | EpTTLScan | EpVersions

datatype Route = Api Endpoint | Files string string | MovedTo string | NotFound

definition api_routes :: "(string \<times> Endpoint) list" where
  "api_routes =
     [(''/api/health'', EpHealth), (''/api/read'', EpRead), (''/api/write'', EpWrite),
      (''/api/publish'', EpPublish), (''/api/rollback'', EpRollback), (''/api/import'', EpImport),
      (''/api/backfill'', EpBackfill), (''/api/expand'', EpExpand), (''/api/sync-check'', EpSyncCheck),
      (''/api/ttl-scan'', EpTTLScan), (''/api/versions'', EpVersions)]"

definition Handler :: "string \<Rightarrow> string \<Rightarrow> Route" where
  "Handler webDir path =
     (case map_of api_routes path of
        Some e \<Rightarrow> Api e
      | None \<Rightarrow>
          let webDir = (if webDir = '''' then ''web'' else webDir) in
          if take 5 path = ''/web/'' then Files webDir (drop 5 path)
          else if path = ''/web'' then MovedTo ''/web/''
          else NotFound)"

text \<open>The endpoint of a request.\<close>

fun endpoint :: "Request \<Rightarrow> Endpoint" where
  "endpoint ReqHealth = EpHealth"
| "endpoint (ReqRead key) = EpRead"
| "endpoint (ReqWrite body) = EpWrite"
| "endpoint (ReqPublish body) = EpPublish"
| "endpoint (ReqRollback body) = EpRollback"
| "endpoint (ReqImport body) = EpImport"
| "endpoint (ReqBackfill body) = EpBackfill"
| "endpoint (ReqExpand body) = EpExpand"
| "endpoint (ReqSyncCheck begin until) = EpSyncCheck"
| "endpoint ReqTTLScan = EpTTLScan"
| "endpoint ReqVersions = EpVersions"

lemma api_routes_distinct: "distinct (map fst api_routes)" "distinct (map snd api_routes)"
  by (simp_all add: api_routes_def)

lemma api_routes_all: "e \<in> snd ` set api_routes"
  by (cases e) (simp_all add: api_routes_def)

text \<open>Every endpoint has exactly one path, no two endpoints share one, and the page is served below
  \<open>/web/\<close> and nowhere else.\<close>

theorem Handler_spec:
  "(\<forall>e. \<exists>!path. Handler webDir path = Api e) \<and>
   (\<forall>path. (\<exists>rest. Handler webDir path = Files (if webDir = '''' then ''web'' else webDir) rest) \<longleftrightarrow>
      (\<exists>rest. path = ''/web/'' @ rest))"
proof (intro conjI allI)
  fix e
  have api: "Handler webDir path = Api e \<longleftrightarrow> (path, e) \<in> set api_routes" for path
  proof -
    have "Handler webDir path = Api e \<longleftrightarrow> map_of api_routes path = Some e"
      by (simp add: Handler_def Let_def split: option.splits)
    then show ?thesis unfolding map_of_eq_Some_iff [OF api_routes_distinct(1)] .
  qed
  obtain path where path: "(path, e) \<in> set api_routes" using api_routes_all [of e] by auto
  have "q = path" if "(q, e) \<in> set api_routes" for q
    using api_routes_distinct(2) path that unfolding distinct_map inj_on_def by (metis Pair_inject snd_conv)
  then show "\<exists>!path. Handler webDir path = Api e" unfolding api using path by blast
next
  fix path
  have no_api: "map_of api_routes (''/web/'' @ rest) = None" for rest by (simp add: api_routes_def)
  show "(\<exists>rest. Handler webDir path = Files (if webDir = '''' then ''web'' else webDir) rest) \<longleftrightarrow>
      (\<exists>rest. path = ''/web/'' @ rest)"
  proof
    assume "\<exists>rest. Handler webDir path = Files (if webDir = '''' then ''web'' else webDir) rest"
    then have "take 5 path = ''/web/''" by (auto simp: Handler_def Let_def split: option.splits if_splits)
    then show "\<exists>rest. path = ''/web/'' @ rest" by (metis append_take_drop_id)
  next
    assume "\<exists>rest. path = ''/web/'' @ rest"
    then show "\<exists>rest. Handler webDir path = Files (if webDir = '''' then ''web'' else webDir) rest"
      using no_api by (auto simp: Handler_def Let_def)
  qed
qed

end
