(* ===== verification/Spec2Isabelle.thy ===== *)
theory Spec2Isabelle
  imports AlwaysAnswers AbstractStore XXDigest RacingReads Races
    UndoContract ReadContract BackfillContract Serving ParallelExpansion Routes
begin

text \<open>
  A verification library of the feature store service: a Go program that keeps feature values of
  entities in memory, sharded by a hash of the entity key, under versions of a table layout that
  are drafted, published, superseded and rolled back. Clients read and write over HTTP; importers
  merge offline files, backfills add computed results under a version guard, a scanner removes what
  has grown old and a checker compares the online with the offline side.

  Parts and theories, the imported ones first.

  \<^item> \<open>Prelude\<close>: Go's types and the pieces of its library the program calls. \<open>'a go\<close> is the result of
    a call, \<open>None\<close> when it panics; \<open>Inl\<close> of a sum is a returned error. \<open>GoFloat\<close>: the text of a
    float64 under the verb %g, and when it is an integer.
  \<^item> \<open>DataModel\<close> (\<open>internal/model\<close>): keys, values, snapshots, version records, tasks.
  \<^item> \<open>Tables\<close> (\<open>internal/table\<close>): table definitions, validation, registry, built-in tables.
  \<^item> \<open>XXHash\<close>, \<open>XXDigest\<close> (vendored \<open>xxhash/v2\<close>): the one-shot 64-bit hash, the streaming digest and
    its serialisation. \<open>EntityRouter\<close> (\<open>internal/entity\<close>): key parsing, routing, expansion.
  \<^item> \<open>Versions\<close> (\<open>internal/version\<close>): the state machine, the manager with its active pointer, the
    switch events of the consistency check.
  \<^item> \<open>StoreCache\<close>, \<open>StoreJournal\<close>, \<open>StoreResults\<close>, \<open>FeatureStore\<close> (\<open>internal/store\<close>): the read
    cache, the write journal, the committed results and the sharded store itself.
  \<^item> \<open>TtlScan\<close> (\<open>internal/ttl\<close>), \<open>SyncCheck\<close> (\<open>internal/sync\<close>), \<open>Ingest\<close> (\<open>internal/ingest\<close>), \<open>Compute\<close>
    (\<open>internal/compute\<close>): the clients of the store.
  \<^item> \<open>Routes\<close> (\<open>server.go\<close>): the handler of each path. \<open>Server\<close> (\<open>cmd/featurestore\<close>): the decoding of fields, one function per handler, the start in
    \<open>main\<close>; \<open>ServerRuns\<close>: the start, what holds of the requests while the shards stay as they are
    (\<open>http_read_never_stale\<close>, \<open>http_write_then_read\<close>, \<open>rejected_requests_change_nothing\<close>), and which
    requests panic; \<open>AlwaysAnswers\<close>: that every other request is answered and every stored value well
    typed, expansions included.

  Three theories are about the store as a whole. \<open>ReadPath\<close> gives the promise of the read path over
  store, cache and versions, as an invariant (\<open>sound\<close>) of a step relation (\<open>store_step\<close>) with all of
  the store's and manager's operations: what is cached for the active version is what the entry
  gives. \<open>AbstractStore\<close> states what a client sees, a plain map with versions and undo records, and
  shows that the sharded, cached store refines it. \<open>RacingReads\<close> splits a read at the point where
  the code holds no lock. \<open>ShardExpansion\<close> shows what a resize does to the stored entries.

  Ten theories are about calls that run at the same time. \<open>Concurrency\<close> is generic: a call is a
  sequence of atomic steps (\<open>prog\<close>), several of them form a pool (\<open>pool_step\<close>), and \<open>safe\<close> is a
  rely-guarantee judgement on a call among others. \<open>Clients\<close> cuts reads, writes, version switches,
  imports, undos, backfills, scans and checks at the locks of the store, cache, journal, results and
  manager, and shows that each, run alone, is the operation of the other theories (\<open>calls_alone\<close>).
  \<open>Interleaving\<close> runs any of them together: none panics and all return
  (\<open>calls_in_parallel_answer\<close>), reads stay fresh where reads and changes of an entity do not meet
  (\<open>race_free_reads_never_stale\<close>), and the version guard of backfills holds at any moment
  (\<open>guard_holds_in_parallel\<close>). \<open>Serving\<close> does the same for whole handlers. They are a second
  translation of the handlers, cut at the locks; \<open>served_alone\<close> checks it against the first: alone, a
  request is answered as \<open>handle\<close> answers it. Requests in flight at the same time that do not race on
  memory under no lock (\<open>no_data_race\<close>) are all answered (\<open>requests_in_parallel_answered\<close>). Four theories give single calls their contracts among arbitrary
  others: \<open>AmongOthers\<close> an import and a scan (\<open>import_among_writers\<close>, \<open>scan_among_others\<close>),
  \<open>UndoContract\<close> an import with its rollback (\<open>import_undone_among_others\<close>), \<open>ReadContract\<close> a read
  among version switches (\<open>read_sees_one_version\<close>), \<open>BackfillContract\<close> a run (\<open>run_among_others\<close>).
  \<open>ParallelExpansion\<close> cuts \<open>handleExpand\<close> into its questions to the router and the store, with the router
  part of the state: any expansions at the same time end with the router and the store at the
  largest count asked for (\<open>expansions_in_parallel_agree\<close>). \<open>Races\<close> has the runs in which promises are
  lost.

  Correspondence. A struct is a record whose fields have a prefix of their own; pointers to records
  that only one owner changes are the records themselves, and an operation returns what it changed.
  The version records, which the manager's maps and its active pointer share, are a map from
  identifiers and the pointer is an identifier. A Go map is a finite map; where the code ranges over
  one, the order is an argument (\<open>iteration\<close>), and the properties hold for every order. A backfill
  changes its rows' field maps in place, so \<open>Run\<close> and \<open>Retry\<close> return the rows. Integers are 64-bit
  words where they can overflow (counters, hashes, version ranks), otherwise numbers. Clocks are
  streams of arbitrary instants, an argument of the operations that read them. The hook that the
  manager calls in the store after a transition is the list of calls it makes. The longest slice the
  runtime can make is a parameter (\<open>lim\<close>, \<open>rt_slice\<close> of the server's runtime): \<open>make_slice\<close> panics beyond it,
  which the tables of the router and the store's shards do whose length is a count from outside.
  Below it, memory is taken to suffice; running out of it ends a Go process with no panic.

  Interfaces. \<open>shard_routing\<close> (a key has one shard in range) is interpreted on the router,
  \<open>snapshot_cache\<close> (lookups after inserts and invalidations) on the read cache, \<open>entry_store\<close> (a
  write changes one key) on the sharded store, \<open>cache_hook\<close> on the store's invalidations; the undo of
  batches and the coherence of the cache are proved once, inside these. \<open>interference\<close> (an invariant
  and a relation that all calls keep) is interpreted on the service's shared state, and on the router
  with the store for expansions.

  What the groups of lemmas show. For each component an invariant (\<open>router_wf\<close>, \<open>manager_wf\<close>, \<open>cache_wf\<close>,
  \<open>journal_wf\<close>, \<open>store_wf\<close>, \<open>world_ok\<close>) that every operation but an expansion keeps, and a weaker one
  (\<open>world_runs\<close>) that an expansion keeps too; a normal form of each mutation of
  the store (\<open>set_entry\<close>) on which its effect can be read off; the effect of each operation on every
  branch; the loops of scans, checks, imports and backfills against what they compute. The two
  loops whose step is an argument (\<open>partition_loop\<close>, \<open>import_loop\<close>) are \<open>partial_function (option)\<close>
  and shown to return for every positive step; all other recursions are total. Only the loop of \<open>handleExpand\<close>, which
  expansions that run meanwhile may prolong, has fuel (\<open>list_states\<close>): any number above all counts
  asked for is enough, and the properties say that the handler then answers.
  The steps of a pool are well-founded (\<open>pool_terminates\<close>).

  Where the code does not do what its comments promise, a theorem says so: the rank of a version
  reads its digits backwards (\<open>stale_backfill_accepted\<close>); a rollback to a superseded version leaves
  no version active (\<open>Rollback_to_superseded_leaves_no_active\<close>), one with a draft parent two
  published (\<open>Rollback_can_publish_a_second_version\<close>); a write can be hidden by a read that overlaps
  with it (\<open>racing_read_hides_write\<close>), a layout by a read made before its version
  (\<open>read_before_create_stays_stale\<close>), an entity by another one's cache key (\<open>cache_key_collision\<close>); an
  expansion loses the entities it moves (\<open>Expansion_loses_moved_entities\<close>) and reads panic while it
  is under way (\<open>Read_during_expansion_panics\<close>), writes go astray (\<open>write_between_resizes_goes_astray\<close>),
  and of two that overlap both are told they added the shards (\<open>parallel_expansions_both_added\<close>); a retry after a run counts twice
  (\<open>Retry_after_Run_counts_twice\<close>), so do two retries that overlap (\<open>parallel_retries_count_twice\<close>) and
  two rows of one entity (\<open>Run_duplicate_entity\<close>), and other results of the same length are taken for
  committed ones (\<open>Retry_skips_other_results\<close>); a row that is being imported escapes the rollback of
  its batch (\<open>rollback_misses_row_in_flight\<close>), and a scan deletes what is written between its look at
  an entry and its removal (\<open>scan_deletes_overlapping_write\<close>), and of two runs over one entity that
  overlap one loses the other's update (\<open>parallel_runs_lose_update\<close>); the consistency check does not
  report what only the offline side has (\<open>offline_only_not_reported\<close>); a request to expand to more
  shards than a slice can have panics (\<open>handleExpand_panics\<close>).

  Where a property is about the reads of an entity, its conditions are: the tables' identifiers have
  no at sign and neither has the version an explicit read names (else \<open>cache_key_collision\<close>), and in
  a sequence of client operations an explicit read names a version that exists (else
  \<open>read_before_create_stays_stale\<close>). The built-in tables meet the first.

  Not modelled: data races. A method that holds its lock is one step, and the accesses the code
  makes under no lock (the snapshot of an entry after the lookup, \<open>Importer.batches\<close>,
  \<open>Backfill.tasks\<close>, the version records) are taken as atomic or as the caller's own, since Go gives
  no meaning to a race on a map. \<open>no_data_race\<close> says of requests that they make no such race, and
  the promise that all are answered is made for those; the contracts of single calls among others
  hold of the runs that are free of such races. Expansions run in parallel with each other, but not among the other
  calls: with one under way reads panic. Not modelled either: the text of JSON, which the handlers' arguments are
  decoded from, and the text of error messages; \<open>net/http\<close>, the static files, logging, the flags; the assembly bodies of the hash,
  for which the portable Go bodies stand; the browse page, container files and tests.
\<close>

end
